(* ===== verification/Prelude.thy ===== *)
theory Prelude
  imports Main "HOL-Library.Word" "HOL-Library.Signed_Division"
begin

section \<open>Shared types, machine integers and generic lemmas\<close>

text \<open>
  What every component theory builds on: the byte type, the faults a C++ expression can run
  into (an out-of-bounds read, a null pointer, a bad iterator, a failed assertion), the
  wrap-around of the fixed-width integers that are kept as \<open>int\<close>, the named collections of
  facts that carry the component proofs, and generic lemmas about lists.

  A run of the program that the C++ standard leaves undefined is the value \<open>Inl f\<close> of the
  type \<open>'a outcome\<close>: the models never read past a list or through a null pointer silently.
\<close>

type_synonym byte = "8 word"

text \<open>The bytes of a string literal.\<close>

definition ascii :: "string \<Rightarrow> byte list" where
  "ascii s = map of_char s"

datatype fault =
    Null_Dereference
  | Out_Of_Bounds
  | Invalid_Iterator
  | Assertion_Failed
  | Division_By_Zero

type_synonym 'a outcome = "fault + 'a"

named_theorems machine_int \<open>reading the wrap-around functions inside their range\<close>
named_theorems wf_intros \<open>introduction rules for the components' invariants\<close>

subsection \<open>Fixed-width integers over int\<close>

text \<open>
  \<open>u64\<close>: conversion to \<open>unsigned long\<close> and \<open>std::size_t\<close> (reduction modulo 2 to the 64).
  \<open>s32\<close>: conversion to \<open>int\<close> and \<open>int32_t\<close>, and the arithmetic of \<open>std::atomic<int>\<close>, which
  is two's complement and wraps.
\<close>

definition u64 :: "int \<Rightarrow> int" where
  "u64 x = x mod 2 ^ 64"

definition s32 :: "int \<Rightarrow> int" where
  "s32 x = (x + 2 ^ 31) mod 2 ^ 32 - 2 ^ 31"

lemma u64_id [machine_int]: "0 \<le> x \<Longrightarrow> x < 2 ^ 64 \<Longrightarrow> u64 x = x"
  by (simp add: u64_def)

lemma u64_range [simp]: "0 \<le> u64 x" "u64 x < 2 ^ 64"
  by (simp_all add: u64_def)

lemma u64_idem [simp]: "u64 (u64 x) = u64 x"
  by (simp add: u64_def)

lemma s32_id [machine_int]: "- (2 ^ 31) \<le> x \<Longrightarrow> x < 2 ^ 31 \<Longrightarrow> s32 x = x"
  by (simp add: s32_def)

lemma s32_range [simp]: "- (2 ^ 31) \<le> s32 x" "s32 x < 2 ^ 31"
  by (simp_all add: s32_def)

lemma s32_idem [simp]: "s32 (s32 x) = s32 x"
  by (simp add: s32_def)

lemma s32_add_left [simp]: "s32 (s32 x + y) = s32 (x + y)"
proof -
  have "(s32 x + y + 2 ^ 31) mod 2 ^ 32 = ((x + 2 ^ 31) mod 2 ^ 32 + y) mod 2 ^ 32"
    by (simp add: s32_def algebra_simps)
  also have "\<dots> = (x + 2 ^ 31 + y) mod 2 ^ 32"
    by (rule mod_add_left_eq)
  finally show ?thesis
    by (simp add: s32_def algebra_simps)
qed

subsection \<open>Truncating division\<close>

text \<open>
  C++ division and remainder on signed integers truncate towards zero: they are
  \<open>sdiv\<close> and \<open>smod\<close>. On non-negative operands they agree with \<open>div\<close> and \<open>mod\<close>.
\<close>

lemma sdiv_nonneg [machine_int]:
  fixes a b :: int
  assumes "0 \<le> a" and "0 \<le> b"
  shows "a sdiv b = a div b"
  using assms by (auto simp: signed_divide_int_def sgn_if)

lemma smod_nonneg [machine_int]:
  fixes a b :: int
  assumes "0 \<le> a" and "0 \<le> b"
  shows "a smod b = a mod b"
  using assms by (rule smod_mod_positive)

lemma mod_of_parts:
  fixes k a r :: int
  assumes "0 \<le> r" and "r < k"
  shows "(k * a + r) mod k = r"
  using assms by simp

subsection \<open>Results that may be errors\<close>

definition bind_sum :: "'e + 'a \<Rightarrow> ('a \<Rightarrow> 'e + 'b) \<Rightarrow> 'e + 'b" where
  "bind_sum r f = (case r of Inl e \<Rightarrow> Inl e | Inr x \<Rightarrow> f x)"

lemma bind_sum_simps [simp]:
  "bind_sum (Inl e) f = Inl e"
  "bind_sum (Inr x) f = f x"
  by (simp_all add: bind_sum_def)

lemma bind_sum_Inr_iff:
  "bind_sum r f = Inr y \<longleftrightarrow> (\<exists>x. r = Inr x \<and> f x = Inr y)"
  by (cases r) simp_all

subsection \<open>Lists\<close>

lemma distinct_append_swap: "distinct (xs @ ys) = distinct (ys @ xs)"
  by auto

lemma sum_list_take_le: "sum_list (take n xs) \<le> sum_list (xs :: nat list)"
  by (metis append_take_drop_id le_add1 sum_list_append)

end
