(* ===== verification/GearsTime.thy ===== *)
theory GearsTime
  imports Prelude
begin

section \<open>Time intervals: \<open>Gears::Time\<close> (gears/Time.hpp)\<close>

text \<open>
  \<open>timeval\<close> is the C struct that \<open>Gears::Time\<close> extends: \<open>tv_sec\<close> seconds, positive or negative,
  and \<open>tv_usec\<close> microseconds, which the class keeps in \<open>[0, USEC_MAX)\<close> (its own comment says
  so; \<open>norm_time\<close> below). The operations are those of gears/Time.hpp, one definition each.

  \<open>time_t\<close> and \<open>suseconds_t\<close> are 64-bit signed on the platforms the code targets and their
  overflow is undefined behaviour in C++, so they are \<open>int\<close> here: the definitions are the
  code on every input on which the code is defined. \<open>pack\<close> truncates to 32 bits and keeps
  the wrap-around. The theorems show that the microsecond count \<open>microseconds\<close> turns the
  operators into integer arithmetic and order, that every operator keeps the normal form,
  and that \<open>pack\<close>/\<open>unpack\<close> is a round trip on the values that fit.
\<close>

datatype timeval = Timeval (tv_sec: int) (tv_usec: int)

definition USEC_MAX :: int where
  "USEC_MAX = 1000000"

definition norm_time :: "timeval \<Rightarrow> bool" where
  "norm_time tv \<longleftrightarrow> 0 \<le> tv_usec tv \<and> tv_usec tv < USEC_MAX"

definition time_zero :: timeval where
  "time_zero = Timeval 0 0"

definition ONE_SECOND :: timeval where
  "ONE_SECOND = Timeval 1 0"

definition ONE_MINUTE :: timeval where
  "ONE_MINUTE = Timeval 60 0"

definition ONE_HOUR :: timeval where
  "ONE_HOUR = Timeval (60 * 60) 0"

definition ONE_DAY :: timeval where
  "ONE_DAY = Timeval (24 * 60 * 60) 0"

definition ONE_WEEK :: timeval where
  "ONE_WEEK = Timeval (7 * 24 * 60 * 60) 0"

subsection \<open>Arithmetic\<close>

text \<open>Unary minus, absolute value, and the four additive operators.\<close>

definition time_neg :: "timeval \<Rightarrow> timeval" where
  "time_neg tv =
     (if tv_usec tv \<noteq> 0 then Timeval (- tv_sec tv - 1) (USEC_MAX - tv_usec tv)
      else Timeval (- tv_sec tv) 0)"

definition time_abs :: "timeval \<Rightarrow> timeval" where
  "time_abs tv = (if tv_sec tv < 0 then time_neg tv else tv)"

definition time_add :: "timeval \<Rightarrow> timeval \<Rightarrow> timeval" where
  "time_add tv1 tv2 =
     (if tv_usec tv1 + tv_usec tv2 \<ge> USEC_MAX
      then Timeval (tv_sec tv1 + tv_sec tv2 + 1) (tv_usec tv1 + tv_usec tv2 - USEC_MAX)
      else Timeval (tv_sec tv1 + tv_sec tv2) (tv_usec tv1 + tv_usec tv2))"

definition time_add_sec :: "timeval \<Rightarrow> int \<Rightarrow> timeval" where
  "time_add_sec tv t = Timeval (tv_sec tv + t) (tv_usec tv)"

definition time_sub :: "timeval \<Rightarrow> timeval \<Rightarrow> timeval" where
  "time_sub tv1 tv2 =
     (if tv_usec tv1 < tv_usec tv2
      then Timeval (tv_sec tv1 - tv_sec tv2 - 1) (USEC_MAX + tv_usec tv1 - tv_usec tv2)
      else Timeval (tv_sec tv1 - tv_sec tv2) (tv_usec tv1 - tv_usec tv2))"

definition time_sub_sec :: "timeval \<Rightarrow> int \<Rightarrow> timeval" where
  "time_sub_sec tv t = Timeval (tv_sec tv - t) (tv_usec tv)"

text \<open>\<open>Helper::abs\<close>, \<open>Helper::mul\<close> and \<open>Helper::div\<close>, and the two multiplicative operators.\<close>

definition helper_abs :: "int \<Rightarrow> int" where
  "helper_abs v = (if v < 0 then - v else v)"

definition helper_mul :: "timeval \<Rightarrow> int \<Rightarrow> timeval" where
  "helper_mul tv multiplier =
     Timeval (tv_sec tv * multiplier + (tv_usec tv * multiplier) sdiv USEC_MAX)
       ((tv_usec tv * multiplier) smod USEC_MAX)"

text \<open>Division by zero is undefined in C++; the quotient is an \<open>outcome\<close>.\<close>

definition helper_div :: "timeval \<Rightarrow> int \<Rightarrow> timeval outcome" where
  "helper_div tv divisor =
     (if divisor = 0 then Inl Division_By_Zero
      else Inr (Timeval (tv_sec tv sdiv divisor)
        (((tv_sec tv - tv_sec tv sdiv divisor * divisor) * USEC_MAX + tv_usec tv)
          sdiv divisor)))"

definition time_mul :: "timeval \<Rightarrow> int \<Rightarrow> timeval" where
  "time_mul tv multiplier =
     (if (tv_sec tv < 0) = (multiplier < 0)
      then helper_mul (time_abs tv) (helper_abs multiplier)
      else time_neg (helper_mul (time_abs tv) (helper_abs multiplier)))"

definition time_div :: "timeval \<Rightarrow> int \<Rightarrow> timeval outcome" where
  "time_div tv divisor =
     (if (tv_sec tv < 0) = (divisor < 0)
      then helper_div (time_abs tv) (helper_abs divisor)
      else map_sum id time_neg (helper_div (time_abs tv) (helper_abs divisor)))"

text \<open>The compound assignments.\<close>

definition time_add_assign :: "timeval \<Rightarrow> timeval \<Rightarrow> timeval" where
  "time_add_assign self time = time_add self time"

definition time_add_sec_assign :: "timeval \<Rightarrow> int \<Rightarrow> timeval" where
  "time_add_sec_assign self t = Timeval (tv_sec self + t) (tv_usec self)"

definition time_sub_assign :: "timeval \<Rightarrow> timeval \<Rightarrow> timeval" where
  "time_sub_assign self time = time_sub self time"

definition time_sub_sec_assign :: "timeval \<Rightarrow> int \<Rightarrow> timeval" where
  "time_sub_sec_assign self t = Timeval (tv_sec self - t) (tv_usec self)"

definition time_mul_assign :: "timeval \<Rightarrow> int \<Rightarrow> timeval" where
  "time_mul_assign self multiplier = time_mul self multiplier"

definition time_div_assign :: "timeval \<Rightarrow> int \<Rightarrow> timeval outcome" where
  "time_div_assign self divisor = time_div self divisor"

definition time_invert_sign :: "timeval \<Rightarrow> timeval" where
  "time_invert_sign self = time_neg self"

definition microseconds :: "timeval \<Rightarrow> int" where
  "microseconds tv = tv_sec tv * USEC_MAX + tv_usec tv"

subsection \<open>Comparison\<close>

definition time_eq :: "timeval \<Rightarrow> timeval \<Rightarrow> bool" where
  "time_eq tv1 tv2 \<longleftrightarrow> tv_sec tv1 = tv_sec tv2 \<and> tv_usec tv1 = tv_usec tv2"

definition time_ne :: "timeval \<Rightarrow> timeval \<Rightarrow> bool" where
  "time_ne tv1 tv2 \<longleftrightarrow> \<not> time_eq tv1 tv2"

definition time_lt :: "timeval \<Rightarrow> timeval \<Rightarrow> bool" where
  "time_lt tv1 tv2 \<longleftrightarrow>
     tv_sec tv1 < tv_sec tv2 \<or> (tv_sec tv1 = tv_sec tv2 \<and> tv_usec tv1 < tv_usec tv2)"

definition time_gt :: "timeval \<Rightarrow> timeval \<Rightarrow> bool" where
  "time_gt tv1 tv2 \<longleftrightarrow> time_lt tv2 tv1"

definition time_le :: "timeval \<Rightarrow> timeval \<Rightarrow> bool" where
  "time_le tv1 tv2 \<longleftrightarrow> \<not> time_lt tv2 tv1"

definition time_ge :: "timeval \<Rightarrow> timeval \<Rightarrow> bool" where
  "time_ge tv1 tv2 \<longleftrightarrow> \<not> time_lt tv1 tv2"

text \<open>
  The comparison operators are a linear order, so the library's automation for sorted lists
  and orders applies to the keys of the message queue's timeout map.
\<close>

instantiation timeval :: linorder
begin

definition less_timeval :: "timeval \<Rightarrow> timeval \<Rightarrow> bool" where
  "less_timeval = time_lt"

definition less_eq_timeval :: "timeval \<Rightarrow> timeval \<Rightarrow> bool" where
  "less_eq_timeval = time_le"

instance
  by standard
    (auto simp: less_timeval_def less_eq_timeval_def time_lt_def time_le_def
      intro: timeval.expand)

end

lemmas time_order_defs =
  less_timeval_def less_eq_timeval_def time_lt_def time_le_def time_gt_def time_ge_def
  time_eq_def time_ne_def

lemma time_lt_iff_less: "time_lt a b \<longleftrightarrow> a < b"
  by (simp add: less_timeval_def)

lemma time_eq_iff [simp]: "time_eq tv1 tv2 \<longleftrightarrow> tv1 = tv2"
  by (auto simp: time_eq_def intro: timeval.expand)

lemma time_ne_iff [simp]: "time_ne tv1 tv2 \<longleftrightarrow> tv1 \<noteq> tv2"
  by (simp add: time_ne_def)

subsection \<open>Printing, packing, hashing\<close>

text \<open>\<open>Time::Print\<close> and \<open>Time::print\<close>.\<close>

datatype print_time = Print (print_sign: int) (integer_part: int) (fractional_part: int)

definition time_print :: "timeval \<Rightarrow> print_time" where
  "time_print tv =
     (if tv_sec tv > 0 then Print 1 (tv_sec tv) (tv_usec tv)
      else if tv_sec tv \<noteq> 0 then
        (if tv_usec tv \<noteq> 0 then Print (- 1) (- tv_sec tv - 1) (USEC_MAX - tv_usec tv)
         else Print (- 1) (- tv_sec tv) 0)
      else if tv_usec tv \<noteq> 0 then Print 1 0 (tv_usec tv) else Print 0 0 0)"

text \<open>
  \<open>pack\<close> writes two \<open>int32_t\<close>, truncating; \<open>unpack\<close> reads them back. The buffer is the pair
  of the two values it holds.
\<close>

definition time_pack :: "timeval \<Rightarrow> int \<times> int" where
  "time_pack tv = (s32 (tv_sec tv), s32 (tv_usec tv))"

definition time_unpack :: "int \<times> int \<Rightarrow> timeval" where
  "time_unpack buf = Timeval (fst buf) (snd buf)"

text \<open>\<open>Time::set(time_t, suseconds_t)\<close>.\<close>

definition time_set :: "int \<Rightarrow> int \<Rightarrow> timeval" where
  "time_set time_sec usec = Timeval time_sec usec"

text \<open>The 64-bit value that \<open>hash_add\<close> feeds to the hash.\<close>

definition hash_value :: "timeval \<Rightarrow> 64 word" where
  "hash_value key = or (push_bit 24 (word_of_int (tv_sec key))) (word_of_int (tv_usec key))"

subsection \<open>Timers: \<open>GeneralTimer\<close> and \<open>TimeMeter\<close>\<close>

text \<open>
  The clock is the argument \<open>now\<close>: the value that \<open>clock_()\<close> returns in the call.
\<close>

record general_timer =
  timer_started :: bool
  timer_start_at :: timeval
  timer_stop_at :: timeval

definition timer_init :: general_timer where
  "timer_init = \<lparr>timer_started = False, timer_start_at = time_zero, timer_stop_at = time_zero\<rparr>"

definition timer_start :: "timeval \<Rightarrow> general_timer \<Rightarrow> general_timer" where
  "timer_start now t = t\<lparr>timer_started := True, timer_start_at := now\<rparr>"

definition timer_stop :: "timeval \<Rightarrow> general_timer \<Rightarrow> general_timer" where
  "timer_stop now t = (if timer_started t then t\<lparr>timer_stop_at := now, timer_started := False\<rparr> else t)"

definition elapsed_time :: "general_timer \<Rightarrow> timeval" where
  "elapsed_time t = time_sub (timer_stop_at t) (timer_start_at t)"

definition timer_stop_set :: "timeval \<Rightarrow> general_timer \<Rightarrow> general_timer \<times> timeval" where
  "timer_stop_set now t = (let t' = timer_stop now t in (t', elapsed_time t'))"

definition timer_stop_add ::
  "timeval \<Rightarrow> general_timer \<Rightarrow> timeval \<Rightarrow> general_timer \<times> timeval" where
  "timer_stop_add now t timeout =
     (let t' = timer_stop now t in (t', time_add_assign timeout (elapsed_time t')))"

text \<open>\<open>TimeMeter\<close>: the constructor starts the timer, the destructor stores or adds.\<close>

definition time_meter_ctor :: "timeval \<Rightarrow> general_timer" where
  "time_meter_ctor now = timer_start now timer_init"

definition time_meter_dtor ::
  "bool \<Rightarrow> timeval \<Rightarrow> general_timer \<Rightarrow> timeval \<Rightarrow> general_timer \<times> timeval" where
  "time_meter_dtor ADDITIVE now t time =
     (if ADDITIVE then timer_stop_add now t time else timer_stop_set now t)"

subsection \<open>The microsecond count\<close>

lemma norm_time_zero [simp]: "norm_time time_zero"
  by (simp add: norm_time_def time_zero_def USEC_MAX_def)

lemma norm_time_neg [wf_intros]: "norm_time tv \<Longrightarrow> norm_time (time_neg tv)"
  by (auto simp: norm_time_def time_neg_def USEC_MAX_def)

lemma norm_time_abs [wf_intros]: "norm_time tv \<Longrightarrow> norm_time (time_abs tv)"
  by (simp add: time_abs_def norm_time_neg)

lemma norm_time_add [wf_intros]:
  "norm_time a \<Longrightarrow> norm_time b \<Longrightarrow> norm_time (time_add a b)"
  by (auto simp: norm_time_def time_add_def USEC_MAX_def)

lemma norm_time_sub [wf_intros]:
  "norm_time a \<Longrightarrow> norm_time b \<Longrightarrow> norm_time (time_sub a b)"
  by (auto simp: norm_time_def time_sub_def USEC_MAX_def)

lemma microseconds_neg [simp]: "microseconds (time_neg tv) = - microseconds tv"
  by (simp add: microseconds_def time_neg_def USEC_MAX_def)

lemma microseconds_add [simp]:
  "microseconds (time_add a b) = microseconds a + microseconds b"
  by (simp add: microseconds_def time_add_def USEC_MAX_def)

lemma microseconds_sub [simp]:
  "microseconds (time_sub a b) = microseconds a - microseconds b"
  by (simp add: microseconds_def time_sub_def USEC_MAX_def)

lemma microseconds_sec [simp]:
  "microseconds (time_add_sec a t) = microseconds a + t * USEC_MAX"
  "microseconds (time_sub_sec a t) = microseconds a - t * USEC_MAX"
  by (simp_all add: microseconds_def time_add_sec_def time_sub_sec_def algebra_simps)

lemma microseconds_less:
  assumes "norm_time a" and "norm_time b"
  shows "a < b \<longleftrightarrow> microseconds a < microseconds b"
  using assms by (auto simp: time_order_defs norm_time_def microseconds_def USEC_MAX_def)

lemma microseconds_inject:
  assumes "norm_time a" and "norm_time b" and "microseconds a = microseconds b"
  shows "a = b"
  using assms microseconds_less [of a b] microseconds_less [of b a]
  by (metis less_irrefl linorder_less_linear)

lemma microseconds_neg_iff: "norm_time tv \<Longrightarrow> tv_sec tv < 0 \<longleftrightarrow> microseconds tv < 0"
  by (auto simp: norm_time_def microseconds_def USEC_MAX_def)

lemma microseconds_abs [simp]:
  "norm_time tv \<Longrightarrow> microseconds (time_abs tv) = \<bar>microseconds tv\<bar>"
  using microseconds_neg_iff [of tv] by (auto simp: time_abs_def)

lemma time_abs_sec_nonneg: "norm_time tv \<Longrightarrow> 0 \<le> tv_sec (time_abs tv)"
  by (auto simp: time_abs_def time_neg_def norm_time_def)

lemma norm_time_usec_nonneg: "norm_time tv \<Longrightarrow> 0 \<le> tv_usec tv"
  by (simp add: norm_time_def)

lemma helper_mul_norm:
  assumes "norm_time tv" and "0 \<le> tv_sec tv" and "0 \<le> k"
  shows "norm_time (helper_mul tv k)"
    and "microseconds (helper_mul tv k) = microseconds tv * k"
proof -
  have nn: "0 \<le> tv_usec tv * k" "0 \<le> USEC_MAX"
    using assms by (simp_all add: norm_time_usec_nonneg USEC_MAX_def)
  have split: "(tv_usec tv * k) div USEC_MAX * USEC_MAX + (tv_usec tv * k) mod USEC_MAX
      = tv_usec tv * k"
    by simp
  show "norm_time (helper_mul tv k)"
    using nn by (simp add: norm_time_def helper_mul_def smod_nonneg USEC_MAX_def)
  have "microseconds (helper_mul tv k) = tv_sec tv * k * USEC_MAX
      + ((tv_usec tv * k) div USEC_MAX * USEC_MAX + (tv_usec tv * k) mod USEC_MAX)"
    unfolding microseconds_def helper_mul_def timeval.sel sdiv_nonneg [OF nn] smod_nonneg [OF nn]
    by (simp only: distrib_right add.assoc)
  then show "microseconds (helper_mul tv k) = microseconds tv * k"
    unfolding split by (simp add: microseconds_def algebra_simps)
qed

lemma helper_div_norm:
  assumes "norm_time tv" and "0 \<le> tv_sec tv" and "0 < d"
  obtains t where "helper_div tv d = Inr t" and "norm_time t"
    and "microseconds t = microseconds tv div d"
proof -
  let ?s = "tv_sec tv" and ?u = "tv_usec tv"
  have u: "0 \<le> ?u" "?u < USEC_MAX" using assms by (simp_all add: norm_time_def)
  have q: "?s sdiv d = ?s div d" using assms by (simp add: sdiv_nonneg)
  have r: "?s - ?s div d * d = ?s mod d" by (simp add: minus_div_mult_eq_mod)
  have r0: "0 \<le> ?s mod d" "?s mod d \<le> d - 1" using assms by simp_all
  let ?f = "(?s mod d) * USEC_MAX + ?u"
  have f0: "0 \<le> ?f" using r0 u by (simp add: USEC_MAX_def)
  have "?s mod d * USEC_MAX \<le> (d - 1) * USEC_MAX"
    using r0 by (simp add: USEC_MAX_def)
  then have f1: "?f < USEC_MAX * d" using u by (simp add: algebra_simps)
  define t where "t = Timeval (?s div d) (?f div d)"
  have e: "helper_div tv d = Inr t"
    using assms f0 by (simp add: helper_div_def t_def q r sdiv_nonneg)
  have "0 \<le> ?f div d" using f0 assms by (simp add: pos_imp_zdiv_nonneg_iff)
  moreover have "?f div d < USEC_MAX"
  proof (rule ccontr)
    assume "\<not> ?thesis"
    then have "USEC_MAX * d \<le> ?f div d * d" using assms by simp
    also have "\<dots> \<le> ?f" using assms by (simp add: minus_mod_eq_div_mult [symmetric])
    finally show False using f1 by simp
  qed
  ultimately have n: "norm_time t" by (simp add: norm_time_def t_def)
  have "?s * USEC_MAX = ?s div d * d * USEC_MAX + ?s mod d * USEC_MAX"
    unfolding distrib_right [symmetric] by simp
  moreover have "?s div d * d * USEC_MAX = (?s div d * USEC_MAX) * d"
    by (simp only: mult.assoc mult.commute [of d])
  ultimately have "microseconds tv = (?s div d * USEC_MAX) * d + ?f"
    by (simp add: microseconds_def)
  then have "microseconds tv div d = ?s div d * USEC_MAX + ?f div d"
    using assms by (simp only: div_mult_self3 [of d] simp_thms)
  then have m: "microseconds t = microseconds tv div d"
    by (simp add: microseconds_def t_def)
  show ?thesis using e n m by (rule that)
qed

lemma time_mul_norm:
  assumes "norm_time tv"
  shows "norm_time (time_mul tv k)" and "microseconds (time_mul tv k) = microseconds tv * k"
proof -
  note abs = norm_time_abs [OF assms] time_abs_sec_nonneg [OF assms]
  have k: "helper_abs k = \<bar>k\<bar>" by (simp add: helper_abs_def)
  note mul = helper_mul_norm [OF abs, of "\<bar>k\<bar>", simplified]
  show "norm_time (time_mul tv k)"
    by (simp add: time_mul_def k mul norm_time_neg)
  show "microseconds (time_mul tv k) = microseconds tv * k"
    using assms by (simp add: time_mul_def k mul microseconds_neg_iff) (auto simp: abs_if)
qed

lemma time_div_norm:
  assumes "norm_time tv" and "d \<noteq> 0"
  obtains t where "time_div tv d = Inr t" and "norm_time t"
    and "microseconds t = microseconds tv sdiv d"
proof -
  note abs = norm_time_abs [OF assms(1)] time_abs_sec_nonneg [OF assms(1)]
  have d: "helper_abs d = \<bar>d\<bar>" "0 < \<bar>d\<bar>" using assms by (simp_all add: helper_abs_def)
  obtain t where t: "helper_div (time_abs tv) \<bar>d\<bar> = Inr t" "norm_time t"
    "microseconds t = microseconds (time_abs tv) div \<bar>d\<bar>"
    using helper_div_norm [OF abs d(2)] by blast
  have us: "microseconds t = \<bar>microseconds tv\<bar> div \<bar>d\<bar>" using t assms by simp
  show ?thesis
  proof (cases "(tv_sec tv < 0) = (d < 0)")
    case True
    moreover have "microseconds t = microseconds tv sdiv d"
      using True assms us by (auto simp: signed_divide_int_def microseconds_neg_iff sgn_if)
    ultimately show ?thesis using that [of t] t d by (simp add: time_div_def)
  next
    case False
    moreover have "- microseconds t = microseconds tv sdiv d"
      using False assms us by (auto simp: signed_divide_int_def microseconds_neg_iff sgn_if)
    ultimately show ?thesis using that [of "time_neg t"] t d
      by (simp add: time_div_def norm_time_neg)
  qed
qed

subsection \<open>Properties\<close>



text \<open>The comparison operators order normal times exactly as their microsecond counts, and
  equal counts are equal values.
\<close>

theorem time_comparison_correct:
  assumes "norm_time a" and "norm_time b"
  shows "(time_lt a b \<longleftrightarrow> microseconds a < microseconds b) \<and>
    (time_gt a b \<longleftrightarrow> microseconds a > microseconds b) \<and>
    (time_le a b \<longleftrightarrow> microseconds a \<le> microseconds b) \<and>
    (time_ge a b \<longleftrightarrow> microseconds a \<ge> microseconds b) \<and>
    (time_eq a b \<longleftrightarrow> microseconds a = microseconds b)"
  using microseconds_less [OF assms] microseconds_less [OF assms(2,1)]
    microseconds_inject [OF assms]
  by (auto simp: less_timeval_def time_gt_def time_le_def time_ge_def)

theorem time_comparison_correct_witness:
  "time_lt (Timeval (- 1) 999999) (Timeval 0 0) \<and> \<not> time_ge (Timeval (- 1) 999999) (Timeval 0 0)"
  using time_comparison_correct [of "Timeval (- 1) 999999" "Timeval 0 0"]
  by (simp add: norm_time_def USEC_MAX_def microseconds_def)

text \<open>The printed form is the value: sign times (integer part seconds and fractional part
  microseconds) is the microsecond count, with both parts non-negative and the fraction
  below one second.
\<close>

theorem time_print_correct:
  assumes "norm_time tv"
  shows "print_sign (time_print tv) *
      (integer_part (time_print tv) * USEC_MAX + fractional_part (time_print tv)) = microseconds tv \<and>
    0 \<le> integer_part (time_print tv) \<and>
    0 \<le> fractional_part (time_print tv) \<and> fractional_part (time_print tv) < USEC_MAX"
  using assms by (auto simp: time_print_def norm_time_def microseconds_def USEC_MAX_def)

theorem time_print_correct_witness:
  "time_print (Timeval (- 2) 250000) = Print (- 1) 1 750000 \<and>
   microseconds (Timeval (- 2) 250000) = - 1750000"
  using time_print_correct [of "Timeval (- 2) 250000"]
  by (simp add: norm_time_def USEC_MAX_def time_print_def microseconds_def)

lemma unpack_pack:
  assumes "norm_time tv" and "- (2 ^ 31) \<le> tv_sec tv" and "tv_sec tv < 2 ^ 31"
  shows "time_unpack (time_pack tv) = tv"
proof -
  have "- (2 ^ 31) \<le> tv_usec tv" "tv_usec tv < 2 ^ 31"
    using assms(1) by (simp_all add: norm_time_def USEC_MAX_def)
  with assms show ?thesis
    by (simp add: time_unpack_def time_pack_def s32_id)
qed

text \<open>A stopped timer holds the time between the two calls, and \<open>stop\<close> without \<open>start\<close> keeps the old one.\<close>

lemma timer_elapsed:
  "elapsed_time (timer_stop t2 (timer_start t1 tm)) = time_sub t2 t1"
  by (simp add: elapsed_time_def timer_stop_def timer_start_def)

lemma timer_stop_idem: "timer_stop t3 (timer_stop t2 tm) = timer_stop t2 tm"
  by (simp add: timer_stop_def)

text \<open>A scoped timer measures the time between its construction and its destruction: the
  plain one stores that interval, the additive one adds it to what was measured before.
\<close>

theorem time_meter_measures:
  assumes "norm_time t1" and "norm_time t2" and "norm_time acc"
  shows "microseconds (snd (time_meter_dtor ADDITIVE t2 (time_meter_ctor t1) acc)) =
    (if ADDITIVE then microseconds acc else 0) + (microseconds t2 - microseconds t1)"
  by (simp add: time_meter_dtor_def time_meter_ctor_def timer_stop_set_def timer_stop_add_def
    timer_elapsed time_add_assign_def Let_def)

theorem time_meter_measures_witness:
  "microseconds (snd (time_meter_dtor True (Timeval 7 0) (time_meter_ctor (Timeval 5 500000))
     (Timeval 1 0))) = 2500000"
  using time_meter_measures [of "Timeval 5 500000" "Timeval 7 0" "Timeval 1 0" True]
  by (simp add: norm_time_def USEC_MAX_def microseconds_def)

end
