(* ===== verification/GearsCalendar.thy ===== *)
theory GearsCalendar
  imports GearsTime
begin

section \<open>Calendar time: \<open>tm\<close>, \<open>gm_to_time\<close>, \<open>time_to_gm\<close>, \<open>ExtendedTime\<close>\<close>

text \<open>
  gears/Time.cpp converts between seconds since the epoch and the split date of the C struct
  \<open>tm\<close> with its own tables and no call to the C library; gears/Time.hpp wraps the split date
  in \<open>ExtendedTime\<close>. The calls of the C library for the local time zone (\<open>localtime_r\<close>,
  \<open>mktime\<close>) are parameters of the definitions that make them.

  Reading \<open>DAYS[leap][tm_mon]\<close> with a month outside 0..11 is outside the table: the result
  is then \<open>Inl Out_Of_Bounds\<close>.

  The theorems: \<open>gm_to_time\<close> inverts \<open>time_to_gm\<close> on every non-negative time and the other
  way round on every valid date, the fields that \<open>time_to_gm\<close> fills are in range, and the
  day count agrees with the Gregorian calendar for the years 1970 to 2099.
\<close>

record tm =
  tm_sec :: int
  tm_min :: int
  tm_hour :: int
  tm_mday :: int
  tm_mon :: int
  tm_year :: int
  tm_wday :: int
  tm_yday :: int

definition DAYS :: "int list list" where
  "DAYS =
    [[0, 31, 59, 90, 120, 151, 181, 212, 243, 273, 304, 334],
     [0, 31, 60, 91, 121, 152, 182, 213, 244, 274, 305, 335]]"

definition days_before_month :: "nat \<Rightarrow> int \<Rightarrow> int outcome" where
  "days_before_month leap mon =
     (if 0 \<le> mon \<and> mon < 12 then Inr (DAYS ! leap ! nat mon) else Inl Out_Of_Bounds)"

text \<open>
  \<open>(YEARS & 3) == 2\<close> on a two's complement \<open>long\<close> is \<open>YEARS mod 4 = 2\<close>.
\<close>

definition gm_to_time :: "tm \<Rightarrow> int outcome" where
  "gm_to_time et =
     (let YEARS = tm_year et - 70 in
      bind_sum (days_before_month (if YEARS mod 4 = 2 then 1 else 0) (tm_mon et))
        (\<lambda>days. Inr
          ((YEARS * 365 + (YEARS + 1) sdiv 4 + days + tm_mday et - 1) * 86400 +
            tm_hour et * 3600 + tm_min et * 60 + tm_sec et)))"

text \<open>
  \<open>std::lower_bound(CDAYS + 1, CDAYS + 12, time)\<close> points at the first of the last eleven
  entries that is not below \<open>time\<close>; one less is the month.
\<close>

definition month_of_yday :: "int list \<Rightarrow> int \<Rightarrow> nat" where
  "month_of_yday CDAYS time = length (takeWhile (\<lambda>d. d < time) (drop 1 CDAYS))"

text \<open>The year inside the four-year cycle: years passed, whether it is the leap one, day of it.\<close>

definition year_in_cycle :: "int \<Rightarrow> int \<times> nat \<times> int" where
  "year_in_cycle time =
     (if time \<ge> 365 then
        (if time \<ge> 365 * 2 then
           (if time \<ge> 365 * 3 + 1 then (3, 0, time - (365 * 3 + 1))
            else (2, 1, time - 365 * 2))
         else (1, 0, time - 365))
      else (0, 0, time))"

definition time_to_gm :: "int \<Rightarrow> tm" where
  "time_to_gm time0 =
     (let sec = time0 smod 60; time1 = time0 sdiv 60;
          mi = time1 smod 60; time2 = time1 sdiv 60;
          hour = time2 smod 24; time3 = time2 sdiv 24;
          wday = (time3 + 4) smod 7;
          years0 = time3 sdiv (4 * 365 + 1) * 4;
          (dy, leap, yday) = year_in_cycle (time3 smod (4 * 365 + 1));
          CDAYS = DAYS ! leap;
          month = month_of_yday CDAYS (yday + 1)
      in \<lparr>tm_sec = sec, tm_min = mi, tm_hour = hour,
          tm_mday = yday + 1 - CDAYS ! month, tm_mon = int month,
          tm_year = years0 + dy + 70, tm_wday = wday, tm_yday = yday\<rparr>)"

subsection \<open>\<open>ExtendedTime\<close>\<close>

datatype time_zone = TZ_GMT | TZ_LOCAL

record extended_time = tm +
  tm_usec :: int
  timezone :: time_zone

definition extended_of_tm :: "tm \<Rightarrow> int \<Rightarrow> time_zone \<Rightarrow> extended_time" where
  "extended_of_tm time usec tz = tm.extend time \<lparr>tm_usec = usec, timezone = tz\<rparr>"

text \<open>\<open>ExtendedTime(sec, usec, tz)\<close>: \<open>localtime_r\<close> may fail, which raises \<open>Exception\<close>.\<close>

datatype time_error = Time_Exception | Time_Invalid_Argument | Time_Fault fault

definition extended_of_sec ::
  "(int \<Rightarrow> tm option) \<Rightarrow> int \<Rightarrow> int \<Rightarrow> time_zone \<Rightarrow> time_error + extended_time" where
  "extended_of_sec localtime_r sec usec tz =
     (case tz of
        TZ_GMT \<Rightarrow> Inr (extended_of_tm (time_to_gm sec) usec tz)
      | TZ_LOCAL \<Rightarrow>
          (case localtime_r sec of
             None \<Rightarrow> Inl Time_Exception
           | Some t \<Rightarrow> Inr (extended_of_tm t usec tz)))"

text \<open>\<open>ExtendedTime(year, month, day, hour, min, sec, usec)\<close> normalises through the seconds.\<close>

definition extended_of_date ::
  "int \<Rightarrow> int \<Rightarrow> int \<Rightarrow> int \<Rightarrow> int \<Rightarrow> int \<Rightarrow> int \<Rightarrow> extended_time outcome" where
  "extended_of_date year month day hour mi sec usec =
     bind_sum
       (gm_to_time \<lparr>tm_sec = sec, tm_min = mi, tm_hour = hour, tm_mday = day,
          tm_mon = month - 1, tm_year = year - 1900, tm_wday = 0, tm_yday = 0\<rparr>)
       (\<lambda>t. Inr (extended_of_tm (time_to_gm t) usec TZ_GMT))"

definition extended_to_time ::
  "(tm \<Rightarrow> int) \<Rightarrow> extended_time \<Rightarrow> timeval outcome" where
  "extended_to_time mktime et =
     (case timezone et of
        TZ_LOCAL \<Rightarrow> Inr (Timeval (mktime (tm.truncate et)) (tm_usec et))
      | TZ_GMT \<Rightarrow> bind_sum (gm_to_time (tm.truncate et)) (\<lambda>sec. Inr (Timeval sec (tm_usec et))))"

text \<open>
  \<open>normalize\<close>: \<open>mktime\<close> returns the seconds and the normalised fields; the result \<open>-1\<close> is
  its failure.
\<close>

definition extended_normalize ::
  "(tm \<Rightarrow> int \<times> tm) \<Rightarrow> extended_time \<Rightarrow> time_error + extended_time" where
  "extended_normalize mktime et =
     (case timezone et of
        TZ_GMT \<Rightarrow>
          (case gm_to_time (tm.truncate et) of
             Inl f \<Rightarrow> Inl (Time_Fault f)
           | Inr t \<Rightarrow> Inr (extended_of_tm (time_to_gm t) (tm_usec et) (timezone et)))
      | TZ_LOCAL \<Rightarrow>
          (case mktime (tm.truncate et) of
             (res, et') \<Rightarrow>
               if res = - 1 then Inl Time_Exception
               else Inr (extended_of_tm et' (tm_usec et) (timezone et))))"

definition extended_get_time :: "extended_time \<Rightarrow> extended_time" where
  "extended_get_time self =
     self\<lparr>tm_mday := 0, tm_mon := 0, tm_wday := 0, tm_yday := 0, tm_year := 0\<rparr>"

definition extended_set_time :: "extended_time \<Rightarrow> extended_time \<Rightarrow> extended_time" where
  "extended_set_time self time =
     self\<lparr>tm_hour := tm_hour time, tm_min := tm_min time, tm_sec := tm_sec time,
          tm_usec := tm_usec time\<rparr>"

definition extended_get_date :: "extended_time \<Rightarrow> extended_time" where
  "extended_get_date self = self\<lparr>tm_hour := 0, tm_min := 0, tm_sec := 0, tm_usec := 0\<rparr>"

definition extended_set_date :: "extended_time \<Rightarrow> extended_time \<Rightarrow> extended_time" where
  "extended_set_date self time =
     self\<lparr>tm_mday := tm_mday time, tm_mon := tm_mon time, tm_year := tm_year time\<rparr>"

text \<open>\<open>Time::compare\<close>: the first differing field decides.\<close>

definition tm_compare :: "tm \<Rightarrow> tm \<Rightarrow> int" where
  "tm_compare t1 t2 =
     (let diff = tm_year t1 - tm_year t2;
          diff = (if diff = 0 then tm_mon t1 - tm_mon t2 else diff);
          diff = (if diff = 0 then tm_mday t1 - tm_mday t2 else diff);
          diff = (if diff = 0 then tm_hour t1 - tm_hour t2 else diff);
          diff = (if diff = 0 then tm_min t1 - tm_min t2 else diff);
          diff = (if diff = 0 then tm_sec t1 - tm_sec t2 else diff)
      in diff)"

text \<open>\<open>Time::get_time\<close>, \<open>get_gm_time\<close>, \<open>get_local_time\<close>.\<close>

definition time_get_time ::
  "(int \<Rightarrow> tm option) \<Rightarrow> timeval \<Rightarrow> time_zone \<Rightarrow> time_error + extended_time" where
  "time_get_time localtime_r tv tz = extended_of_sec localtime_r (tv_sec tv) (tv_usec tv) tz"

definition time_get_gm_time ::
  "(int \<Rightarrow> tm option) \<Rightarrow> timeval \<Rightarrow> time_error + extended_time" where
  "time_get_gm_time localtime_r tv = extended_of_sec localtime_r (tv_sec tv) (tv_usec tv) TZ_GMT"

definition time_get_local_time ::
  "(int \<Rightarrow> tm option) \<Rightarrow> timeval \<Rightarrow> time_error + extended_time" where
  "time_get_local_time localtime_r tv =
     extended_of_sec localtime_r (tv_sec tv) (tv_usec tv) TZ_LOCAL"

subsection \<open>The tables\<close>

text \<open>The row of the table for a year counted from 1970.\<close>

definition leap_index :: "int \<Rightarrow> nat" where
  "leap_index years = (if years mod 4 = 2 then 1 else 0)"

lemma leap_index_lt [simp]: "leap_index years < 2"
  by (simp add: leap_index_def)

lemma leap_index_cases: "leap_index years = 0 \<or> leap_index years = 1"
  by (simp add: leap_index_def)

definition days_in_month :: "nat \<Rightarrow> nat \<Rightarrow> int" where
  "days_in_month leap m =
     (if m = 11 then 31 else DAYS ! leap ! Suc m - DAYS ! leap ! m)"

lemma month_cases:
  "m < 12 \<Longrightarrow> m = 0 \<or> m = 1 \<or> m = 2 \<or> m = 3 \<or> m = 4 \<or> m = 5 \<or> m = 6 \<or> m = 7 \<or>
    m = 8 \<or> m = 9 \<or> m = 10 \<or> m = (11::nat)"
  by arith

lemma month_of_yday_bounds:
  assumes "leap < 2" and "0 \<le> yday" and "yday \<le> 365"
  shows "month_of_yday (DAYS ! leap) (yday + 1) < 12"
    and "DAYS ! leap ! month_of_yday (DAYS ! leap) (yday + 1) \<le> yday"
proof -
  have "leap = 0 \<or> leap = 1" using assms by linarith
  then show "month_of_yday (DAYS ! leap) (yday + 1) < 12"
    and "DAYS ! leap ! month_of_yday (DAYS ! leap) (yday + 1) \<le> yday"
    using assms by (auto simp: month_of_yday_def DAYS_def)
qed

lemma month_of_yday_of_date:
  assumes "leap < 2" and "m < 12" and "1 \<le> d" and "d \<le> days_in_month leap m"
  shows "month_of_yday (DAYS ! leap) (DAYS ! leap ! m + d - 1 + 1) = m"
proof -
  have "leap = 0 \<or> leap = 1" using assms by linarith
  with month_cases [OF assms(2)] assms(3,4) show ?thesis
    by (elim disjE) (simp_all add: month_of_yday_def DAYS_def days_in_month_def)
qed

lemma year_in_cycle_spec:
  assumes "0 \<le> c" and "c < 1461" and "year_in_cycle c = (dy, leap, yday)"
  shows "0 \<le> dy \<and> dy \<le> 3 \<and> leap = leap_index dy \<and> 0 \<le> yday \<and> yday \<le> 364 + int leap \<and>
    c = 365 * dy + (dy + 1) div 4 + yday"
  using assms by (auto simp: year_in_cycle_def leap_index_def split: if_splits)

lemma year_in_cycle_of_day:
  assumes "0 \<le> dy" and "dy \<le> 3" and "0 \<le> yday" and "yday \<le> 364 + int (leap_index dy)"
  shows "year_in_cycle (365 * dy + (dy + 1) div 4 + yday) = (dy, leap_index dy, yday)"
proof -
  have "dy = 0 \<or> dy = 1 \<or> dy = 2 \<or> dy = 3" using assms by linarith
  then show ?thesis using assms by (elim disjE) (auto simp: year_in_cycle_def leap_index_def)
qed

lemma month_of_yday_upper:
  assumes "leap < 2" and "0 \<le> yday" and "yday \<le> 364 + int leap"
  defines "m \<equiv> month_of_yday (DAYS ! leap) (yday + 1)"
  shows "yday + 1 - DAYS ! leap ! m \<le> days_in_month leap m"
proof -
  have "leap = 0 \<or> leap = 1" using assms by linarith
  then show ?thesis
    using assms by (auto simp: month_of_yday_def DAYS_def days_in_month_def)
qed

text \<open>The day number since the epoch of a year and a day in it.\<close>

definition day_number :: "int \<Rightarrow> int \<Rightarrow> int" where
  "day_number years yday = years * 365 + (years + 1) div 4 + yday"

lemma day_number_cycle:
  "day_number (4 * q + dy) yday = 1461 * q + (365 * dy + (dy + 1) div 4 + yday)"
proof -
  have "(4 * q + dy + 1) div 4 = q + (dy + 1) div 4"
    by (simp add: add.assoc)
  then show ?thesis by (simp add: day_number_def algebra_simps)
qed

lemma time_to_gm_eq:
  assumes "0 \<le> t" and "year_in_cycle (t div 86400 mod 1461) = (dy, leap, yday)"
  shows "time_to_gm t =
    (let month = month_of_yday (DAYS ! leap) (yday + 1) in
     \<lparr>tm_sec = t mod 60, tm_min = t div 60 mod 60, tm_hour = t div 3600 mod 24,
      tm_mday = yday + 1 - DAYS ! leap ! month, tm_mon = int month,
      tm_year = t div 86400 div 1461 * 4 + dy + 70,
      tm_wday = (t div 86400 + 4) mod 7, tm_yday = yday\<rparr>)"
proof -
  have [simp]: "0 \<le> t div 60" "0 \<le> t div 3600" "0 \<le> t div 86400"
    using assms by (simp_all add: pos_imp_zdiv_nonneg_iff)
  have [simp]: "t div 60 div 60 = t div 3600" "t div 3600 div 24 = t div 86400"
    by (simp_all add: zdiv_zmult2_eq [symmetric])
  have "t smod 60 = t mod 60" "t sdiv 60 = t div 60" "t div 60 smod 60 = t div 60 mod 60"
    "t div 60 sdiv 60 = t div 3600" "t div 3600 smod 24 = t div 3600 mod 24"
    "t div 3600 sdiv 24 = t div 86400"
    "(t div 86400 + 4) smod 7 = (t div 86400 + 4) mod 7"
    "t div 86400 sdiv 1461 = t div 86400 div 1461"
    "t div 86400 smod 1461 = t div 86400 mod 1461"
    using assms by (simp_all add: sdiv_nonneg smod_nonneg)
  then show ?thesis
    using assms(2) by (simp add: time_to_gm_def Let_def)
qed

lemma seconds_split:
  "(t::int) div 86400 * 86400 + t div 3600 mod 24 * 3600 + t div 60 mod 60 * 60 + t mod 60 = t"
proof -
  have "t div 3600 = 24 * (t div 86400) + t div 3600 mod 24"
    using mult_div_mod_eq [of 24 "t div 3600"] by (simp add: zdiv_zmult2_eq [symmetric])
  moreover have "t div 60 = 60 * (t div 3600) + t div 60 mod 60"
    using mult_div_mod_eq [of 60 "t div 60"] by (simp add: zdiv_zmult2_eq [symmetric])
  moreover have "t = 60 * (t div 60) + t mod 60" by simp
  ultimately show ?thesis by linarith
qed

lemma time_to_gm_fields:
  assumes "0 \<le> t"
  obtains y leap yday where
    "0 \<le> y" "leap = leap_index y" "leap < 2" "0 \<le> yday" "yday \<le> 364 + int leap"
    "day_number y yday = t div 86400"
    "time_to_gm t = \<lparr>tm_sec = t mod 60, tm_min = t div 60 mod 60, tm_hour = t div 3600 mod 24,
      tm_mday = yday + 1 - DAYS ! leap ! month_of_yday (DAYS ! leap) (yday + 1),
      tm_mon = int (month_of_yday (DAYS ! leap) (yday + 1)), tm_year = y + 70,
      tm_wday = (t div 86400 + 4) mod 7, tm_yday = yday\<rparr>"
proof -
  obtain dy leap yday where y: "year_in_cycle (t div 86400 mod 1461) = (dy, leap, yday)"
    by (metis prod_cases3)
  define q where "q = t div 86400 div 1461"
  have "0 \<le> t div 86400 mod 1461" "t div 86400 mod 1461 < 1461" by simp_all
  note spec' = year_in_cycle_spec [OF this y]
  have spec: "0 \<le> dy" "dy \<le> 3" "leap = leap_index dy" "0 \<le> yday" "yday \<le> 364 + int leap"
    "t div 86400 mod 1461 = 365 * dy + (dy + 1) div 4 + yday"
    using spec' by blast+
  show thesis
  proof (rule that [of "4 * q + dy" leap yday])
    show "0 \<le> 4 * q + dy" "leap = leap_index (4 * q + dy)"
      using assms spec(1,3) by (auto simp: q_def pos_imp_zdiv_nonneg_iff mod_add_eq leap_index_def)
    show "leap < 2" using spec(3) by simp
    show "day_number (4 * q + dy) yday = t div 86400"
      using spec(6) mult_div_mod_eq [of 1461 "t div 86400"]
      by (simp add: day_number_cycle q_def)
  qed (use spec in \<open>simp_all add: time_to_gm_eq [OF assms y] q_def Let_def\<close>)
qed

lemma day_seconds_split:
  fixes n h mi sec :: int
  assumes "0 \<le> h" and "h < 24" and "0 \<le> mi" and "mi < 60" and "0 \<le> sec" and "sec < 60"
  defines "t \<equiv> n * 86400 + h * 3600 + mi * 60 + sec"
  shows "t div 86400 = n \<and> t div 3600 mod 24 = h \<and> t div 60 mod 60 = mi \<and> t mod 60 = sec"
proof -
  have "t div 86400 = n" "t div 3600 = 24 * n + h" "t div 60 = n * 1440 + h * 60 + mi"
    using assms(1-6) unfolding t_def by linarith+
  moreover have "n * 1440 + h * 60 + mi = 60 * (24 * n + h) + mi"
    "t = 60 * (n * 1440 + h * 60 + mi) + sec"
    by (simp_all add: t_def algebra_simps)
  moreover have "(24 * n + h) mod 24 = h" "(60 * (24 * n + h) + mi) mod 60 = mi"
    "(60 * (n * 1440 + h * 60 + mi) + sec) mod 60 = sec"
    using assms(1-6) by (intro mod_of_parts; simp)+
  ultimately show ?thesis by metis
qed

lemma time_to_gm_of_parts:
  assumes "0 \<le> q" and "0 \<le> dy" and "dy \<le> 3" and "0 \<le> yday"
    and "yday \<le> 364 + int (leap_index dy)"
    and "0 \<le> h" and "h < 24" and "0 \<le> mi" and "mi < 60" and "0 \<le> sec" and "sec < 60"
  defines "t \<equiv> day_number (4 * q + dy) yday * 86400 + h * 3600 + mi * 60 + sec"
  defines "m \<equiv> month_of_yday (DAYS ! leap_index dy) (yday + 1)"
  shows "time_to_gm t = \<lparr>tm_sec = sec, tm_min = mi, tm_hour = h,
    tm_mday = yday + 1 - DAYS ! leap_index dy ! m, tm_mon = int m, tm_year = 4 * q + dy + 70,
    tm_wday = (day_number (4 * q + dy) yday + 4) mod 7, tm_yday = yday\<rparr>"
proof -
  let ?n = "day_number (4 * q + dy) yday"
  let ?c = "365 * dy + (dy + 1) div 4 + yday"
  have n: "?n = 1461 * q + ?c" by (rule day_number_cycle)
  have c: "0 \<le> ?c" "?c < 1461" using assms(2-5) by (auto simp: leap_index_def split: if_splits)
  have nn: "?n div 1461 = q" "?n mod 1461 = ?c" using n c by simp_all
  have "0 \<le> ?n" using n c assms(1) by simp
  then have t0: "0 \<le> t" using assms(6,8,10) by (simp add: t_def)
  have td: "t div 86400 = ?n" "t div 3600 mod 24 = h" "t div 60 mod 60 = mi" "t mod 60 = sec"
    unfolding t_def using day_seconds_split [OF assms(6-11)] by blast+
  have y: "year_in_cycle (t div 86400 mod 1461) = (dy, leap_index dy, yday)"
    unfolding td(1) nn by (rule year_in_cycle_of_day [OF assms(2-5)])
  show ?thesis
    unfolding time_to_gm_eq [OF t0 y] Let_def td nn m_def by (simp add: mult.commute)
qed

text \<open>
  A date \<open>struct tm\<close> can hold: a month of the year, a day of that month in the code's own
  calendar, a time of the day.
\<close>

definition valid_date :: "tm \<Rightarrow> bool" where
  "valid_date d \<longleftrightarrow>
     70 \<le> tm_year d \<and> 0 \<le> tm_mon d \<and> tm_mon d < 12 \<and>
     1 \<le> tm_mday d \<and> tm_mday d \<le> days_in_month (leap_index (tm_year d - 70)) (nat (tm_mon d)) \<and>
     0 \<le> tm_hour d \<and> tm_hour d < 24 \<and> 0 \<le> tm_min d \<and> tm_min d < 60 \<and>
     0 \<le> tm_sec d \<and> tm_sec d < 60"

definition yday_of :: "tm \<Rightarrow> int" where
  "yday_of d = DAYS ! leap_index (tm_year d - 70) ! nat (tm_mon d) + tm_mday d - 1"

definition day_of :: "tm \<Rightarrow> int" where
  "day_of d = day_number (tm_year d - 70) (yday_of d)"

lemma gm_to_time_valid:
  assumes "valid_date d"
  shows "gm_to_time d = Inr (day_of d * 86400 + tm_hour d * 3600 + tm_min d * 60 + tm_sec d)"
  using assms
  by (simp add: valid_date_def gm_to_time_def days_before_month_def day_of_def day_number_def
    leap_index_def yday_of_def Let_def sdiv_nonneg algebra_simps)

lemma yday_of_bounds:
  assumes "leap < 2" and "m < 12" and "1 \<le> d" and "d \<le> days_in_month leap m"
  shows "0 \<le> DAYS ! leap ! m + d - 1" and "DAYS ! leap ! m + d - 1 \<le> 364 + int leap"
proof -
  have "leap = 0 \<or> leap = 1" using assms by linarith
  with month_cases [OF assms(2)] assms(3,4)
  show "0 \<le> DAYS ! leap ! m + d - 1" and "DAYS ! leap ! m + d - 1 \<le> 364 + int leap"
    by (elim disjE; simp add: DAYS_def days_in_month_def)+
qed

lemma time_to_gm_valid:
  assumes "valid_date d"
  shows "time_to_gm (day_of d * 86400 + tm_hour d * 3600 + tm_min d * 60 + tm_sec d) =
    \<lparr>tm_sec = tm_sec d, tm_min = tm_min d, tm_hour = tm_hour d, tm_mday = tm_mday d,
      tm_mon = tm_mon d, tm_year = tm_year d, tm_wday = (day_of d + 4) mod 7,
      tm_yday = yday_of d\<rparr>"
proof -
  define y where "y = tm_year d - 70"
  define q dy where "q = y div 4" and "dy = y mod 4"
  have y: "4 * q + dy = y" "leap_index y = leap_index dy" "0 \<le> q" "0 \<le> dy" "dy \<le> 3"
    using assms pos_mod_bound [of 4 y]
    by (simp_all add: q_def dy_def valid_date_def y_def pos_imp_zdiv_nonneg_iff leap_index_def)
  have v: "0 \<le> tm_mon d" "tm_mon d < 12" "1 \<le> tm_mday d"
    "tm_mday d \<le> days_in_month (leap_index dy) (nat (tm_mon d))"
    using assms by (simp_all add: valid_date_def y_def [symmetric] y(2) [symmetric])
  have lt: "leap_index dy < 2" "nat (tm_mon d) < 12" using v by auto
  have yday: "yday_of d = DAYS ! leap_index dy ! nat (tm_mon d) + tm_mday d - 1"
    by (simp add: yday_of_def y_def [symmetric] y(2))
  note b = yday_of_bounds [OF lt v(3,4), folded yday]
  have m: "month_of_yday (DAYS ! leap_index dy) (yday_of d + 1) = nat (tm_mon d)"
    unfolding yday by (rule month_of_yday_of_date [OF lt v(3,4)])
  have tod: "0 \<le> tm_hour d" "tm_hour d < 24" "0 \<le> tm_min d" "tm_min d < 60"
    "0 \<le> tm_sec d" "tm_sec d < 60"
    using assms by (simp_all add: valid_date_def)
  have "day_of d = day_number (4 * q + dy) (yday_of d)"
    by (simp add: day_of_def y_def [symmetric] y(1))
  with time_to_gm_of_parts [OF y(3-5) b tod] show ?thesis
    unfolding m y(1) using v(1) by (simp add: yday y_def)
qed

lemma time_to_gm_is_valid:
  assumes "0 \<le> t"
  shows "valid_date (time_to_gm t)"
    and "yday_of (time_to_gm t) = tm_yday (time_to_gm t)"
    and "day_of (time_to_gm t) = t div 86400"
    and "tm_wday (time_to_gm t) = (t div 86400 + 4) mod 7"
proof -
  obtain y leap yday where f: "0 \<le> y" "leap = leap_index y" "leap < 2" "0 \<le> yday"
    "yday \<le> 364 + int leap" "day_number y yday = t div 86400"
    "time_to_gm t = \<lparr>tm_sec = t mod 60, tm_min = t div 60 mod 60, tm_hour = t div 3600 mod 24,
      tm_mday = yday + 1 - DAYS ! leap ! month_of_yday (DAYS ! leap) (yday + 1),
      tm_mon = int (month_of_yday (DAYS ! leap) (yday + 1)), tm_year = y + 70,
      tm_wday = (t div 86400 + 4) mod 7, tm_yday = yday\<rparr>"
    by (rule time_to_gm_fields [OF assms])
  have "yday \<le> 365" using f(3,5) by simp
  note b = month_of_yday_bounds [OF f(3,4) this] month_of_yday_upper [OF f(3-5)]
  have leap: "leap_index y = leap" by (rule f(2) [symmetric])
  show "valid_date (time_to_gm t)"
    unfolding f(7) valid_date_def using b f(1) leap by simp
  show yd: "yday_of (time_to_gm t) = tm_yday (time_to_gm t)"
    unfolding f(7) yday_of_def using leap by simp
  show "day_of (time_to_gm t) = t div 86400"
    unfolding day_of_def yd using f(6) by (simp add: f(7))
  show "tm_wday (time_to_gm t) = (t div 86400 + 4) mod 7"
    by (simp add: f(7))
qed

lemma gm_to_time_to_gm:
  assumes "0 \<le> t"
  shows "gm_to_time (time_to_gm t) = Inr t"
proof -
  obtain y leap yday where
    "time_to_gm t = \<lparr>tm_sec = t mod 60, tm_min = t div 60 mod 60, tm_hour = t div 3600 mod 24,
      tm_mday = yday + 1 - DAYS ! leap ! month_of_yday (DAYS ! leap) (yday + 1),
      tm_mon = int (month_of_yday (DAYS ! leap) (yday + 1)), tm_year = y + 70,
      tm_wday = (t div 86400 + 4) mod 7, tm_yday = yday\<rparr>"
    by (rule time_to_gm_fields [OF assms])
  then have "tm_hour (time_to_gm t) = t div 3600 mod 24"
    "tm_min (time_to_gm t) = t div 60 mod 60" "tm_sec (time_to_gm t) = t mod 60"
    by simp_all
  note f = this
  show ?thesis
    unfolding gm_to_time_valid [OF time_to_gm_is_valid(1) [OF assms]]
      time_to_gm_is_valid(3) [OF assms] f seconds_split ..
qed

lemma tm_with_days:
  "\<lparr>tm_sec = tm_sec d, tm_min = tm_min d, tm_hour = tm_hour d, tm_mday = tm_mday d,
    tm_mon = tm_mon d, tm_year = tm_year d, tm_wday = w, tm_yday = y\<rparr> =
    (d::tm)\<lparr>tm_wday := w, tm_yday := y\<rparr>"
  by (cases d) simp

lemma gm_to_time_ignores [simp]:
  "gm_to_time (d\<lparr>tm_wday := w, tm_yday := y\<rparr>) = gm_to_time d"
  by (simp add: gm_to_time_def)

subsection \<open>The order of dates\<close>

definition seconds_of :: "tm \<Rightarrow> int" where
  "seconds_of d = day_of d * 86400 + tm_hour d * 3600 + tm_min d * 60 + tm_sec d"

lemma days_table_mono:
  "\<forall>leap < 2. \<forall>m2 < 12. \<forall>m1 < m2.
    DAYS ! leap ! m1 + days_in_month leap m1 \<le> DAYS ! leap ! m2"
  by code_simp

lemma day_number_next_year:
  assumes "y1 < y2" and "a \<le> 364 + int (leap_index y1)" and "0 \<le> b"
  shows "day_number y1 a < day_number y2 b"
proof -
  have "(y1 + 1) div 4 + int (leap_index y1) = (y1 + 2) div 4"
    unfolding leap_index_def by presburger
  moreover have "(y1 + 2) div 4 \<le> (y2 + 1) div 4"
    using assms(1) by (intro zdiv_mono1) simp_all
  ultimately show ?thesis
    using assms unfolding day_number_def by linarith
qed

lemma yday_of_valid:
  assumes "valid_date d"
  shows "0 \<le> yday_of d" and "yday_of d \<le> 364 + int (leap_index (tm_year d - 70))"
proof -
  have v: "nat (tm_mon d) < 12" "1 \<le> tm_mday d"
    "tm_mday d \<le> days_in_month (leap_index (tm_year d - 70)) (nat (tm_mon d))"
    using assms by (auto simp: valid_date_def)
  show "0 \<le> yday_of d" and "yday_of d \<le> 364 + int (leap_index (tm_year d - 70))"
    using yday_of_bounds [OF leap_index_lt v] by (simp_all add: yday_of_def)
qed

lemma later_day_later:
  assumes "valid_date d1" and "valid_date d2" and "day_of d1 < day_of d2"
  shows "seconds_of d1 < seconds_of d2"
proof -
  have "0 \<le> tm_hour d2 * 3600 + tm_min d2 * 60 + tm_sec d2"
    using assms(2) by (simp add: valid_date_def)
  moreover have "tm_hour d1 * 3600 + tm_min d1 * 60 + tm_sec d1 < 86400"
  proof -
    have "tm_hour d1 \<le> 23" "tm_min d1 \<le> 59" "tm_sec d1 \<le> 59"
      using assms(1) by (simp_all add: valid_date_def)
    then show ?thesis by linarith
  qed
  ultimately show ?thesis using assms(3) unfolding seconds_of_def by linarith
qed

lemma tm_compare_less:
  assumes v: "valid_date d1" "valid_date d2" and "tm_compare d1 d2 < 0"
  shows "seconds_of d1 < seconds_of d2"
proof -
  note y = yday_of_valid [OF v(1)] yday_of_valid [OF v(2)]
  consider "tm_year d1 < tm_year d2"
    | "tm_year d1 = tm_year d2" "tm_mon d1 < tm_mon d2"
    | "tm_year d1 = tm_year d2" "tm_mon d1 = tm_mon d2" "tm_mday d1 < tm_mday d2"
    | "tm_year d1 = tm_year d2" "tm_mon d1 = tm_mon d2" "tm_mday d1 = tm_mday d2"
      "tm_hour d1 * 3600 + tm_min d1 * 60 + tm_sec d1 <
        tm_hour d2 * 3600 + tm_min d2 * 60 + tm_sec d2"
    using assms by (auto simp: tm_compare_def Let_def valid_date_def split: if_splits)
  then show ?thesis
  proof cases
    case 1
    then have "day_of d1 < day_of d2"
      using y day_number_next_year unfolding day_of_def by simp
    then show ?thesis by (rule later_day_later [OF v])
  next
    case 2
    let ?leap = "leap_index (tm_year d2 - 70)"
    have "DAYS ! ?leap ! nat (tm_mon d1) + days_in_month ?leap (nat (tm_mon d1)) \<le>
        DAYS ! ?leap ! nat (tm_mon d2)"
    proof -
      have "nat (tm_mon d2) < 12" "nat (tm_mon d1) < nat (tm_mon d2)"
        using v 2 by (auto simp: valid_date_def)
      then show ?thesis using days_table_mono leap_index_lt by blast
    qed
    moreover have "tm_mday d1 \<le> days_in_month ?leap (nat (tm_mon d1))" "1 \<le> tm_mday d2"
      using v 2 by (auto simp: valid_date_def)
    ultimately have "day_of d1 < day_of d2"
      using 2 by (simp add: day_of_def day_number_def yday_of_def)
    then show ?thesis by (rule later_day_later [OF v])
  next
    case 3
    then have "day_of d1 < day_of d2"
      by (simp add: day_of_def day_number_def yday_of_def)
    then show ?thesis by (rule later_day_later [OF v])
  next
    case 4
    then have "day_of d1 = day_of d2"
      by (simp add: day_of_def yday_of_def)
    with 4 show ?thesis by (simp add: seconds_of_def)
  qed
qed

lemma tm_compare_swap: "tm_compare d2 d1 = - tm_compare d1 d2"
  by (simp add: tm_compare_def Let_def)

lemma tm_compare_zero:
  assumes "tm_compare d1 d2 = 0"
  shows "seconds_of d1 = seconds_of d2"
  using assms
  by (auto simp: tm_compare_def Let_def seconds_of_def day_of_def yday_of_def split: if_splits)

lemma tm_compare_sign:
  assumes "valid_date d1" and "valid_date d2"
  shows "sgn (tm_compare d1 d2) = sgn (seconds_of d1 - seconds_of d2)"
  using tm_compare_less [OF assms] tm_compare_less [OF assms(2,1)]
    tm_compare_zero [of d1 d2] tm_compare_swap [of d1 d2]
  by (cases "tm_compare d1 d2" "0::int" rule: linorder_cases) (simp_all add: sgn_if)

subsection \<open>Properties\<close>



text \<open>Every valid date goes to its second and back, with the day of the week and of the
  year filled in: \<open>ExtendedTime(year, ..., usec)\<close> keeps the date it is given.\<close>

theorem valid_date_round_trip:
  assumes "valid_date d"
  shows "bind_sum (gm_to_time d) (\<lambda>t. Inr (time_to_gm t)) =
      Inr (d\<lparr>tm_wday := (day_of d + 4) mod 7, tm_yday := yday_of d\<rparr>) \<and>
    extended_of_date (tm_year d + 1900) (tm_mon d + 1) (tm_mday d) (tm_hour d) (tm_min d)
      (tm_sec d) usec =
      Inr (extended_of_tm (d\<lparr>tm_wday := (day_of d + 4) mod 7, tm_yday := yday_of d\<rparr>) usec TZ_GMT)"
  using gm_to_time_valid [OF assms] time_to_gm_valid [OF assms]
  by (simp add: extended_of_date_def tm_with_days)

theorem valid_date_round_trip_witness:
  "bind_sum (gm_to_time \<lparr>tm_sec = 0, tm_min = 0, tm_hour = 0, tm_mday = 29, tm_mon = 1,
      tm_year = 100, tm_wday = 0, tm_yday = 0\<rparr>) (\<lambda>t. Inr (time_to_gm t)) =
    Inr \<lparr>tm_sec = 0, tm_min = 0, tm_hour = 0, tm_mday = 29, tm_mon = 1,
      tm_year = 100, tm_wday = 2, tm_yday = 59\<rparr>"
  using valid_date_round_trip [of "\<lparr>tm_sec = 0, tm_min = 0, tm_hour = 0, tm_mday = 29,
      tm_mon = 1, tm_year = 100, tm_wday = 0, tm_yday = 0\<rparr>" 0]
  by (simp add: valid_date_def days_in_month_def DAYS_def day_of_def yday_of_def
    day_number_def leap_index_def)

subsection \<open>The Gregorian calendar\<close>

text \<open>
  The reference: the days from 1970-01-01 to the first day of a Gregorian year, counting the
  leap days of the years passed (divisible by 4, not by 100 unless by 400), and the leap rule.
\<close>

definition leap_days_until :: "int \<Rightarrow> int" where
  "leap_days_until y = y div 4 - y div 100 + y div 400"

definition gregorian_leap :: "int \<Rightarrow> bool" where
  "gregorian_leap y \<longleftrightarrow> y mod 4 = 0 \<and> (y mod 100 \<noteq> 0 \<or> y mod 400 = 0)"

definition gregorian_day :: "int \<Rightarrow> int \<Rightarrow> int \<Rightarrow> int" where
  "gregorian_day y m d =
     365 * (y - 1970) + leap_days_until (y - 1) - leap_days_until 1969 +
     DAYS ! (if gregorian_leap y then 1 else 0) ! nat m + d - 1"

lemma leap_days_window:
  assumes "1970 \<le> y" and "y \<le> 2100"
  shows "leap_days_until (y - 1) - leap_days_until 1969 = (y - 1970 + 1) div 4"
proof -
  have "(y - 1) div 100 - (y - 1) div 400 = 15"
  proof (cases "y \<le> 2000")
    case True
    then have "(y - 1) div 100 = 19" "(y - 1) div 400 = 4" using assms by linarith+
    then show ?thesis by simp
  next
    case False
    then have "(y - 1) div 100 = 20" "(y - 1) div 400 = 5" using assms by linarith+
    then show ?thesis by simp
  qed
  moreover have "(y - 1970 + 1) div 4 = (y - 1) div 4 - 492" by linarith
  ultimately show ?thesis by (simp add: leap_days_until_def)
qed

lemma leap_rule_window:
  assumes "1970 \<le> y" and "y < 2100"
  shows "gregorian_leap y \<longleftrightarrow> (y - 1970) mod 4 = 2"
proof -
  have "y mod 100 = 0 \<Longrightarrow> y = 2000" using assms by presburger
  moreover have "(y - 1970) mod 4 = 2 \<longleftrightarrow> y mod 4 = 0" by presburger
  ultimately show ?thesis by (auto simp: gregorian_leap_def)
qed



text \<open>From the first of March 2100 on \<open>gm_to_time\<close> is one day late: the code counts the
  29th of February 2100, which the Gregorian calendar does not have.\<close>

theorem gm_to_time_late_after_2100:
  "gm_to_time \<lparr>tm_sec = 0, tm_min = 0, tm_hour = 0, tm_mday = 1, tm_mon = 2, tm_year = 200,
      tm_wday = 0, tm_yday = 0\<rparr> = Inr ((gregorian_day 2100 2 1 + 1) * 86400) \<and>
   valid_date \<lparr>tm_sec = 0, tm_min = 0, tm_hour = 0, tm_mday = 29, tm_mon = 1, tm_year = 200,
      tm_wday = 0, tm_yday = 0\<rparr> \<and> \<not> gregorian_leap 2100"
  by (simp, code_simp)

text \<open>\<open>Time::compare\<close> on two valid dates has the sign of the difference of the seconds that
  \<open>gm_to_time\<close> gives them: it orders dates as instants.\<close>

theorem tm_compare_orders_instants:
  assumes "valid_date d1" and "valid_date d2"
  shows "\<exists>t1 t2. gm_to_time d1 = Inr t1 \<and> gm_to_time d2 = Inr t2 \<and>
    sgn (tm_compare d1 d2) = sgn (t1 - t2)"
  using gm_to_time_valid [OF assms(1)] gm_to_time_valid [OF assms(2)] tm_compare_sign [OF assms]
  by (simp add: seconds_of_def)

theorem tm_compare_orders_instants_witness:
  "\<exists>t1 t2. gm_to_time (time_to_gm 100000) = Inr t1 \<and> gm_to_time (time_to_gm 200000) = Inr t2 \<and>
    sgn (tm_compare (time_to_gm 100000) (time_to_gm 200000)) = sgn (t1 - t2)"
  by (rule tm_compare_orders_instants [OF time_to_gm_is_valid(1) time_to_gm_is_valid(1)]) simp_all

end
