(* ===== verification/GearsAscii.thy ===== *)
theory GearsAscii
  imports Prelude "HOL-Library.List_Lexorder"
begin

section \<open>Characters and their categories (gears/AsciiStringManip.hpp, .cpp)\<close>

text \<open>
  The conversion tables, the character sets written as \<open>"A-Za-z"\<close>, the searches of a category, the
  comparisons without case, \<open>flatten\<close> and \<open>trim\<close>. A text is the list of its bytes, a set is its table of
  256 booleans, a category is the predicate it applies, and a pointer into a text is an index. The
  theorems: the tables change exactly the letters; a range of a set is read modulo 256; the named
  categories hold what their names say; the searches find the first (last) match; the comparisons are
  those of the lowered texts; \<open>flatten\<close> replaces every maximal run and stays in the memory it reserved;
  \<open>trim\<close> cuts exactly the surrounding characters.
\<close>

subsection \<open>Upper and lower case\<close>

definition ASCII_TOLOWER_TABLE :: "byte list" where
  "ASCII_TOLOWER_TABLE =
     [0x00, 0x01, 0x02, 0x03, 0x04, 0x05, 0x06, 0x07, 0x08, 0x09, 0x0A, 0x0B,
      0x0C, 0x0D, 0x0E, 0x0F, 0x10, 0x11, 0x12, 0x13, 0x14, 0x15, 0x16, 0x17,
      0x18, 0x19, 0x1A, 0x1B, 0x1C, 0x1D, 0x1E, 0x1F, 0x20, 0x21, 0x22, 0x23,
      0x24, 0x25, 0x26, 0x27, 0x28, 0x29, 0x2A, 0x2B, 0x2C, 0x2D, 0x2E, 0x2F,
      0x30, 0x31, 0x32, 0x33, 0x34, 0x35, 0x36, 0x37, 0x38, 0x39, 0x3A, 0x3B,
      0x3C, 0x3D, 0x3E, 0x3F, 0x40, 0x61, 0x62, 0x63, 0x64, 0x65, 0x66, 0x67,
      0x68, 0x69, 0x6A, 0x6B, 0x6C, 0x6D, 0x6E, 0x6F, 0x70, 0x71, 0x72, 0x73,
      0x74, 0x75, 0x76, 0x77, 0x78, 0x79, 0x7A, 0x5B, 0x5C, 0x5D, 0x5E, 0x5F,
      0x60, 0x61, 0x62, 0x63, 0x64, 0x65, 0x66, 0x67, 0x68, 0x69, 0x6A, 0x6B,
      0x6C, 0x6D, 0x6E, 0x6F, 0x70, 0x71, 0x72, 0x73, 0x74, 0x75, 0x76, 0x77,
      0x78, 0x79, 0x7A, 0x7B, 0x7C, 0x7D, 0x7E, 0x7F, 0x80, 0x81, 0x82, 0x83,
      0x84, 0x85, 0x86, 0x87, 0x88, 0x89, 0x8A, 0x8B, 0x8C, 0x8D, 0x8E, 0x8F,
      0x90, 0x91, 0x92, 0x93, 0x94, 0x95, 0x96, 0x97, 0x98, 0x99, 0x9A, 0x9B,
      0x9C, 0x9D, 0x9E, 0x9F, 0xA0, 0xA1, 0xA2, 0xA3, 0xA4, 0xA5, 0xA6, 0xA7,
      0xA8, 0xA9, 0xAA, 0xAB, 0xAC, 0xAD, 0xAE, 0xAF, 0xB0, 0xB1, 0xB2, 0xB3,
      0xB4, 0xB5, 0xB6, 0xB7, 0xB8, 0xB9, 0xBA, 0xBB, 0xBC, 0xBD, 0xBE, 0xBF,
      0xC0, 0xC1, 0xC2, 0xC3, 0xC4, 0xC5, 0xC6, 0xC7, 0xC8, 0xC9, 0xCA, 0xCB,
      0xCC, 0xCD, 0xCE, 0xCF, 0xD0, 0xD1, 0xD2, 0xD3, 0xD4, 0xD5, 0xD6, 0xD7,
      0xD8, 0xD9, 0xDA, 0xDB, 0xDC, 0xDD, 0xDE, 0xDF, 0xE0, 0xE1, 0xE2, 0xE3,
      0xE4, 0xE5, 0xE6, 0xE7, 0xE8, 0xE9, 0xEA, 0xEB, 0xEC, 0xED, 0xEE, 0xEF,
      0xF0, 0xF1, 0xF2, 0xF3, 0xF4, 0xF5, 0xF6, 0xF7, 0xF8, 0xF9, 0xFA, 0xFB,
      0xFC, 0xFD, 0xFE, 0xFF]"

definition ASCII_TOUPPER_TABLE :: "byte list" where
  "ASCII_TOUPPER_TABLE =
     [0x00, 0x01, 0x02, 0x03, 0x04, 0x05, 0x06, 0x07, 0x08, 0x09, 0x0A, 0x0B,
      0x0C, 0x0D, 0x0E, 0x0F, 0x10, 0x11, 0x12, 0x13, 0x14, 0x15, 0x16, 0x17,
      0x18, 0x19, 0x1A, 0x1B, 0x1C, 0x1D, 0x1E, 0x1F, 0x20, 0x21, 0x22, 0x23,
      0x24, 0x25, 0x26, 0x27, 0x28, 0x29, 0x2A, 0x2B, 0x2C, 0x2D, 0x2E, 0x2F,
      0x30, 0x31, 0x32, 0x33, 0x34, 0x35, 0x36, 0x37, 0x38, 0x39, 0x3A, 0x3B,
      0x3C, 0x3D, 0x3E, 0x3F, 0x40, 0x41, 0x42, 0x43, 0x44, 0x45, 0x46, 0x47,
      0x48, 0x49, 0x4A, 0x4B, 0x4C, 0x4D, 0x4E, 0x4F, 0x50, 0x51, 0x52, 0x53,
      0x54, 0x55, 0x56, 0x57, 0x58, 0x59, 0x5A, 0x5B, 0x5C, 0x5D, 0x5E, 0x5F,
      0x60, 0x41, 0x42, 0x43, 0x44, 0x45, 0x46, 0x47, 0x48, 0x49, 0x4A, 0x4B,
      0x4C, 0x4D, 0x4E, 0x4F, 0x50, 0x51, 0x52, 0x53, 0x54, 0x55, 0x56, 0x57,
      0x58, 0x59, 0x5A, 0x7B, 0x7C, 0x7D, 0x7E, 0x7F, 0x80, 0x81, 0x82, 0x83,
      0x84, 0x85, 0x86, 0x87, 0x88, 0x89, 0x8A, 0x8B, 0x8C, 0x8D, 0x8E, 0x8F,
      0x90, 0x91, 0x92, 0x93, 0x94, 0x95, 0x96, 0x97, 0x98, 0x99, 0x9A, 0x9B,
      0x9C, 0x9D, 0x9E, 0x9F, 0xA0, 0xA1, 0xA2, 0xA3, 0xA4, 0xA5, 0xA6, 0xA7,
      0xA8, 0xA9, 0xAA, 0xAB, 0xAC, 0xAD, 0xAE, 0xAF, 0xB0, 0xB1, 0xB2, 0xB3,
      0xB4, 0xB5, 0xB6, 0xB7, 0xB8, 0xB9, 0xBA, 0xBB, 0xBC, 0xBD, 0xBE, 0xBF,
      0xC0, 0xC1, 0xC2, 0xC3, 0xC4, 0xC5, 0xC6, 0xC7, 0xC8, 0xC9, 0xCA, 0xCB,
      0xCC, 0xCD, 0xCE, 0xCF, 0xD0, 0xD1, 0xD2, 0xD3, 0xD4, 0xD5, 0xD6, 0xD7,
      0xD8, 0xD9, 0xDA, 0xDB, 0xDC, 0xDD, 0xDE, 0xDF, 0xE0, 0xE1, 0xE2, 0xE3,
      0xE4, 0xE5, 0xE6, 0xE7, 0xE8, 0xE9, 0xEA, 0xEB, 0xEC, 0xED, 0xEE, 0xEF,
      0xF0, 0xF1, 0xF2, 0xF3, 0xF4, 0xF5, 0xF6, 0xF7, 0xF8, 0xF9, 0xFA, 0xFB,
      0xFC, 0xFD, 0xFE, 0xFF]"

definition to_lower :: "byte \<Rightarrow> byte" where
  "to_lower ch = ASCII_TOLOWER_TABLE ! unat ch"

definition to_upper :: "byte \<Rightarrow> byte" where
  "to_upper ch = ASCII_TOUPPER_TABLE ! unat ch"

text \<open>The loops over a range of iterators.\<close>

fun to_lower_text :: "byte list \<Rightarrow> byte list" where
  "to_lower_text [] = []"
| "to_lower_text (ch # rest) = ASCII_TOLOWER_TABLE ! unat ch # to_lower_text rest"

fun to_upper_text :: "byte list \<Rightarrow> byte list" where
  "to_upper_text [] = []"
| "to_upper_text (ch # rest) = ASCII_TOUPPER_TABLE ! unat ch # to_upper_text rest"

text \<open>A fact about every byte is checked byte by byte.\<close>

lemma all_bytes: "(\<forall>b :: byte. P b) \<longleftrightarrow> list_all (\<lambda>n. P (word_of_nat n)) [0..<256]"
proof
  assume check: "list_all (\<lambda>n. P (word_of_nat n)) [0..<256]"
  show "\<forall>b :: byte. P b"
  proof
    fix b :: byte
    have "unat b < 2 ^ LENGTH(8)" by (rule unsigned_less)
    then have "unat b \<in> set [0..<256]" by simp
    with check have "P (word_of_nat (unat b))" unfolding list_all_iff by (rule bspec)
    then show "P b" by simp
  qed
qed (simp add: list_all_iff)

lemma to_lower_value: "to_lower b = (if 65 \<le> unat b \<and> unat b \<le> 90 then b + 32 else b)"
proof -
  have "\<forall>b. to_lower b = (if 65 \<le> unat b \<and> unat b \<le> 90 then b + 32 else b)"
    unfolding all_bytes by code_simp
  then show ?thesis ..
qed

lemma to_upper_value: "to_upper b = (if 97 \<le> unat b \<and> unat b \<le> 122 then b - 32 else b)"
proof -
  have "\<forall>b. to_upper b = (if 97 \<le> unat b \<and> unat b \<le> 122 then b - 32 else b)"
    unfolding all_bytes by code_simp
  then show ?thesis ..
qed

lemma to_lower_text_map: "to_lower_text s = map to_lower s"
  by (induction s) (simp_all add: to_lower_def)

lemma to_upper_text_map: "to_upper_text s = map to_upper s"
  by (induction s) (simp_all add: to_upper_def)

lemma case_shift:
  "unat (b :: byte) \<le> 90 \<Longrightarrow> unat (b + 32) = unat b + 32" "97 \<le> unat (b :: byte) \<Longrightarrow> unat (b - 32) = unat b - 32"
  by (simp_all add: unat_word_ariths unat_sub_if_size word_size)

lemma case_round_trips:
  "to_lower (to_upper b) = to_lower b" "to_upper (to_lower b) = to_upper b"
  "to_lower (to_lower b) = to_lower b" "to_upper (to_upper b) = to_upper b"
  "to_lower b = 0 \<longleftrightarrow> b = 0"
proof -
  have "unat (to_lower b) \<noteq> 0" if "65 \<le> unat b" "unat b \<le> 90"
    using that by (simp add: to_lower_value case_shift)
  then show "to_lower b = 0 \<longleftrightarrow> b = 0" by (auto simp: to_lower_value)
qed (auto simp: to_lower_value to_upper_value case_shift)

text \<open>The tables move exactly the letters of the other case, whatever the locale, keep every other byte
  (those over 127 too), and are consistent: lowering after raising is lowering, and the other way round.\<close>

theorem case_tables_correct:
  "to_lower_text s = map (\<lambda>b. if 65 \<le> unat b \<and> unat b \<le> 90 then b + 32 else b) s \<and>
   to_upper_text s = map (\<lambda>b. if 97 \<le> unat b \<and> unat b \<le> 122 then b - 32 else b) s \<and>
   to_lower_text (to_upper_text s) = to_lower_text s \<and> to_upper_text (to_lower_text s) = to_upper_text s"
  by (simp add: to_lower_text_map to_upper_text_map case_round_trips comp_def)
    (simp add: to_lower_value to_upper_value)

subsection \<open>Character sets\<close>

text \<open>
  The constructor from a C string: the loop over the string (its bytes before the zero) with the last
  character it took, and the loop over a range, whose character is a \<open>char\<close> and so wraps around. A null
  pointer is \<open>None\<close>.
\<close>

lemma step_towards:
  assumes "ch \<noteq> (till :: byte)"
  shows "unat (till - (ch + 1)) + 1 = unat (till - ch)"
proof -
  have "till - ch \<noteq> 0" using assms by simp
  then have "unat (till - ch) \<noteq> 0" by (simp only: unsigned_eq_0_iff not_False_eq_True)
  moreover have "unat (till - ch - 1) = unat (till - ch) - 1"
    using \<open>till - ch \<noteq> 0\<close> by (rule unat_minus_one)
  ultimately show ?thesis by (simp add: diff_diff_eq)
qed

function fill_range :: "bool list \<Rightarrow> byte \<Rightarrow> byte \<Rightarrow> bool list" where
  "fill_range table ch till =
     (let table' = table[unat ch := True] in
      if ch = till then table' else fill_range table' (ch + 1) till)"
  by auto

termination
proof (relation "measure (\<lambda>(table, ch, till). unat (till - ch))")
  fix table :: "bool list" and ch till :: byte and table'
  assume "ch \<noteq> till"
  then show "((table', ch + 1, till), table, ch, till) \<in> measure (\<lambda>(table, ch, till). unat (till - ch))"
    using step_towards [of ch till] by simp
qed simp

declare fill_range.simps [simp del]

fun scan_set :: "bool list \<Rightarrow> byte \<Rightarrow> byte list \<Rightarrow> bool list" where
  "scan_set table last_ch [] = table"
| "scan_set table last_ch [c] = table[unat c := True]"
| "scan_set table last_ch (c # till # rest) =
     (if c = 45 \<and> last_ch \<noteq> 0 then scan_set (fill_range table last_ch till) till rest
      else scan_set (table[unat c := True]) c (till # rest))"

definition char_table_of_string :: "byte list option \<Rightarrow> bool \<Rightarrow> bool list" where
  "char_table_of_string str check_zero =
     (let table = (replicate 256 False) [0 := check_zero] in
      case str of None \<Rightarrow> table | Some s \<Rightarrow> scan_set table 0 s)"

definition char_table_union :: "bool list \<Rightarrow> bool list \<Rightarrow> bool list" where
  "char_table_union a b = map (\<lambda>i. a ! i \<or> b ! i) [0..<256]"

definition char_table_union3 :: "bool list \<Rightarrow> bool list \<Rightarrow> bool list \<Rightarrow> bool list" where
  "char_table_union3 a b c = map (\<lambda>i. a ! i \<or> b ! i \<or> c ! i) [0..<256]"

definition char_table_of_predicate :: "(nat \<Rightarrow> bool) \<Rightarrow> bool list" where
  "char_table_of_predicate p = map p [0..<256]"

definition in_table :: "bool list \<Rightarrow> byte \<Rightarrow> bool" where
  "in_table table ch = table ! unat ch"

definition char1 :: "byte \<Rightarrow> byte \<Rightarrow> bool" where
  "char1 a ch = (ch = a)"

definition char2 :: "byte \<Rightarrow> byte \<Rightarrow> byte \<Rightarrow> bool" where
  "char2 a b ch = (ch = a \<or> ch = b)"

definition char3 :: "byte \<Rightarrow> byte \<Rightarrow> byte \<Rightarrow> byte \<Rightarrow> bool" where
  "char3 a b c ch = (ch = a \<or> ch = b \<or> ch = c)"

text \<open>\<open>isspace\<close> of the C locale.\<close>

definition isspace :: "nat \<Rightarrow> bool" where
  "isspace c = (c = 32 \<or> 9 \<le> c \<and> c \<le> 13)"

text \<open>The named sets: the strings are \<open>A-Za-z\<close>, \<open>0-9\<close>, \<open>0-7\<close>, \<open>0-9A-Fa-f\<close> and \<open>^.$\|()[]*+?{}\<close>.\<close>

definition ALPHA :: "bool list" where
  "ALPHA = char_table_of_string (Some [65, 45, 90, 97, 45, 122]) False"

definition NUMBER :: "bool list" where
  "NUMBER = char_table_of_string (Some [48, 45, 57]) False"

definition ALPHA_NUM :: "bool list" where
  "ALPHA_NUM = char_table_union ALPHA NUMBER"

definition OCTAL_NUMBER :: "bool list" where
  "OCTAL_NUMBER = char_table_of_string (Some [48, 45, 55]) False"

definition HEX_NUMBER :: "bool list" where
  "HEX_NUMBER = char_table_of_string (Some [48, 45, 57, 65, 45, 70, 97, 45, 102]) False"

definition SPACE :: "bool list" where
  "SPACE = char_table_of_predicate isspace"

definition REGEX_META :: "bool list" where
  "REGEX_META = char_table_of_string
     (Some [94, 46, 36, 92, 124, 40, 41, 91, 93, 42, 43, 63, 123, 125]) False"

lemma fill_range_length [simp]: "length (fill_range table ch till) = length table"
  by (induction table ch till rule: fill_range.induct)
    (subst fill_range.simps, simp add: Let_def)

text \<open>A range sets the bytes from its first to its last going up modulo 256.\<close>

lemma fill_range_member:
  assumes "length table = 256"
  shows "in_table (fill_range table ch till) b \<longleftrightarrow> in_table table b \<or> unat (b - ch) \<le> unat (till - ch)"
  using assms
proof (induction table ch till rule: fill_range.induct)
  case (1 table ch till)
  have set: "in_table (table[unat ch := True]) b \<longleftrightarrow> in_table table b \<or> b = ch"
    using 1(2) unsigned_less [of b, where ?'a = nat]
    by (cases "b = ch") (auto simp: in_table_def nth_list_update word_unat_eq_iff)
  show ?case
  proof (cases "ch = till")
    case True
    then show ?thesis using set by (subst fill_range.simps) (auto simp: Let_def unsigned_eq_0_iff)
  next
    case False
    have "unat (b - (ch + 1)) \<le> unat (till - (ch + 1)) \<or> b = ch \<longleftrightarrow> unat (b - ch) \<le> unat (till - ch)"
      using step_towards [OF False] step_towards [of ch b] by (cases "b = ch") auto
    then show ?thesis
      using False 1 by (subst fill_range.simps) (auto simp: set Let_def)
  qed
qed

text \<open>The constructor of a character set reads \<open>a-z\<close> as the bytes from \<open>a\<close> up to \<open>z\<close> modulo 256, so
  that a range whose end is less than its start wraps around through 255 and 0.\<close>

theorem range_set_member:
  assumes "a \<noteq> 0" and "z \<noteq> 0"
  shows "in_table (char_table_of_string (Some [a, 45, z]) False) b \<longleftrightarrow> unat (b - a) \<le> unat (z - a)"
proof -
  have len: "length ((replicate 256 False) [0 := False, unat a := True]) = 256" by simp
  have "in_table ((replicate 256 False) [0 := False]) c = False" for c
    using unsigned_less [of c, where ?'a = nat] by (simp add: in_table_def list_update_same_conv [THEN iffD2])
  then have "in_table ((replicate 256 False) [0 := False, unat a := True]) b \<longleftrightarrow> b = a"
    using unsigned_less [of b, where ?'a = nat]
    by (cases "b = a") (auto simp: in_table_def nth_list_update word_unat_eq_iff)
  moreover have "scan_set ((replicate 256 False) [0 := False]) 0 [a, 45, z] =
      fill_range ((replicate 256 False) [0 := False, unat a := True]) a z"
    using assms by simp
  ultimately show ?thesis
    using fill_range_member [OF len, of a z b] by (auto simp: char_table_of_string_def unsigned_eq_0_iff)
qed

theorem range_set_member_witness:
  "in_table (char_table_of_string (Some [48, 45, 57]) False) 50"
  using range_set_member [of 48 57 50] by simp

lemma in_table_map: "in_table (map f [0..<256]) c = f (unat c)"
proof -
  have "unat c < 2 ^ LENGTH(8)" by (rule unsigned_less)
  then show ?thesis by (simp add: in_table_def)
qed

lemma category_tables:
  "ALPHA = map (\<lambda>n. 65 \<le> n \<and> n \<le> 90 \<or> 97 \<le> n \<and> n \<le> 122) [0..<256]"
  "NUMBER = map (\<lambda>n. 48 \<le> n \<and> n \<le> 57) [0..<256]"
  "OCTAL_NUMBER = map (\<lambda>n. 48 \<le> n \<and> n \<le> 55) [0..<256]"
  "HEX_NUMBER = map (\<lambda>n. 48 \<le> n \<and> n \<le> 57 \<or> 65 \<le> n \<and> n \<le> 70 \<or> 97 \<le> n \<and> n \<le> 102) [0..<256]"
  "REGEX_META = map (\<lambda>n. n \<in> {94, 46, 36, 92, 124, 40, 41, 91, 93, 42, 43, 63, 123, 125}) [0..<256]"
  by code_simp+

lemma char_table_union_member: "in_table (char_table_union a b) c \<longleftrightarrow> in_table a c \<or> in_table b c"
  unfolding char_table_union_def in_table_map by (simp add: in_table_def)

text \<open>The named categories hold exactly the characters their names and comments say.\<close>

theorem categories_correct:
  "(in_table ALPHA c \<longleftrightarrow> 65 \<le> unat c \<and> unat c \<le> 90 \<or> 97 \<le> unat c \<and> unat c \<le> 122) \<and>
   (in_table NUMBER c \<longleftrightarrow> 48 \<le> unat c \<and> unat c \<le> 57) \<and>
   (in_table ALPHA_NUM c \<longleftrightarrow> in_table ALPHA c \<or> in_table NUMBER c) \<and>
   (in_table OCTAL_NUMBER c \<longleftrightarrow> 48 \<le> unat c \<and> unat c \<le> 55) \<and>
   (in_table HEX_NUMBER c \<longleftrightarrow> in_table NUMBER c \<or> 65 \<le> unat c \<and> unat c \<le> 70 \<or>
      97 \<le> unat c \<and> unat c \<le> 102) \<and>
   (in_table SPACE c \<longleftrightarrow> unat c = 32 \<or> 9 \<le> unat c \<and> unat c \<le> 13) \<and>
   (in_table REGEX_META c \<longleftrightarrow> unat c \<in> {94, 46, 36, 92, 124, 40, 41, 91, 93, 42, 43, 63, 123, 125})"
  unfolding ALPHA_NUM_def char_table_union_member
  unfolding category_tables SPACE_def char_table_of_predicate_def in_table_map isspace_def by blast

subsection \<open>Searching with a category\<close>

text \<open>
  A category applies its predicate: the table of a \<open>CharCategory\<close>, or one of \<open>char1\<close> to \<open>char3\<close>. The
  searches are the same for each of them. \<open>empty\<close> goes through the characters from \<open>CHAR_MIN\<close> (byte 128)
  to \<open>CHAR_MAX\<close> (byte 127).
\<close>

function empty_from :: "(byte \<Rightarrow> bool) \<Rightarrow> byte \<Rightarrow> bool" where
  "empty_from is_owned ch =
     (if is_owned ch then False else if ch = 127 then True else empty_from is_owned (ch + 1))"
  by auto

termination
proof (relation "measure (\<lambda>(is_owned, ch). unat (127 - ch))")
  fix is_owned :: "byte \<Rightarrow> bool" and ch :: byte
  assume "ch \<noteq> 127"
  then show "((is_owned, ch + 1), is_owned, ch) \<in> measure (\<lambda>(is_owned, ch). unat (127 - ch))"
    using step_towards [of ch 127] by simp
qed simp

declare empty_from.simps [simp del]

definition category_empty :: "(byte \<Rightarrow> bool) \<Rightarrow> bool" where
  "category_empty is_owned = empty_from is_owned 128"

text \<open>In a C string, the list of its bytes before the zero; the index of the match or the null pointer.\<close>

fun find_owned_c :: "(byte \<Rightarrow> bool) \<Rightarrow> nat \<Rightarrow> byte list \<Rightarrow> nat option" where
  "find_owned_c is_owned i [] = (if is_owned 0 then Some i else None)"
| "find_owned_c is_owned i (ch # rest) = (if is_owned ch then Some i else find_owned_c is_owned (i + 1) rest)"

fun find_nonowned_c :: "(byte \<Rightarrow> bool) \<Rightarrow> nat \<Rightarrow> byte list \<Rightarrow> nat option" where
  "find_nonowned_c is_owned i [] = (if \<not> is_owned 0 then Some i else None)"
| "find_nonowned_c is_owned i (ch # rest) =
     (if \<not> is_owned ch then Some i else find_nonowned_c is_owned (i + 1) rest)"

text \<open>Between two pointers; the end when there is no match. The out parameter is \<open>None\<close> for a null pointer.\<close>

fun find_owned :: "(byte \<Rightarrow> bool) \<Rightarrow> byte list \<Rightarrow> nat option \<Rightarrow> nat \<times> nat option" where
  "find_owned is_owned [] octets = (0, octets)"
| "find_owned is_owned (ch # rest) octets =
     (if is_owned ch then (0, map_option (\<lambda>_. 1) octets)
      else case find_owned is_owned rest octets of (i, octets') \<Rightarrow> (i + 1, octets'))"

fun find_nonowned :: "(byte \<Rightarrow> bool) \<Rightarrow> byte list \<Rightarrow> nat" where
  "find_nonowned is_owned [] = 0"
| "find_nonowned is_owned (ch # rest) = (if \<not> is_owned ch then 0 else find_nonowned is_owned rest + 1)"

text \<open>Backwards from a position; that position when there is no match.\<close>

fun rfind_down :: "(byte \<Rightarrow> bool) \<Rightarrow> byte list \<Rightarrow> nat \<Rightarrow> nat \<Rightarrow> nat" where
  "rfind_down p s not_found 0 = not_found"
| "rfind_down p s not_found (Suc pos) = (if p (s ! pos) then pos else rfind_down p s not_found pos)"

definition rfind_owned :: "(byte \<Rightarrow> bool) \<Rightarrow> byte list \<Rightarrow> nat \<Rightarrow> nat" where
  "rfind_owned is_owned s pos = rfind_down is_owned s pos pos"

definition rfind_nonowned :: "(byte \<Rightarrow> bool) \<Rightarrow> byte list \<Rightarrow> nat \<Rightarrow> nat" where
  "rfind_nonowned is_owned s pos = rfind_down (\<lambda>ch. \<not> is_owned ch) s pos pos"

lemma empty_from_result: "empty_from p ch \<longleftrightarrow> (\<forall>b. unat (b - ch) \<le> unat (127 - ch) \<longrightarrow> \<not> p b)"
proof (induction p ch rule: empty_from.induct)
  case (1 p ch)
  have next_byte: "unat (b - ch) \<le> unat (127 - ch) \<longleftrightarrow> b = ch \<or> unat (b - (ch + 1)) \<le> unat (127 - (ch + 1))"
    if "ch \<noteq> 127" for b
    using step_towards [OF that] step_towards [of ch b] by (cases "b = ch") auto
  show ?case
  proof (cases "ch = 127")
    case True
    then show ?thesis by (subst empty_from.simps) (auto simp: unsigned_eq_0_iff)
  next
    case False
    show ?thesis
    proof (cases "p ch")
      case True
      moreover have "unat (ch - ch) \<le> unat (127 - ch)" by simp
      ultimately have "\<exists>b. unat (b - ch) \<le> unat (127 - ch) \<and> p b" by blast
      moreover have "\<not> empty_from p ch" using True by (subst empty_from.simps) simp
      ultimately show ?thesis by blast
    next
      case not_ch: False
      then have "empty_from p ch = empty_from p (ch + 1)"
        using False by (subst empty_from.simps) simp
      then show ?thesis using 1 [OF not_ch False] next_byte [OF False] not_ch by auto
    qed
  qed
qed

lemma category_empty_iff: "category_empty p \<longleftrightarrow> (\<forall>b. \<not> p b)"
proof -
  have "unat (b - 128) \<le> unat (127 - 128 :: byte)" for b :: byte
  proof -
    have "unat (b - 128) < 2 ^ LENGTH(8)" by (rule unsigned_less)
    moreover have "unat (127 - 128 :: byte) = 255" by code_simp
    ultimately show ?thesis by simp
  qed
  then show ?thesis by (simp add: category_empty_def empty_from_result)
qed

lemma find_owned_index: "fst (find_owned p s octets) = length (takeWhile (\<lambda>ch. \<not> p ch) s)"
  by (induction s) (auto split: prod.split)

lemma find_nonowned_index: "find_nonowned p s = length (takeWhile p s)"
  by (induction s) simp_all

lemma find_owned_c_index:
  "find_owned_c p i s =
    (if (\<exists>ch\<in>set s. p ch) \<or> p 0 then Some (i + length (takeWhile (\<lambda>ch. \<not> p ch) s)) else None)"
  by (induction s arbitrary: i) auto

lemma find_nonowned_c_owned: "find_nonowned_c p i s = find_owned_c (\<lambda>ch. \<not> p ch) i s"
  by (induction s arbitrary: i) auto

lemma first_match:
  "(\<forall>j < length (takeWhile (\<lambda>ch. \<not> p ch) s). \<not> p (s ! j)) \<and>
   (length (takeWhile (\<lambda>ch. \<not> p ch) s) < length s \<longrightarrow> p (s ! length (takeWhile (\<lambda>ch. \<not> p ch) s)))"
  using nth_length_takeWhile [of "\<lambda>ch. \<not> p ch" s]
  by (metis nth_mem set_takeWhileD takeWhile_nth)

lemma rfind_down_result:
  "(\<exists>j. rfind_down p s nf pos = j \<and> j < pos \<and> p (s ! j) \<and> (\<forall>k. j < k \<and> k < pos \<longrightarrow> \<not> p (s ! k))) \<or>
   (rfind_down p s nf pos = nf \<and> (\<forall>k < pos. \<not> p (s ! k)))"
proof (induction pos)
  case (Suc pos)
  then show ?case by (auto simp: less_Suc_eq)
qed simp

text \<open>The searches of a category: forwards the first owned (or not owned) byte, or the end; backwards
  the last one before a position, or that position; \<open>empty\<close> is true exactly when no byte is owned.\<close>

theorem category_searches:
  "(\<forall>j < fst (find_owned p s octets). \<not> p (s ! j)) \<and>
   (fst (find_owned p s octets) < length s \<longrightarrow> p (s ! fst (find_owned p s octets))) \<and>
   (\<forall>j < find_nonowned p s. p (s ! j)) \<and>
   (find_nonowned p s < length s \<longrightarrow> \<not> p (s ! find_nonowned p s)) \<and>
   (let j = rfind_owned p s pos in
      (j < pos \<and> p (s ! j) \<and> (\<forall>k. j < k \<and> k < pos \<longrightarrow> \<not> p (s ! k))) \<or> (j = pos \<and> (\<forall>k < pos. \<not> p (s ! k)))) \<and>
   (let j = rfind_nonowned p s pos in
      (j < pos \<and> \<not> p (s ! j) \<and> (\<forall>k. j < k \<and> k < pos \<longrightarrow> p (s ! k))) \<or> (j = pos \<and> (\<forall>k < pos. p (s ! k)))) \<and>
   (category_empty p \<longleftrightarrow> (\<forall>b. \<not> p b))"
  using first_match [of p s] first_match [of "\<lambda>ch. \<not> p ch" s] rfind_down_result [of p s pos pos]
    rfind_down_result [of "\<lambda>ch. \<not> p ch" s pos pos]
  by (simp add: find_owned_index find_nonowned_index rfind_owned_def rfind_nonowned_def Let_def
      category_empty_iff)

theorem category_searches_witness:
  "find_nonowned (in_table NUMBER) [49, 50, 97] = 2 \<and> \<not> in_table NUMBER ([49, 50, 97] ! 2)"
proof -
  have "find_nonowned (in_table NUMBER) [49, 50, 97] = 2"
    by (simp add: category_tables in_table_map)
  moreover have "\<not> in_table NUMBER ([49, 50, 97] ! find_nonowned (in_table NUMBER) [49, 50, 97])"
    using category_searches [of "in_table NUMBER" "[49, 50, 97]" None 3] calculation by simp
  ultimately show ?thesis by simp
qed

subsection \<open>flatten and trim\<close>

text \<open>
  \<open>flatten\<close> copies into memory that it resized beforehand; the copies are checked against that size, and
  what was written so far is the buffer.
\<close>

definition copy_out :: "nat \<Rightarrow> byte list \<Rightarrow> byte list \<Rightarrow> byte list outcome" where
  "copy_out reserved out data =
     (if length out + length data \<le> reserved then Inr (out @ data) else Inl Out_Of_Bounds)"

function flatten_loop ::
  "(byte \<Rightarrow> bool) \<Rightarrow> byte list \<Rightarrow> nat \<Rightarrow> byte list \<Rightarrow> byte list \<Rightarrow> byte list outcome" where
  "flatten_loop to_replace replacement reserved out str =
     (if str = [] then Inr out
      else let current = fst (find_owned to_replace str None) in
        bind_sum (copy_out reserved out (take current str)) (\<lambda>out1.
          if current = length str then Inr out1
          else bind_sum (copy_out reserved out1 replacement) (\<lambda>out2.
            let rest = drop current str in
            flatten_loop to_replace replacement reserved out2
              (drop (find_nonowned to_replace rest) rest))))"
  by auto

definition flatten :: "byte list \<Rightarrow> byte list \<Rightarrow> (byte \<Rightarrow> bool) \<Rightarrow> byte list outcome" where
  "flatten str replacement to_replace =
     flatten_loop to_replace replacement
       (length str * (if length replacement \<noteq> 0 then length replacement else 1)) [] str"

fun trim_end :: "(byte \<Rightarrow> bool) \<Rightarrow> byte list \<Rightarrow> nat \<Rightarrow> nat" where
  "trim_end trim_set s 0 = 0"
| "trim_end trim_set s (Suc n) = (if trim_set (s ! n) then trim_end trim_set s n else Suc n)"

definition trim :: "(byte \<Rightarrow> bool) \<Rightarrow> byte list \<Rightarrow> byte list" where
  "trim trim_set s =
     (let begin' = find_nonowned trim_set s;
          end' = if begin' \<noteq> length s then trim_end trim_set s (length s) else length s
      in take (end' - begin') (drop begin' s))"

lemma owned_run_shrinks:
  assumes "fst (find_owned p str None) \<noteq> length str"
  shows "length (drop (find_nonowned p (drop (fst (find_owned p str None)) str))
      (drop (fst (find_owned p str None)) str)) < length str"
proof -
  define i where "i = fst (find_owned p str None)"
  have i: "i < length str"
    using assms length_takeWhile_le [of "\<lambda>ch. \<not> p ch" str] by (simp add: i_def find_owned_index)
  then have "p (str ! i)" using first_match [of p str] by (simp add: i_def find_owned_index)
  moreover have "drop i str = str ! i # drop (i + 1) str" using i by (simp add: Cons_nth_drop_Suc)
  ultimately have "0 < find_nonowned p (drop i str)" by (simp add: find_nonowned_index)
  then show ?thesis using i by (simp add: i_def)
qed

termination flatten_loop
  by (relation "measure (\<lambda>(p, r, n, out, str). length str)")
    (use owned_run_shrinks in auto)

declare flatten_loop.simps [simp del]

text \<open>The reference: every maximal run of replaced characters gives one replacement.\<close>

fun replace_runs :: "(byte \<Rightarrow> bool) \<Rightarrow> byte list \<Rightarrow> bool \<Rightarrow> byte list \<Rightarrow> byte list" where
  "replace_runs p r in_run [] = []"
| "replace_runs p r in_run (ch # s) =
     (if p ch then (if in_run then [] else r) @ replace_runs p r True s
      else ch # replace_runs p r False s)"

lemma replace_runs_plain:
  "list_all (\<lambda>ch. \<not> p ch) s \<Longrightarrow> replace_runs p r b (s @ t) = s @ replace_runs p r (b \<and> s = []) t"
  by (induction s arbitrary: b) auto

lemma replace_runs_owned:
  "list_all p s \<Longrightarrow> s \<noteq> [] \<Longrightarrow> replace_runs p r b (s @ t) = (if b then [] else r) @ replace_runs p r True t"
proof (induction s arbitrary: b)
  case (Cons ch s)
  then show ?case by (cases "s = []") auto
qed simp

lemma replace_runs_after:
  "t = [] \<or> \<not> p (hd t) \<Longrightarrow> replace_runs p r True t = replace_runs p r False t"
  by (cases t) auto

lemma replace_runs_length:
  "length r \<le> k \<Longrightarrow> 0 < k \<Longrightarrow> length (replace_runs p r b s) \<le> length s * k"
proof (induction s arbitrary: b)
  case (Cons ch s)
  then have "length (replace_runs p r True s) \<le> length s * k"
    "length (replace_runs p r False s) \<le> length s * k"
    by blast+
  then show ?case using Cons.prems by auto
qed simp

lemma flatten_step:
  fixes p :: "byte \<Rightarrow> bool" and s r :: "byte list"
  assumes "s \<noteq> []"
  defines "i \<equiv> length (takeWhile (\<lambda>ch. \<not> p ch) s)"
  defines "rest \<equiv> drop i s"
  shows "replace_runs p r False s =
    (if i = length s then s else take i s @ r @ replace_runs p r False (drop (find_nonowned p rest) rest))"
proof -
  have plain: "take i s = takeWhile (\<lambda>ch. \<not> p ch) s" and rest: "rest = dropWhile (\<lambda>ch. \<not> p ch) s"
    by (simp_all add: i_def rest_def takeWhile_eq_take [symmetric] dropWhile_eq_drop [symmetric])
  have "list_all (\<lambda>ch. \<not> p ch) (take i s)"
    unfolding plain by (auto simp: list_all_iff dest: set_takeWhileD)
  then have split: "replace_runs p r False s = take i s @ replace_runs p r False rest"
    using replace_runs_plain [of p "take i s" r False rest] by (simp add: rest_def)
  show ?thesis
  proof (cases "i = length s")
    case False
    then have "rest \<noteq> []" using length_takeWhile_le [of "\<lambda>ch. \<not> p ch" s] by (simp add: i_def rest_def)
    then have "p (hd rest)" unfolding rest using hd_dropWhile by blast
    then have run: "takeWhile p rest \<noteq> []" using \<open>rest \<noteq> []\<close> by (cases rest) auto
    have tl: "drop (find_nonowned p rest) rest = dropWhile p rest"
      by (simp add: find_nonowned_index dropWhile_eq_drop [symmetric])
    have "list_all p (takeWhile p rest)" by (auto simp: list_all_iff dest: set_takeWhileD)
    then have "replace_runs p r False rest = r @ replace_runs p r True (dropWhile p rest)"
      using replace_runs_owned [of p "takeWhile p rest" r False "dropWhile p rest"] run by simp
    also have "replace_runs p r True (dropWhile p rest) = replace_runs p r False (dropWhile p rest)"
      using hd_dropWhile [of p rest] by (intro replace_runs_after) blast
    finally show ?thesis using False split tl by simp
  next
    case True
    then show ?thesis using split by (simp add: rest_def)
  qed
qed

lemma flatten_loop_result:
  "length out + length (replace_runs p r False str) \<le> reserved \<Longrightarrow>
   flatten_loop p r reserved out str = Inr (out @ replace_runs p r False str)"
proof (induction p r reserved out str rule: flatten_loop.induct)
  case (1 p r reserved out str)
  show ?case
  proof (cases "str = []")
    case True
    then show ?thesis by (subst flatten_loop.simps) simp
  next
    case False
    define i where "i = fst (find_owned p str None)"
    define rest where "rest = drop i str"
    have i: "i = length (takeWhile (\<lambda>ch. \<not> p ch) str)" by (simp add: i_def find_owned_index)
    note step = flatten_step [OF False, of p r, folded i, folded rest_def]
    show ?thesis
    proof (cases "i = length str")
      case True
      then show ?thesis
        using step 1(2) by (subst flatten_loop.simps) (simp add: i_def [symmetric] copy_out_def)
    next
      case more: False
      have fits: "length out + length (take i str) \<le> reserved"
        "length (out @ take i str) + length r \<le> reserved"
        using 1(2) step more by simp_all
      have "flatten_loop p r reserved out str =
          flatten_loop p r reserved (out @ take i str @ r) (drop (find_nonowned p rest) rest)"
        using False more fits
        by (subst flatten_loop.simps) (simp add: i_def [symmetric] rest_def copy_out_def Let_def)
      moreover have "flatten_loop p r reserved ((out @ take i str) @ r) (drop (find_nonowned p rest) rest) =
          Inr (((out @ take i str) @ r) @ replace_runs p r False (drop (find_nonowned p rest) rest))"
        using 1(2) step more
        by (intro 1(1) [OF False i_def more, unfolded rest_def [symmetric]])
          (simp_all add: rest_def)
      ultimately show ?thesis using step more by simp
    qed
  qed
qed

text \<open>\<open>flatten\<close> replaces every maximal run of characters of the category by one replacement and keeps
  the others, and the memory it reserves beforehand (the length of the text times that of the replacement,
  or the length of the text) is always enough.\<close>

theorem flatten_replaces_runs:
  "flatten str replacement p = Inr (replace_runs p replacement False str)"
proof -
  have "length (replace_runs p replacement False str)
      \<le> length str * (if length replacement \<noteq> 0 then length replacement else 1)"
    by (rule replace_runs_length) auto
  then show ?thesis by (simp add: flatten_def flatten_loop_result)
qed

lemma trim_end_result:
  assumes "i < n" and "n \<le> length s" and "\<not> p (s ! i)"
  shows "i < trim_end p s n \<and> trim_end p s n \<le> n \<and> \<not> p (s ! (trim_end p s n - 1)) \<and>
    (\<forall>j. trim_end p s n \<le> j \<and> j < n \<longrightarrow> p (s ! j))"
  using assms
proof (induction n)
  case (Suc n)
  show ?case
  proof (cases "p (s ! n)")
    case True
    then have "i < n" using Suc.prems less_antisym by blast
    then show ?thesis using Suc True by (auto simp: less_Suc_eq)
  next
    case False
    then show ?thesis using Suc.prems by auto
  qed
qed simp

text \<open>\<open>trim\<close> cuts the characters of the set from both ends and nothing else: what it keeps starts and
  ends with a character outside the set, or is empty.\<close>

theorem trim_cuts_ends:
  "\<exists>l r. s = l @ trim p s @ r \<and> list_all p l \<and> list_all p r \<and>
    (trim p s = [] \<or> \<not> p (hd (trim p s)) \<and> \<not> p (last (trim p s)))"
proof (cases "find_nonowned p s = length s")
  case True
  then have "takeWhile p s = s"
    by (metis find_nonowned_index length_takeWhile_le take_all_iff takeWhile_eq_take order_refl)
  then have "list_all p s" by (simp add: list_all_iff takeWhile_eq_all_conv)
  with True show ?thesis by (intro exI [of _ s] exI [of _ "[]"]) (simp add: trim_def)
next
  case False
  define b where "b = find_nonowned p s"
  define e where "e = trim_end p s (length s)"
  have b: "b < length s" using False length_takeWhile_le [of p s] by (simp add: b_def find_nonowned_index)
  then have nb: "\<not> p (s ! b)" using first_match [of "\<lambda>ch. \<not> p ch" s] by (simp add: b_def find_nonowned_index)
  note e = trim_end_result [where p = p, OF b order_refl nb, folded e_def]
  have t: "trim p s = take (e - b) (drop b s)" using False by (simp add: trim_def b_def e_def Let_def)
  have "s = take b s @ trim p s @ drop e s"
    using e unfolding t by (metis add_diff_inverse_nat append_take_drop_id drop_drop le_add_diff_inverse2
        less_imp_le_nat not_less_iff_gr_or_eq order_less_asym)
  moreover have "list_all p (take b s)"
    using first_match [of "\<lambda>ch. \<not> p ch" s] b
    by (simp add: b_def find_nonowned_index list_all_length)
  moreover have "list_all p (drop e s)"
    using e by (auto simp: list_all_length)
  moreover have "hd (trim p s) = s ! b" and "last (trim p s) = s ! (e - 1)" and "trim p s \<noteq> []"
    using e b unfolding t by (auto simp: hd_conv_nth last_conv_nth)
  ultimately show ?thesis using nb e by metis
qed

subsection \<open>Comparison without case\<close>

text \<open>
  The tables hold \<open>char\<close>, so the difference is that of signed bytes. The pointers of the two texts enter
  through \<open>same\<close>, whether they are equal.
\<close>

fun caseless_difference :: "byte list \<Rightarrow> byte list \<Rightarrow> int" where
  "caseless_difference (x # xs) (y # ys) =
     (let result = sint (ASCII_TOLOWER_TABLE ! unat x) - sint (ASCII_TOLOWER_TABLE ! unat y) in
      if result \<noteq> 0 then result else caseless_difference xs ys)"
| "caseless_difference _ _ = 0"

definition compare_lengths :: "byte list \<Rightarrow> byte list \<Rightarrow> int" where
  "compare_lengths s1 s2 = (if length s1 \<noteq> length s2 then if length s1 < length s2 then - 1 else 1 else 0)"

definition compare_caseless :: "bool \<Rightarrow> byte list \<Rightarrow> byte list \<Rightarrow> int" where
  "compare_caseless same s1 s2 =
     (if same \<or> min (length s1) (length s2) = 0 then compare_lengths s1 s2
      else let result = caseless_difference s1 s2 in
        if result = 0 then compare_lengths s1 s2 else result)"

fun caseless_equal_prefix :: "byte list \<Rightarrow> byte list \<Rightarrow> bool" where
  "caseless_equal_prefix (x # xs) (y # ys) =
     (ASCII_TOLOWER_TABLE ! unat x = ASCII_TOLOWER_TABLE ! unat y \<and> caseless_equal_prefix xs ys)"
| "caseless_equal_prefix _ _ = True"

definition equal_caseless :: "bool \<Rightarrow> byte list \<Rightarrow> byte list \<Rightarrow> bool" where
  "equal_caseless same s1 s2 =
     (if length s1 \<noteq> length s2 then False
      else if same \<or> length s1 = 0 then True
      else caseless_equal_prefix s1 s2)"

text \<open>Against a C string, the list of its bytes before the zero.\<close>

fun equal_caseless_c :: "byte list \<Rightarrow> byte list \<Rightarrow> bool" where
  "equal_caseless_c [] s2 = (s2 = [])"
| "equal_caseless_c (x # xs) [] = False"
| "equal_caseless_c (x # xs) (ch # rest) =
     (if ASCII_TOLOWER_TABLE ! unat ch \<noteq> ASCII_TOLOWER_TABLE ! unat x then False
      else equal_caseless_c xs rest)"

text \<open>\<open>Caseless\<close> keeps a text and compares it with others.\<close>

record caseless =
  stored :: "byte list"

definition caseless_compare :: "caseless \<Rightarrow> bool \<Rightarrow> byte list \<Rightarrow> int" where
  "caseless_compare cl same str =
     (let result = (if \<not> same \<and> min (length (stored cl)) (length str) \<noteq> 0
          then caseless_difference (stored cl) str else 0)
      in if result \<noteq> 0 then result else compare_lengths (stored cl) str)"

definition caseless_equal :: "caseless \<Rightarrow> bool \<Rightarrow> byte list \<Rightarrow> bool" where
  "caseless_equal cl same str =
     (if length str \<noteq> length (stored cl) then False
      else if same \<or> length str = 0 then True
      else caseless_equal_prefix str (stored cl))"

definition caseless_start :: "caseless \<Rightarrow> bool \<Rightarrow> byte list \<Rightarrow> bool" where
  "caseless_start cl same str = caseless_equal cl same (take (length (stored cl)) str)"

text \<open>The key a text is compared by.\<close>

definition caseless_key :: "byte list \<Rightarrow> int list" where
  "caseless_key s = map (\<lambda>b. sint (to_lower b)) s"

lemma caseless_key_Cons [simp]: "caseless_key (x # s) = sint (to_lower x) # caseless_key s"
  and caseless_key_Nil [simp]: "caseless_key [] = []"
  by (simp_all add: caseless_key_def)

lemma caseless_key_empty [simp]:
  "caseless_key s = [] \<longleftrightarrow> s = []" "[] = caseless_key s \<longleftrightarrow> s = []" "[] < caseless_key s \<longleftrightarrow> s \<noteq> []"
  by (cases s; simp)+

lemma caseless_key_eq: "caseless_key s1 = caseless_key s2 \<longleftrightarrow> map to_lower s1 = map to_lower s2"
  by (induction s1 s2 rule: list_induct2') (auto dest: signed_word_eqI)

lemma caseless_difference_sign:
  "(let r = (if caseless_difference s1 s2 \<noteq> 0 then caseless_difference s1 s2 else compare_lengths s1 s2) in
    (r < 0 \<longleftrightarrow> caseless_key s1 < caseless_key s2) \<and> (r = 0 \<longleftrightarrow> caseless_key s1 = caseless_key s2))"
  by (induction s1 s2 rule: caseless_difference.induct)
    (auto simp: compare_lengths_def Let_def to_lower_def [symmetric] split: if_splits)

lemma caseless_equal_prefix_iff:
  "length s1 = length s2 \<Longrightarrow> caseless_equal_prefix s1 s2 \<longleftrightarrow> map to_lower s1 = map to_lower s2"
  by (induction s1 s2 rule: list_induct2) (simp_all add: to_lower_def)

lemma equal_caseless_c_iff: "equal_caseless_c s1 s2 \<longleftrightarrow> map to_lower s1 = map to_lower s2"
  by (induction s1 s2 rule: equal_caseless_c.induct) (auto simp: to_lower_def)

text \<open>The comparisons without case are those of the lowered texts: \<open>compare_caseless\<close> and
  \<open>Caseless::compare\<close> are the lexicographic order of the lowered characters read as signed bytes,
  \<open>equal_caseless\<close>, its form for C strings and \<open>Caseless::equal\<close> are equality, \<open>Caseless::start\<close> is the
  test for a prefix. (Equal pointers short-cut the loop; then the common part is the same memory.)\<close>

theorem caseless_comparisons:
  assumes "same \<Longrightarrow> take (min (length s1) (length s2)) s1 = take (min (length s1) (length s2)) s2"
  shows "(compare_caseless same s1 s2 < 0 \<longleftrightarrow> caseless_key s1 < caseless_key s2) \<and>
    (compare_caseless same s1 s2 = 0 \<longleftrightarrow> caseless_key s1 = caseless_key s2) \<and>
    caseless_compare \<lparr>stored = s1\<rparr> same s2 = compare_caseless same s1 s2 \<and>
    (equal_caseless same s1 s2 \<longleftrightarrow> map to_lower s1 = map to_lower s2) \<and>
    (equal_caseless_c s1 s2 \<longleftrightarrow> map to_lower s1 = map to_lower s2) \<and>
    (caseless_equal \<lparr>stored = s1\<rparr> same s2 \<longleftrightarrow> map to_lower s1 = map to_lower s2) \<and>
    (caseless_start \<lparr>stored = s1\<rparr> same s2 \<longleftrightarrow>
       map to_lower s1 = map to_lower (take (length s1) s2))"
proof -
  have same_diff: "same \<Longrightarrow> caseless_difference s1 s2 = 0"
    using assms
  proof (induction s1 s2 rule: caseless_difference.induct)
    case (1 x xs y ys)
    then show ?case by (simp add: Let_def)
  qed simp_all
  have empty_diff: "min (length s1) (length s2) = 0 \<Longrightarrow> caseless_difference s1 s2 = 0"
    by (cases s1; cases s2) simp_all
  have cmp: "compare_caseless same s1 s2 =
      (if caseless_difference s1 s2 \<noteq> 0 then caseless_difference s1 s2 else compare_lengths s1 s2)"
    using same_diff empty_diff by (auto simp: compare_caseless_def Let_def)
  have cmp2: "caseless_compare \<lparr>stored = s1\<rparr> same s2 = compare_caseless same s1 s2"
    unfolding cmp using same_diff empty_diff by (auto simp: caseless_compare_def Let_def)
  have eq: "equal_caseless same s1 s2 \<longleftrightarrow> map to_lower s1 = map to_lower s2"
  proof (cases "length s1 = length s2")
    case True
    then show ?thesis
      using assms caseless_equal_prefix_iff [OF True]
      by (cases same) (auto simp: equal_caseless_def)
  next
    case False
    then show ?thesis by (auto simp: equal_caseless_def dest: map_eq_imp_length_eq)
  qed
  have ceq: "caseless_equal \<lparr>stored = a\<rparr> same b \<longleftrightarrow> map to_lower a = map to_lower b"
    if "same \<Longrightarrow> length a = length b \<Longrightarrow> a = b" for a b
  proof (cases "length a = length b")
    case True
    then show ?thesis
      using that caseless_equal_prefix_iff [OF True [symmetric]]
      by (cases same) (auto simp: caseless_equal_def)
  next
    case False
    then show ?thesis by (auto simp: caseless_equal_def dest: map_eq_imp_length_eq)
  qed
  have sign: "(compare_caseless same s1 s2 < 0 \<longleftrightarrow> caseless_key s1 < caseless_key s2) \<and>
      (compare_caseless same s1 s2 = 0 \<longleftrightarrow> caseless_key s1 = caseless_key s2)"
    using caseless_difference_sign [of s1 s2] unfolding cmp Let_def .
  have "caseless_equal \<lparr>stored = s1\<rparr> same s2 \<longleftrightarrow> map to_lower s1 = map to_lower s2"
    using assms by (intro ceq) (metis min.idem order_refl take_all_iff)
  moreover have "caseless_equal \<lparr>stored = s1\<rparr> same (take (length s1) s2)
      \<longleftrightarrow> map to_lower s1 = map to_lower (take (length s1) s2)"
  proof (rule ceq)
    assume "same" and len: "length s1 = length (take (length s1) s2)"
    have "length (take (length s1) s2) \<le> length s2" by simp
    then have "min (length s1) (length s2) = length s1" unfolding len [symmetric] by (rule min_absorb1)
    then show "s1 = take (length s1) s2"
      using assms [OF \<open>same\<close>] by (simp only: take_all order_refl)
  qed
  ultimately show ?thesis
    using sign cmp2 eq equal_caseless_c_iff [of s1 s2] by (simp add: caseless_start_def)
qed

theorem caseless_comparisons_witness:
  "equal_caseless False [65, 98] [97, 66] \<longleftrightarrow> map to_lower [65, 98] = map to_lower [97, 66]"
  using caseless_comparisons [of False "[65, 98]" "[97, 66]"] by simp

end
