(* ===== verification/GearsNumbers.thy ===== *)
theory GearsNumbers
  imports Prelude
begin

section \<open>Decimal numbers and bounded concatenation (gears/StringManip.hpp)\<close>

text \<open>
  Reading and writing of the built-in integers, and \<open>concat\<close>, which joins texts and numbers in a buffer.
  The templates over an integer type take its kind; \<open>bits\<close>, \<open>least\<close>, \<open>greatest\<close> and \<open>digits10\<close> are the
  values of \<open>std::numeric_limits\<close> for it. Arithmetic is done on \<open>int\<close> and brought back to the type by
  \<open>convert\<close> where the source assigns; the lemmas show that it never wraps there.

  A buffer is the list of the bytes from the pointer on.
\<close>

subsection \<open>The built-in integer types\<close>

datatype int_kind = I8 | I16 | I32 | I64 | U8 | U16 | U32 | U64

fun bits :: "int_kind \<Rightarrow> nat" where
  "bits I8 = 8" | "bits I16 = 16" | "bits I32 = 32" | "bits I64 = 64"
| "bits U8 = 8" | "bits U16 = 16" | "bits U32 = 32" | "bits U64 = 64"

fun is_signed :: "int_kind \<Rightarrow> bool" where
  "is_signed I8 = True" | "is_signed I16 = True" | "is_signed I32 = True" | "is_signed I64 = True"
| "is_signed U8 = False" | "is_signed U16 = False" | "is_signed U32 = False" | "is_signed U64 = False"

definition least :: "int_kind \<Rightarrow> int" where
  "least k = (if is_signed k then - (2 ^ (bits k - 1)) else 0)"

definition greatest :: "int_kind \<Rightarrow> int" where
  "greatest k = (if is_signed k then 2 ^ (bits k - 1) - 1 else 2 ^ bits k - 1)"

definition digits10 :: "int_kind \<Rightarrow> nat" where
  "digits10 k = (if is_signed k then bits k - 1 else bits k) * 643 div 2136"

definition convert :: "int_kind \<Rightarrow> int \<Rightarrow> int" where
  "convert k x = (x - least k) mod 2 ^ bits k + least k"

definition fits :: "int_kind \<Rightarrow> int \<Rightarrow> bool" where
  "fits k x \<longleftrightarrow> least k \<le> x \<and> x \<le> greatest k"

lemma convert_fits: "fits k x \<Longrightarrow> convert k x = x"
  by (cases k) (simp_all add: convert_def fits_def least_def greatest_def)

subsection \<open>Reading\<close>

fun read_negative :: "int_kind \<Rightarrow> int \<Rightarrow> byte list \<Rightarrow> bool \<times> int" where
  "read_negative k val [] = (True, val)"
| "read_negative k val (c # cs) =
     (let limit = greatest k div 10; ch = uint (c - 48) in
      if ch > 9 \<or> val < - limit \<or>
         (val = - limit \<and> ch > (- (least k + limit * 10)) mod 256) then (False, val)
      else read_negative k (convert k (val * 10 - ch)) cs)"

fun read_positive :: "int_kind \<Rightarrow> int \<Rightarrow> byte list \<Rightarrow> bool \<times> int" where
  "read_positive k val [] = (True, val)"
| "read_positive k val (c # cs) =
     (let limit = greatest k div 10; ch = uint (c - 48) in
      if ch > 9 \<or> val > limit \<or>
         (val = limit \<and> ch > (greatest k - limit * 10) mod 256) then (False, val)
      else read_positive k (convert k (val * 10 + ch)) cs)"

text \<open>The result and the out parameter, whose value on entry is the last argument.\<close>

definition str_to_int :: "int_kind \<Rightarrow> byte list \<Rightarrow> int \<Rightarrow> bool \<times> int" where
  "str_to_int k str val =
     (case str of
        [] \<Rightarrow> (False, val)
      | c # cs \<Rightarrow>
          if c = 45 then
            (if \<not> is_signed k then (False, val)
             else if cs = [] then (False, val)
             else read_negative k 0 cs)
          else if c = 43 then
            (if cs = [] then (False, val) else read_positive k 0 cs)
          else read_positive k 0 str)"

text \<open>The reference: a sequence of digits and its value, and a number with its sign.\<close>

definition is_digit :: "byte \<Rightarrow> bool" where
  "is_digit c \<longleftrightarrow> 48 \<le> uint c \<and> uint c \<le> 57"

fun decimal_from :: "int \<Rightarrow> byte list \<Rightarrow> int" where
  "decimal_from acc [] = acc"
| "decimal_from acc (c # cs) = decimal_from (acc * 10 + (uint c - 48)) cs"

definition decimal :: "byte list \<Rightarrow> int" where
  "decimal cs = decimal_from 0 cs"

definition numeral_value :: "byte list \<Rightarrow> int option" where
  "numeral_value cs = (if cs \<noteq> [] \<and> list_all is_digit cs then Some (decimal cs) else None)"

definition number_value :: "int_kind \<Rightarrow> byte list \<Rightarrow> int option" where
  "number_value k str =
     (if str = [] then None
      else if hd str = 45 then
        (if is_signed k then map_option uminus (numeral_value (tl str)) else None)
      else if hd str = 43 then numeral_value (tl str)
      else numeral_value str)"

text \<open>The result of a reader against the value it should read.\<close>

definition reads_as :: "int_kind \<Rightarrow> bool \<times> int \<Rightarrow> int option \<Rightarrow> bool" where
  "reads_as k result expected =
     (case expected of
        Some x \<Rightarrow> if fits k x then result = (True, x) else \<not> fst result
      | None \<Rightarrow> \<not> fst result)"

lemma digit_offset_cases: "uint (c - 48 :: byte) = (if uint c < 48 then uint c + 208 else uint c - 48)"
proof -
  have lo: "0 \<le> uint c" and hi: "uint c < 256" using uint_bounded [of c] by simp_all
  have "uint (c - 48) = (uint c - 48) mod 256" by (simp add: uint_word_ariths)
  also have "\<dots> = (if uint c < 48 then uint c + 208 else uint c - 48)"
  proof (cases "uint c < 48")
    case True
    have "(uint c - 48) mod 256 = (uint c + 208) mod 256"
      using mod_add_self2 [of "uint c - 48" 256] by (simp add: algebra_simps)
    then show ?thesis using True lo by simp
  next
    case False
    then show ?thesis using hi by simp
  qed
  finally show ?thesis .
qed

lemma digit_offset: "9 < uint (c - 48 :: byte) \<longleftrightarrow> \<not> is_digit c"
  unfolding digit_offset_cases is_digit_def by (smt (verit) uint_nonnegative)

lemma digit_offset_value: "is_digit c \<Longrightarrow> uint (c - 48 :: byte) = uint c - 48"
  by (simp add: digit_offset_cases is_digit_def)

lemma decimal_from_eq: "decimal_from acc cs = acc * 10 ^ length cs + decimal cs"
proof (induction cs arbitrary: acc)
  case (Cons c cs)
  show ?case
    by (simp add: decimal_def Cons.IH [of "acc * 10 + (uint c - 48)"] Cons.IH [of "uint c - 48"]
        distrib_right)
qed (simp add: decimal_def)

lemma decimal_from_ge:
  "0 \<le> v \<Longrightarrow> list_all is_digit cs \<Longrightarrow> v \<le> decimal_from v cs"
proof (induction cs arbitrary: v)
  case (Cons c cs)
  then have "v * 10 + (uint c - 48) \<le> decimal_from v (c # cs)" by (simp add: is_digit_def)
  with Cons.prems show ?case by (simp add: is_digit_def)
qed simp

text \<open>The guards of the loops are the test that the next value fits.\<close>

lemma guard_positive:
  assumes "0 \<le> v" and "0 \<le> d" and "d \<le> 9"
  shows "(v > greatest k div 10 \<or> (v = greatest k div 10 \<and> d > (greatest k - greatest k div 10 * 10) mod 256))
    \<longleftrightarrow> \<not> v * 10 + d \<le> greatest k"
  using assms by (cases k) (auto simp: greatest_def)

lemma guard_negative:
  assumes "v \<le> 0" and "0 \<le> d" and "d \<le> 9" and "is_signed k"
  shows "(v < - (greatest k div 10) \<or>
      (v = - (greatest k div 10) \<and> d > (- (least k + greatest k div 10 * 10)) mod 256))
    \<longleftrightarrow> \<not> least k \<le> v * 10 - d"
  using assms by (cases k) (auto simp: greatest_def least_def)

lemma read_positive_result:
  assumes "fits k v" and "0 \<le> v"
  shows "fst (read_positive k v cs) \<longleftrightarrow> list_all is_digit cs \<and> decimal_from v cs \<le> greatest k"
    and "fst (read_positive k v cs) \<Longrightarrow> read_positive k v cs = (True, decimal_from v cs)"
proof -
  have "(fst (read_positive k v cs) \<longleftrightarrow> list_all is_digit cs \<and> decimal_from v cs \<le> greatest k) \<and>
    (fst (read_positive k v cs) \<longrightarrow> read_positive k v cs = (True, decimal_from v cs))"
    using assms
  proof (induction k v cs rule: read_positive.induct)
    case (2 k v c cs)
    define d where "d = uint (c - 48)"
    show ?case
    proof (cases "is_digit c \<and> v * 10 + d \<le> greatest k")
      case True
      then have "d = uint c - 48" "0 \<le> d" "d \<le> 9"
        by (simp_all add: d_def digit_offset_value is_digit_def)
      moreover have "fits k (v * 10 + d)"
        using True 2 \<open>0 \<le> d\<close> by (simp add: fits_def)
      moreover have "read_positive k v (c # cs) = read_positive k (v * 10 + d) cs"
        using guard_positive [of v d k] True 2 calculation
        by (auto simp: d_def [symmetric] Let_def convert_fits)
      ultimately show ?thesis
        using 2 True guard_positive [of v d k] by (simp add: Let_def d_def [symmetric] convert_fits)
    next
      case False
      then have "\<not> fst (read_positive k v (c # cs))"
        using guard_positive [of v d k] 2 digit_offset [of c] by (auto simp: Let_def d_def)
      moreover have "\<not> (list_all is_digit (c # cs) \<and> decimal_from v (c # cs) \<le> greatest k)"
        using False decimal_from_ge [of "v * 10 + d" cs] 2
        by (auto simp: d_def digit_offset_value is_digit_def)
      ultimately show ?thesis by blast
    qed
  qed (simp add: fits_def)
  then show "fst (read_positive k v cs) \<longleftrightarrow> list_all is_digit cs \<and> decimal_from v cs \<le> greatest k"
    and "fst (read_positive k v cs) \<Longrightarrow> read_positive k v cs = (True, decimal_from v cs)"
    by blast+
qed

lemma read_negative_result:
  assumes "is_signed k" and "fits k (- v)" and "0 \<le> v"
  shows "fst (read_negative k (- v) cs) \<longleftrightarrow> list_all is_digit cs \<and> least k \<le> - decimal_from v cs"
    and "fst (read_negative k (- v) cs) \<Longrightarrow> read_negative k (- v) cs = (True, - decimal_from v cs)"
proof -
  have "(fst (read_negative k (- v) cs) \<longleftrightarrow> list_all is_digit cs \<and> least k \<le> - decimal_from v cs) \<and>
    (fst (read_negative k (- v) cs) \<longrightarrow> read_negative k (- v) cs = (True, - decimal_from v cs))"
    using assms
  proof (induction cs arbitrary: v)
    case (Cons c cs)
    define d where "d = uint (c - 48)"
    have lt: "least k \<le> 0" "0 \<le> greatest k" by (simp_all add: least_def greatest_def)
    show ?case
    proof (cases "is_digit c \<and> least k \<le> - v * 10 - d")
      case True
      then have d: "d = uint c - 48" "0 \<le> d" "d \<le> 9"
        by (simp_all add: d_def digit_offset_value is_digit_def)
      have f: "fits k (- (v * 10 + d))"
        using True Cons.prems d lt by (simp add: fits_def)
      have cf: "convert k (- v * 10 - d) = - (v * 10 + d)"
        using convert_fits [OF f] by simp
      have "read_negative k (- v) (c # cs) = read_negative k (- (v * 10 + d)) cs"
        unfolding read_negative.simps Let_def d_def [symmetric] cf
        using guard_negative [of "- v" d k] True Cons.prems d(2,3) by auto
      with d f show ?thesis
        using Cons.IH [of "v * 10 + d"] Cons.prems True by simp
    next
      case False
      then have "\<not> fst (read_negative k (- v) (c # cs))"
        using guard_negative [of "- v" d k] Cons.prems digit_offset [of c]
        by (auto simp: Let_def d_def)
      moreover have "\<not> (list_all is_digit (c # cs) \<and> least k \<le> - decimal_from v (c # cs))"
        using False decimal_from_ge [of "v * 10 + d" cs] Cons.prems
        by (auto simp: d_def digit_offset_value is_digit_def)
      ultimately show ?thesis by blast
    qed
  qed (simp add: fits_def)
  then show "fst (read_negative k (- v) cs) \<longleftrightarrow> list_all is_digit cs \<and> least k \<le> - decimal_from v cs"
    and "fst (read_negative k (- v) cs) \<Longrightarrow> read_negative k (- v) cs = (True, - decimal_from v cs)"
    by blast+
qed

lemma fits_zero [simp]: "fits k 0"
  by (simp add: fits_def least_def greatest_def)

lemma least_unsigned: "\<not> is_signed k \<Longrightarrow> least k = 0"
  by (simp add: least_def)

lemma least_nonpos [simp]: "least k \<le> 0" and greatest_nonneg [simp]: "0 \<le> greatest k"
  by (simp_all add: least_def greatest_def)

lemma read_positive_numeral:
  assumes "cs \<noteq> []"
  shows "reads_as k (read_positive k 0 cs) (numeral_value cs)"
proof (cases "list_all is_digit cs")
  case True
  have "0 \<le> decimal cs" using decimal_from_ge [OF _ True, of 0] by (simp add: decimal_def)
  then have "least k \<le> decimal cs" using least_nonpos [of k] by linarith
  then show ?thesis
    using assms True read_positive_result [of k 0 cs] by (simp add: reads_as_def numeral_value_def fits_def decimal_def)
next
  case False
  then show ?thesis using read_positive_result [of k 0 cs] by (auto simp: reads_as_def numeral_value_def)
qed

lemma read_negative_numeral:
  assumes "cs \<noteq> []" and "is_signed k"
  shows "reads_as k (read_negative k 0 cs) (map_option uminus (numeral_value cs))"
proof (cases "list_all is_digit cs")
  case True
  have "0 \<le> decimal cs" using decimal_from_ge [OF _ True, of 0] by (simp add: decimal_def)
  then have "- decimal cs \<le> greatest k" using greatest_nonneg [of k] by linarith
  then show ?thesis
    using assms True read_negative_result [of k 0 cs] by (simp add: reads_as_def numeral_value_def fits_def decimal_def)
next
  case False
  then show ?thesis using assms read_negative_result [of k 0 cs] by (auto simp: reads_as_def numeral_value_def)
qed

lemma str_to_int_number:
  "reads_as k (str_to_int k str val) (number_value k str)"
proof (cases str)
  case (Cons c cs)
  have refuses: "reads_as k (False, val) None" by (simp add: reads_as_def)
  have "numeral_value [] = None" by (simp add: numeral_value_def)
  with Cons show ?thesis
    using read_positive_numeral [of str k] read_positive_numeral [of cs k]
      read_negative_numeral [of cs k] refuses
    by (simp add: str_to_int_def number_value_def del: read_positive.simps read_negative.simps)
qed (simp add: reads_as_def str_to_int_def number_value_def)

text \<open>C31: \<open>str_to_int\<close> accepts exactly the decimal numbers in the range of its type, the least number of a
  signed type included: digits after an optional \<open>+\<close>, or after \<open>-\<close> for a signed type. It refuses
  everything else (the empty text, a sign alone, other characters, a number out of range).\<close>

theorem str_to_int_exact: "reads_as k (str_to_int k str val) (number_value k str)"
  by (rule str_to_int_number)

subsection \<open>Writing\<close>

text \<open>
  The digits from the last one, then the swaps that reverse them. A buffer that is too short for a write
  would be written past its end; here such a write is lost (\<open>xs[i := v]\<close> leaves the list), and the bounds
  theorem shows that it does not happen.
\<close>

function digits_from_last :: "int \<Rightarrow> byte list" where
  "digits_from_last val =
     word_of_int (48 + val mod 10) # (if val div 10 \<le> 0 then [] else digits_from_last (val div 10))"
  by auto
termination by (relation "measure nat") auto

declare digits_from_last.simps [simp del]

fun swap_ends :: "byte list \<Rightarrow> nat \<Rightarrow> nat \<Rightarrow> byte list" where
  "swap_ends xs i j = (if i < j then swap_ends (xs[i := xs ! j, j := xs ! i]) (i + 1) (j - 1) else xs)"

declare swap_ends.simps [simp del]

definition write_at :: "byte list \<Rightarrow> nat \<Rightarrow> byte list \<Rightarrow> byte list" where
  "write_at buffer at data = take at buffer @ take (length buffer - at) data @ drop (at + length data) buffer"

definition unsigned_convert :: "int \<Rightarrow> byte list \<Rightarrow> nat \<Rightarrow> byte list \<times> nat" where
  "unsigned_convert val buffer at =
     (let ds = digits_from_last val;
          n = length ds;
          written = write_at buffer at (ds @ [0])
      in (swap_ends written at (at + n - 1), n))"

definition signed_convert :: "int_kind \<Rightarrow> int \<Rightarrow> byte list \<Rightarrow> byte list \<times> nat" where
  "signed_convert k val buffer =
     (if val < - greatest k then (buffer, 0)
      else if val < 0 then
        (case unsigned_convert (- val) (write_at buffer 0 [45]) 1 of (buffer', n) \<Rightarrow> (buffer', n + 1))
      else unsigned_convert val buffer 0)"

definition int_to_str :: "int_kind \<Rightarrow> int \<Rightarrow> byte list \<Rightarrow> nat \<Rightarrow> byte list \<times> nat" where
  "int_to_str k val buffer sz =
     (if sz < digits10 k + 3 then (buffer, 0)
      else if is_signed k then signed_convert k val buffer
      else unsigned_convert val buffer 0)"

lemma decimal_snoc: "decimal (cs @ [c]) = decimal cs * 10 + (uint c - 48)"
proof -
  have "decimal_from acc (cs @ [c]) = decimal_from acc cs * 10 + (uint c - 48)" for acc
    by (induction cs arbitrary: acc) simp_all
  then show ?thesis by (simp add: decimal_def)
qed

lemma digit_byte:
  assumes "0 \<le> d" and "d \<le> 9"
  shows "is_digit (word_of_int (48 + d))" and "uint (word_of_int (48 + d) :: byte) = 48 + d"
proof -
  have "uint (word_of_int (48 + d) :: byte) = (48 + d) mod 2 ^ LENGTH(8)" by (rule uint_word_of_int)
  then show val: "uint (word_of_int (48 + d) :: byte) = 48 + d" using assms by simp
  show "is_digit (word_of_int (48 + d))" unfolding is_digit_def val using assms by simp
qed

lemma digits_value:
  assumes "0 \<le> val"
  shows "list_all is_digit (digits_from_last val)" and "decimal (rev (digits_from_last val)) = val"
    and "digits_from_last val \<noteq> []"
  using assms
proof (induction val rule: digits_from_last.induct)
  case (1 val)
  note step = digits_from_last.simps [of val]
  have d: "0 \<le> val mod 10" "val mod 10 \<le> 9" by simp_all
  {
    case 1
    then show ?case using "1.IH"(1) digit_byte(1) [OF d] by (subst step) simp
  next
    case 2
    show ?case
    proof (cases "val div 10 \<le> 0")
      case True
      with 2 have "val div 10 = 0" by simp
      then have "val mod 10 = val" by (metis div_mult_mod_eq add_0 mult_zero_left)
      then show ?thesis
        using True digit_byte(2) [OF d] by (subst step) (simp add: decimal_def)
    next
      case False
      then show ?thesis
        using 2 "1.IH"(2) digit_byte(2) [OF d] by (subst step) (simp add: decimal_snoc)
    qed
  next
    case 3
    show ?case by (subst step) simp
  }
qed

lemma digits_length:
  "0 \<le> val \<Longrightarrow> val < 10 ^ Suc n \<Longrightarrow> length (digits_from_last val) \<le> Suc n"
proof (induction n arbitrary: val)
  case 0
  then show ?case by (subst digits_from_last.simps) simp
next
  case (Suc n)
  have "val div 10 < 10 ^ Suc n" using Suc.prems by (simp add: div_less_iff_less_mult)
  with Suc show ?case by (subst digits_from_last.simps) (simp del: power_Suc)
qed

lemma swap_ends_reverses:
  "swap_ends (p @ xs @ q) (length p) (length p + length xs - 1) = p @ rev xs @ q"
proof (induction "length xs" arbitrary: p xs q rule: less_induct)
  case less
  consider "length xs \<le> 1" | x ys y where "xs = x # ys @ [y]"
    by (cases xs; cases "tl xs" rule: rev_cases) auto
  then show ?case
  proof cases
    case 1
    then have "\<not> length p < length p + length xs - 1" and "rev xs = xs"
      by (auto simp: le_Suc_eq length_Suc_conv)
    then show ?thesis by (subst swap_ends.simps) simp
  next
    case (2 x ys y)
    have "swap_ends ((p @ [y]) @ ys @ [x] @ q) (length (p @ [y])) (length (p @ [y]) + length ys - 1)
        = (p @ [y]) @ rev ys @ [x] @ q"
      by (rule less) (simp add: 2)
    moreover have "(p @ xs @ q) [length p := y, Suc (length p + length ys) := x] = (p @ [y]) @ ys @ [x] @ q"
      by (simp add: 2 list_update_append)
    ultimately show ?thesis
      by (subst swap_ends.simps) (simp add: 2 nth_append)
  qed
qed

lemma write_at_fits:
  "at + length data \<le> length buffer \<Longrightarrow>
   write_at buffer at data = take at buffer @ data @ drop (at + length data) buffer"
  by (simp add: write_at_def)

lemma unsigned_convert_result:
  assumes "at + length (digits_from_last val) < length buffer"
  shows "unsigned_convert val buffer at =
    (take at buffer @ rev (digits_from_last val) @ [0] @ drop (at + length (digits_from_last val) + 1) buffer,
     length (digits_from_last val))"
proof -
  have "write_at buffer at (digits_from_last val @ [0])
      = take at buffer @ digits_from_last val @ [0] @ drop (at + length (digits_from_last val) + 1) buffer"
    using assms by (simp add: write_at_fits)
  then show ?thesis
    using assms swap_ends_reverses [of "take at buffer" "digits_from_last val"]
    by (simp add: unsigned_convert_def Let_def min_def)
qed

text \<open>The text of a number, as a function of the number alone.\<close>

definition number_text :: "int \<Rightarrow> byte list" where
  "number_text val =
     (if val < 0 then 45 # rev (digits_from_last (- val)) else rev (digits_from_last val))"

lemma greatest_length: "greatest k < 10 ^ Suc (digits10 k)"
  by (cases k) (simp_all add: greatest_def digits10_def)

lemma fits_opposite:
  assumes "fits k val" and "val = least k \<longrightarrow> \<not> is_signed k"
  shows "- greatest k \<le> val" and "\<not> is_signed k \<Longrightarrow> 0 \<le> val"
proof -
  have "is_signed k \<Longrightarrow> least k = - greatest k - 1" by (simp add: least_def greatest_def)
  then show "- greatest k \<le> val"
    using assms least_unsigned [of k] greatest_nonneg [of k] by (cases "is_signed k") (simp_all add: fits_def)
  show "\<not> is_signed k \<Longrightarrow> 0 \<le> val" using assms(1) by (simp add: fits_def least_unsigned)
qed

lemma number_text_length:
  assumes "fits k val" and "val = least k \<longrightarrow> \<not> is_signed k"
  shows "length (number_text val) < digits10 k + 3"
proof -
  have "\<bar>val\<bar> \<le> greatest k"
    using fits_opposite [OF assms] assms(1) by (auto simp: fits_def)
  then have "\<bar>val\<bar> < 10 ^ Suc (digits10 k)" using greatest_length [of k] by linarith
  then have "length (digits_from_last \<bar>val\<bar>) \<le> Suc (digits10 k)" by (intro digits_length) auto
  then show ?thesis by (auto simp: number_text_def)
qed

lemma int_to_str_result:
  assumes "fits k val" and "val = least k \<longrightarrow> \<not> is_signed k"
    and "digits10 k + 3 \<le> sz" and "sz \<le> length buffer"
  shows "int_to_str k val buffer sz =
    (number_text val @ [0] @ drop (length (number_text val) + 1) buffer, length (number_text val))"
proof -
  have len: "length (number_text val) < length buffer"
    using number_text_length [OF assms(1,2)] assms(3,4) by linarith
  have signed: "is_signed k \<longrightarrow> \<not> val < - greatest k" and unsigned: "\<not> is_signed k \<longrightarrow> 0 \<le> val"
    using fits_opposite [OF assms(1,2)] by auto
  show ?thesis
  proof (cases "val < 0")
    case True
    then obtain b buffer' where "buffer = b # buffer'" using len by (cases buffer) auto
    with True show ?thesis
      using len assms(3) signed unsigned unsigned_convert_result [of 1 "- val" "45 # buffer'"]
      by (simp add: int_to_str_def signed_convert_def number_text_def write_at_def)
  next
    case False
    then show ?thesis
      using len assms(3) signed unsigned_convert_result [of 0 val buffer]
      by (simp add: int_to_str_def signed_convert_def number_text_def)
  qed
qed

text \<open>A buffer of \<open>digits10 + 3\<close> bytes is enough: \<open>int_to_str\<close> writes the text of the number and its
  zero inside it, leaves the rest of the buffer alone, and returns the length of the text, never 0.\<close>

theorem int_to_str_bounds:
  assumes "fits k val" and "val = least k \<longrightarrow> \<not> is_signed k"
    and "digits10 k + 3 \<le> sz" and "sz \<le> length buffer"
  shows "\<exists>txt. int_to_str k val buffer sz = (txt @ [0] @ drop (length txt + 1) buffer, length txt) \<and>
    0 < length txt \<and> length txt < digits10 k + 3"
proof -
  have "number_text val \<noteq> []"
    using digits_value(3) [of "\<bar>val\<bar>"] by (auto simp: number_text_def)
  then show ?thesis
    using int_to_str_result [OF assms] number_text_length [OF assms(1,2)] by blast
qed

theorem int_to_str_bounds_witness:
  "int_to_str I8 (- 127) [1, 1, 1, 1, 1] 5 = ([45, 49, 50, 55, 0], 4) \<and>
   (\<exists>txt. int_to_str I8 (- 127) [1, 1, 1, 1, 1] 5 = (txt @ [0] @ drop (length txt + 1) [1, 1, 1, 1, 1], length txt) \<and>
     0 < length txt \<and> length txt < digits10 I8 + 3)"
proof
  show "int_to_str I8 (- 127) [1, 1, 1, 1, 1] 5 = ([45, 49, 50, 55, 0], 4)" by code_simp
  show "\<exists>txt. int_to_str I8 (- 127) [1, 1, 1, 1, 1] 5 = (txt @ [0] @ drop (length txt + 1) [1, 1, 1, 1, 1], length txt) \<and>
     0 < length txt \<and> length txt < digits10 I8 + 3"
    by (rule int_to_str_bounds) (simp_all add: fits_def least_def greatest_def digits10_def)
qed

lemma number_text_value:
  assumes "fits k val" and "\<not> is_signed k \<Longrightarrow> 0 \<le> val"
  shows "number_value k (number_text val) = Some val"
proof (cases "val < 0")
  case True
  then show ?thesis
    using assms(2) digits_value [of "- val"]
    by (auto simp: number_value_def number_text_def numeral_value_def list_all_iff not_less)
next
  case False
  then have v: "list_all is_digit (rev (digits_from_last val))" "rev (digits_from_last val) \<noteq> []"
    and d: "decimal (rev (digits_from_last val)) = val"
    using digits_value [of val] by (simp_all add: list_all_iff)
  then have "is_digit (hd (rev (digits_from_last val)))" by (metis hd_in_set list_all_iff)
  then have "hd (rev (digits_from_last val)) \<noteq> 45" "hd (rev (digits_from_last val)) \<noteq> 43"
    by (auto simp: is_digit_def)
  with False v d show ?thesis
    by (simp add: number_value_def number_text_def numeral_value_def)
qed

text \<open>Reading back what was written gives the number, for every number of every integer type except the
  least one of a signed type; that one is refused (0 is returned and the buffer left alone) although
  \<open>str_to_int\<close> would read it.\<close>

theorem int_to_str_round_trip:
  assumes "fits k val" and "digits10 k + 3 \<le> sz" and "sz \<le> length buffer"
  shows "if is_signed k \<and> val = least k then int_to_str k val buffer sz = (buffer, 0)
    else case int_to_str k val buffer sz of
      (buffer', n) \<Rightarrow> buffer' ! n = 0 \<and> str_to_int k (take n buffer') start = (True, val)"
proof (cases "is_signed k \<and> val = least k")
  case True
  then show ?thesis
    using assms(2) by (simp add: int_to_str_def signed_convert_def least_def greatest_def)
next
  case False
  then have ok: "val = least k \<longrightarrow> \<not> is_signed k" by blast
  have "number_value k (number_text val) = Some val"
    using number_text_value [OF assms(1)] fits_opposite [OF assms(1) ok] by blast
  then have "str_to_int k (number_text val) start = (True, val)"
    using str_to_int_number [of k "number_text val" start] assms(1) by (simp add: reads_as_def)
  then show ?thesis
    unfolding int_to_str_result [OF assms(1) ok assms(2,3)] if_not_P [OF False]
    by (simp add: nth_append)
qed

theorem int_to_str_round_trip_witness:
  "fits U8 200 \<and> (case int_to_str U8 200 [1, 1, 1, 1, 1] 5 of
      (buffer', n) \<Rightarrow> buffer' ! n = 0 \<and> str_to_int U8 (take n buffer') 7 = (True, 200)) \<and>
   int_to_str I8 (- 128) [1, 1, 1, 1, 1] 5 = ([1, 1, 1, 1, 1], 0)"
  using int_to_str_round_trip [of U8 200 5 "[1, 1, 1, 1, 1]" 7]
    int_to_str_round_trip [of I8 "- 128" 5 "[1, 1, 1, 1, 1]" 7]
  by (simp add: fits_def least_def greatest_def digits10_def)

end
