(* ===== verification/TimeText.thy ===== *)
theory TimeText
  imports GearsCalendar GearsAscii GearsNumbers
begin

section \<open>Times as text (gears/Time.cpp, Time.hpp)\<close>

text \<open>
  \<open>ExtendedTime::to_str_\<close> writes the fields of a date under the control of a format, \<open>from_str_\<close> reads them back,
  and \<open>Time::set\<close>, \<open>set_f\<close>, \<open>set_ft\<close>, \<open>gm_f\<close>, \<open>gm_ft\<close> go from and to seconds. A format is the list of the
  characters before its zero. \<open>mktime\<close> is a parameter: the seconds it returns and the offset it sets.
  Indexing a table of names with a day or month outside it is a fault.

  What is written: the text and \<open>None\<close> where \<open>to_str_\<close> returns 0. What is read: an error text, or the date and
  the rest of the value, which the callers drop.
\<close>

subsection \<open>Names\<close>

definition DAYS_SHORT :: "caseless list" where
  "DAYS_SHORT = map (\<lambda>s. \<lparr>stored = ascii s\<rparr>) [''Sun'', ''Mon'', ''Tue'', ''Wed'', ''Thu'', ''Fri'', ''Sat'']"

definition DAYS_FULL :: "caseless list" where
  "DAYS_FULL = map (\<lambda>s. \<lparr>stored = ascii s\<rparr>)
     [''Sunday'', ''Monday'', ''Tuesday'', ''Wednesday'', ''Thursday'', ''Friday'', ''Saturday'']"

definition MONTHS_SHORT :: "caseless list" where
  "MONTHS_SHORT = map (\<lambda>s. \<lparr>stored = ascii s\<rparr>)
     [''Jan'', ''Feb'', ''Mar'', ''Apr'', ''May'', ''Jun'', ''Jul'', ''Aug'', ''Sep'', ''Oct'', ''Nov'', ''Dec'']"

definition MONTHS_FULL :: "caseless list" where
  "MONTHS_FULL = map (\<lambda>s. \<lparr>stored = ascii s\<rparr>)
     [''January'', ''February'', ''March'', ''April'', ''May'', ''June'', ''July'', ''August'', ''September'',
      ''October'', ''November'', ''December'']"

definition check_name :: "byte list \<Rightarrow> caseless \<Rightarrow> byte list option" where
  "check_name src cl = (if caseless_start cl False src then Some (drop (length (stored cl)) src) else None)"

definition check_names :: "byte list \<Rightarrow> caseless \<Rightarrow> caseless \<Rightarrow> byte list option" where
  "check_names src cl1 cl2 =
     (case check_name src cl1 of Some rest \<Rightarrow> Some rest | None \<Rightarrow> check_name src cl2)"

text \<open>The loop over a table of full names and one of short names: the index and the rest of the value.\<close>

fun find_name :: "nat \<Rightarrow> byte list \<Rightarrow> caseless list \<Rightarrow> caseless list \<Rightarrow> (nat \<times> byte list) option" where
  "find_name i src (full # fulls) (short # shorts) =
     (case check_names src full short of
        Some rest \<Rightarrow> Some (i, rest)
      | None \<Rightarrow> find_name (i + 1) src fulls shorts)"
| "find_name i src _ _ = None"

text \<open>\<open>Time::month\<close> and \<open>Time::week_day\<close>.\<close>

fun index_of_name :: "nat \<Rightarrow> byte list \<Rightarrow> caseless list \<Rightarrow> caseless list \<Rightarrow> nat option" where
  "index_of_name i name (cl1 # cls1) (cl2 # cls2) =
     (if caseless_equal cl1 False name \<or> caseless_equal cl2 False name then Some i
      else index_of_name (i + 1) name cls1 cls2)"
| "index_of_name i name _ _ = None"

definition month_index :: "byte list \<Rightarrow> time_error + nat" where
  "month_index mon =
     (if mon = [] then Inl Time_Invalid_Argument
      else case index_of_name 0 mon MONTHS_SHORT MONTHS_SHORT of
          Some i \<Rightarrow> Inr i
        | None \<Rightarrow> Inl Time_Invalid_Argument)"

definition month_name :: "nat \<Rightarrow> time_error + byte list" where
  "month_name month =
     (if month > 11 then Inl Time_Invalid_Argument else Inr (stored (MONTHS_SHORT ! month)))"

definition week_day_index :: "byte list \<Rightarrow> time_error + nat" where
  "week_day_index day =
     (if day = [] then Inl Time_Invalid_Argument
      else case index_of_name 0 day DAYS_SHORT DAYS_FULL of
          Some i \<Rightarrow> Inr i
        | None \<Rightarrow> Inl Time_Invalid_Argument)"

definition week_day_name :: "nat \<Rightarrow> time_error + byte list" where
  "week_day_name day =
     (if day > 6 then Inl Time_Invalid_Argument else Inr (stored (DAYS_SHORT ! day)))"

subsection \<open>Reading\<close>

text \<open>The loop of \<open>read_number\<close>: how many digits were left to read, the number, the rest.\<close>

fun read_digits :: "nat \<Rightarrow> int \<Rightarrow> byte list \<Rightarrow> (nat \<times> int \<times> byte list) outcome" where
  "read_digits left number [] = Inl Out_Of_Bounds"
| "read_digits left number (c # src) =
     (let number' = number * 10 + (sint c - 48); left' = left - 1 in
      if left' = 0 then Inr (0, number', src)
      else case src of
          [] \<Rightarrow> Inl Out_Of_Bounds
        | d # _ \<Rightarrow> if in_table NUMBER d then read_digits left' number' src else Inr (left', number', src))"

definition read_number :: "nat \<Rightarrow> bool \<Rightarrow> byte list \<Rightarrow> (int \<times> byte list) option outcome" where
  "read_number digits strict src =
     (if src = [] \<or> \<not> in_table NUMBER (hd src) \<or> strict \<and> length src < digits then Inr None
      else bind_sum (read_digits (min digits (length src)) 0 src) (\<lambda>(left, number, rest).
        Inr (if \<not> strict \<or> left = 0 then Some (number, rest) else None)))"

type_synonym parse_result = "string + extended_time \<times> byte list"

definition number_field ::
  "nat \<Rightarrow> bool \<Rightarrow> byte list \<Rightarrow> (int \<Rightarrow> bool) \<Rightarrow> (int \<Rightarrow> extended_time) \<Rightarrow> string \<Rightarrow> parse_result outcome" where
  "number_field digits strict v allowed store error =
     bind_sum (read_number digits strict v) (\<lambda>r.
       Inr (case r of
              None \<Rightarrow> Inl error
            | Some (n, rest) \<Rightarrow> if allowed n then Inr (store n, rest) else Inl error))"

definition from_directive :: "bool \<Rightarrow> char \<Rightarrow> byte list \<Rightarrow> extended_time \<Rightarrow> parse_result outcome" where
  "from_directive strict c v et =
     (if c = CHR ''%'' then
        Inr (if v = [] \<or> hd v \<noteq> of_char CHR ''%'' then Inl ''% sign is expected but not found''
             else Inr (et, tl v))
      else if c \<in> {CHR ''a'', CHR ''A''} then
        Inr (case find_name 0 v DAYS_FULL DAYS_SHORT of
               None \<Rightarrow> Inl ''weekday name is expected but not found''
             | Some (wd, rest) \<Rightarrow> Inr (et, rest))
      else if c \<in> {CHR ''b'', CHR ''B'', CHR ''h''} then
        Inr (case find_name 0 v MONTHS_FULL MONTHS_SHORT of
               None \<Rightarrow> Inl ''month name is expected but not found''
             | Some (m, rest) \<Rightarrow> Inr (et\<lparr>tm_mon := int m\<rparr>, rest))
      else if c \<in> {CHR ''d'', CHR ''e''} then
        number_field 2 strict v (\<lambda>n. 1 \<le> n \<and> n \<le> 31) (\<lambda>n. et\<lparr>tm_mday := n\<rparr>)
          ''day of month expected but not found''
      else if c = CHR ''H'' then
        number_field 2 strict v (\<lambda>n. n \<le> 23) (\<lambda>n. et\<lparr>tm_hour := n\<rparr>) ''hours expected but not found''
      else if c = CHR ''m'' then
        number_field 2 strict v (\<lambda>n. 1 \<le> n \<and> n \<le> 12) (\<lambda>n. et\<lparr>tm_mon := n - 1\<rparr>)
          ''month number expected but not found''
      else if c = CHR ''M'' then
        number_field 2 strict v (\<lambda>n. n \<le> 59) (\<lambda>n. et\<lparr>tm_min := n\<rparr>) ''minutes expected but not found''
      else if c = CHR ''q'' then
        number_field 6 strict v (\<lambda>n. n < USEC_MAX) (\<lambda>n. et\<lparr>tm_usec := n\<rparr>)
          ''microseconds expected but not found''
      else if c = CHR ''S'' then
        number_field 2 strict v (\<lambda>n. n \<le> 59) (\<lambda>n. et\<lparr>tm_sec := n\<rparr>) ''seconds expected but not found''
      else if c = CHR ''Y'' then
        number_field 4 strict v (\<lambda>n. 1970 \<le> n) (\<lambda>n. et\<lparr>tm_year := n - 1900\<rparr>)
          ''year expected but not found''
      else Inr (Inl ''unknown format specifier''))"

fun from_str :: "bool \<Rightarrow> string \<Rightarrow> byte list \<Rightarrow> extended_time \<Rightarrow> parse_result outcome" where
  "from_str strict [] v et = Inr (Inr (et, v))"
| "from_str strict [f] v et =
     (if f = CHR ''%'' then Inr (Inl ''unknown format specifier'')
      else if \<not> strict \<and> in_table SPACE (of_char f) then Inr (Inr (et, dropWhile (in_table SPACE) v))
      else if v = [] \<or> hd v \<noteq> of_char f then Inr (Inl ''character is expected but not found'')
      else Inr (Inr (et, tl v)))"
| "from_str strict (f # c # fmt) v et =
     (if f = CHR ''%'' then
        bind_sum (from_directive strict c v et) (\<lambda>r.
          case r of Inl e \<Rightarrow> Inr (Inl e) | Inr (et', rest) \<Rightarrow> from_str strict fmt rest et')
      else if \<not> strict \<and> in_table SPACE (of_char f) then
        from_str strict (c # fmt) (dropWhile (in_table SPACE) v) et
      else if v = [] \<or> hd v \<noteq> of_char f then Inr (Inl ''character is expected but not found'')
      else from_str strict (c # fmt) (tl v) et)"

subsection \<open>Writing\<close>

definition add_str :: "nat \<Rightarrow> byte list \<Rightarrow> byte list \<Rightarrow> byte list option" where
  "add_str len written src = (if length written + length src > len then None else Some (written @ src))"

definition add_num :: "int_kind \<Rightarrow> nat \<Rightarrow> byte list \<Rightarrow> int \<Rightarrow> byte list option" where
  "add_num k len written number =
     (case int_to_str k number (replicate 64 0) 64 of
        (buf, ns) \<Rightarrow> if ns = 0 then None else add_str len written (take ns buf))"

fun fixed_digits :: "nat \<Rightarrow> int \<Rightarrow> byte list \<Rightarrow> byte list" where
  "fixed_digits 0 number buf = buf"
| "fixed_digits (Suc i) number buf =
     fixed_digits i (number sdiv 10) (word_of_int (number smod 10 + 48) # buf)"

definition add_num_fixed :: "nat \<Rightarrow> nat \<Rightarrow> byte list \<Rightarrow> int \<Rightarrow> byte list option" where
  "add_num_fixed digits len written number = add_str len written (fixed_digits digits number [])"

definition name_at :: "caseless list \<Rightarrow> int \<Rightarrow> byte list outcome" where
  "name_at names i =
     (if 0 \<le> i \<and> i < int (length names) then Inr (stored (names ! nat i)) else Inl Out_Of_Bounds)"

type_synonym mktime_fun = "tm \<Rightarrow> int \<times> int"

text \<open>The offset of the local time zone.\<close>

definition add_zone :: "mktime_fun \<Rightarrow> extended_time \<Rightarrow> nat \<Rightarrow> byte list \<Rightarrow> byte list option" where
  "add_zone mktime et len written =
     (if timezone et = TZ_GMT then add_str len written (ascii ''+0000'')
      else case mktime (tm.truncate et) of
             (res, gmtoff) \<Rightarrow>
               if res = - 1 then None
               else (case add_str len written [if gmtoff < 0 then 45 else 43] of
                   None \<Rightarrow> None
                 | Some written' \<Rightarrow>
                     let diff = (if gmtoff < 0 then - gmtoff else gmtoff) sdiv 60
                     in add_num_fixed 4 len written' (diff sdiv 60 * 100 + diff smod 60)))"

text \<open>The conversions other than \<open>%F\<close> and \<open>%T\<close>.\<close>

definition to_field :: "mktime_fun \<Rightarrow> extended_time \<Rightarrow> nat \<Rightarrow> char \<Rightarrow> byte list \<Rightarrow> byte list option outcome" where
  "to_field mktime et len c written =
     (if c = CHR ''%'' then Inr (if len = length written then None else Some (written @ [of_char CHR ''%'']))
      else if c = CHR ''a'' then bind_sum (name_at DAYS_SHORT (tm_wday et)) (\<lambda>s. Inr (add_str len written s))
      else if c = CHR ''A'' then bind_sum (name_at DAYS_FULL (tm_wday et)) (\<lambda>s. Inr (add_str len written s))
      else if c \<in> {CHR ''b'', CHR ''h''} then
        bind_sum (name_at MONTHS_SHORT (tm_mon et)) (\<lambda>s. Inr (add_str len written s))
      else if c = CHR ''B'' then bind_sum (name_at MONTHS_FULL (tm_mon et)) (\<lambda>s. Inr (add_str len written s))
      else if c = CHR ''d'' then Inr (add_num_fixed 2 len written (tm_mday et))
      else if c = CHR ''e'' then
        let t = tm_mday et sdiv 10 in
        Inr (add_str len written [if t \<noteq> 0 then word_of_int (t + 48) else 32, word_of_int (tm_mday et smod 10 + 48)])
      else if c = CHR ''H'' then Inr (add_num_fixed 2 len written (tm_hour et))
      else if c = CHR ''k'' then Inr (add_num I32 len written (tm_hour et))
      else if c = CHR ''m'' then Inr (add_num_fixed 2 len written (tm_mon et + 1))
      else if c = CHR ''M'' then Inr (add_num_fixed 2 len written (tm_min et))
      else if c = CHR ''q'' then Inr (add_num_fixed 6 len written (tm_usec et))
      else if c = CHR ''s'' then
        bind_sum (extended_to_time (\<lambda>d. fst (mktime d)) et) (\<lambda>tv. Inr (add_num I64 len written (tv_sec tv)))
      else if c = CHR ''S'' then Inr (add_num_fixed 2 len written (tm_sec et))
      else if c = CHR ''Y'' then Inr (add_num_fixed 4 len written (tm_year et + 1900))
      else if c = CHR ''z'' then Inr (add_zone mktime et len written)
      else Inr None)"

text \<open>The loop over the format, for what a conversion does.\<close>

fun to_str_loop ::
  "(char \<Rightarrow> byte list \<Rightarrow> byte list option outcome) \<Rightarrow> nat \<Rightarrow> string \<Rightarrow> byte list \<Rightarrow> byte list option outcome" where
  "to_str_loop directive len [] written = Inr (Some written)"
| "to_str_loop directive len [f] written =
     (if f = CHR ''%'' \<or> len = length written then Inr None else Inr (Some (written @ [of_char f])))"
| "to_str_loop directive len (f # c # fmt) written =
     (if f = CHR ''%'' then
        bind_sum (directive c written) (\<lambda>r.
          case r of None \<Rightarrow> Inr None | Some written' \<Rightarrow> to_str_loop directive len fmt written')
      else if len = length written then Inr None
      else to_str_loop directive len (c # fmt) (written @ [of_char f]))"

text \<open>\<open>%F\<close> and \<open>%T\<close> call \<open>to_str_\<close> again with formats that have neither.\<close>

definition to_nested :: "mktime_fun \<Rightarrow> extended_time \<Rightarrow> nat \<Rightarrow> string \<Rightarrow> byte list \<Rightarrow> byte list option outcome" where
  "to_nested mktime et len fmt written =
     bind_sum (to_str_loop (to_field mktime et (len - length written)) (len - length written) fmt []) (\<lambda>r.
       Inr (case r of
              None \<Rightarrow> None
            | Some res \<Rightarrow> if length res = 0 then None else Some (written @ res)))"

definition to_directive :: "mktime_fun \<Rightarrow> extended_time \<Rightarrow> nat \<Rightarrow> char \<Rightarrow> byte list \<Rightarrow> byte list option outcome" where
  "to_directive mktime et len c written =
     (if c = CHR ''F'' then to_nested mktime et len ''%Y-%m-%d'' written
      else if c = CHR ''T'' then to_nested mktime et len ''%H:%M:%S'' written
      else to_field mktime et len c written)"

definition to_str :: "mktime_fun \<Rightarrow> extended_time \<Rightarrow> nat \<Rightarrow> string \<Rightarrow> byte list option outcome" where
  "to_str mktime et len fmt = to_str_loop (to_directive mktime et len) len fmt []"

definition time_fault :: "'a outcome \<Rightarrow> time_error + 'a" where
  "time_fault r = (case r of Inl f \<Rightarrow> Inl (Time_Fault f) | Inr x \<Rightarrow> Inr x)"

definition format_time_text :: "mktime_fun \<Rightarrow> extended_time \<Rightarrow> string option \<Rightarrow> time_error + byte list" where
  "format_time_text mktime et fmt =
     (case fmt of
        None \<Rightarrow> Inl Time_Invalid_Argument
      | Some f \<Rightarrow>
          bind_sum (time_fault (to_str mktime et 256 f)) (\<lambda>r.
            case r of
              None \<Rightarrow> Inl Time_Exception
            | Some s \<Rightarrow> if length s = 0 then Inl Time_Exception else Inr s))"

subsection \<open>\<open>Time\<close>\<close>

text \<open>\<open>Time::set\<close> parses into the beginning of the epoch and converts it, dropping the rest of the value.\<close>

definition time_set_text :: "mktime_fun \<Rightarrow> byte list \<Rightarrow> string option \<Rightarrow> bool \<Rightarrow> time_error + timeval" where
  "time_set_text mktime value format strict =
     (case format of
        None \<Rightarrow> Inl Time_Invalid_Argument
      | Some fmt \<Rightarrow>
          bind_sum (time_fault (from_str strict fmt value (extended_of_tm (time_to_gm 0) 0 TZ_GMT))) (\<lambda>r.
            case r of
              Inl e \<Rightarrow> Inl Time_Exception
            | Inr (et, rest) \<Rightarrow> time_fault (extended_to_time (\<lambda>d. fst (mktime d)) et)))"

definition set_f :: "mktime_fun \<Rightarrow> byte list \<Rightarrow> bool \<Rightarrow> time_error + timeval" where
  "set_f mktime value strict = time_set_text mktime value (Some ''%Y-%m-%d'') strict"

definition set_ft :: "mktime_fun \<Rightarrow> byte list \<Rightarrow> bool \<Rightarrow> time_error + timeval" where
  "set_ft mktime value strict = time_set_text mktime value (Some ''%Y-%m-%d %H:%M:%S'') strict"

definition gm_f :: "(int \<Rightarrow> tm option) \<Rightarrow> mktime_fun \<Rightarrow> timeval \<Rightarrow> time_error + byte list" where
  "gm_f localtime_r mktime tv =
     bind_sum (time_get_gm_time localtime_r tv) (\<lambda>et. format_time_text mktime et (Some ''%F''))"

definition gm_ft :: "(int \<Rightarrow> tm option) \<Rightarrow> mktime_fun \<Rightarrow> timeval \<Rightarrow> time_error + byte list" where
  "gm_ft localtime_r mktime tv =
     bind_sum (time_get_gm_time localtime_r tv) (\<lambda>et. format_time_text mktime et (Some ''%F %T''))"

subsection \<open>Numbers of fixed width\<close>

lemma fixed_digits_append: "fixed_digits k n buf = fixed_digits k n [] @ buf"
proof (induction k arbitrary: n buf)
  case (Suc k)
  then show ?case
    by (metis append.assoc append_Cons append_Nil fixed_digits.simps(2))
qed simp

lemma fixed_digits_Suc:
  "0 \<le> n \<Longrightarrow> fixed_digits (Suc k) n [] = fixed_digits k (n div 10) [] @ [word_of_int (48 + n mod 10)]"
  by (subst fixed_digits.simps, subst fixed_digits_append)
    (simp add: sdiv_nonneg smod_nonneg add.commute)

lemma fixed_digits_length [simp]: "length (fixed_digits k n []) = k"
proof (induction k arbitrary: n)
  case (Suc k)
  then show ?case by (subst fixed_digits.simps, subst fixed_digits_append) simp
qed simp

declare fixed_digits.simps(2) [simp del]

lemma fixed_digits_digit: "0 \<le> n \<Longrightarrow> list_all is_digit (fixed_digits k n [])"
proof (induction k arbitrary: n)
  case (Suc k)
  then show ?case
    using digit_byte(1) [of "n mod 10"] by (simp add: fixed_digits_Suc pos_imp_zdiv_nonneg_iff)
qed simp

lemma fixed_digits_value: "0 \<le> n \<Longrightarrow> n < 10 ^ k \<Longrightarrow> decimal (fixed_digits k n []) = n"
proof (induction k arbitrary: n)
  case 0
  then show ?case by (simp add: decimal_def)
next
  case (Suc k)
  have "n div 10 < 10 ^ k" using Suc.prems(2) by (simp add: div_less_iff_less_mult mult.commute)
  then show ?case
    using Suc digit_byte(2) [of "n mod 10"]
    by (simp add: fixed_digits_Suc decimal_snoc pos_imp_zdiv_nonneg_iff)
qed

lemma digit_sint: "is_digit c \<Longrightarrow> sint c = uint c"
  by (simp add: is_digit_def sint_uint signed_take_bit_int_eq_self)

lemma digit_unat: "is_digit c \<longleftrightarrow> 48 \<le> unat c \<and> unat c \<le> 57"
proof -
  have u: "uint c = int (unat c)" by simp
  show ?thesis unfolding is_digit_def u by linarith
qed

lemma number_is_digit: "in_table NUMBER c \<longleftrightarrow> is_digit c"
  unfolding category_tables in_table_map digit_unat by (rule refl)

lemma digit_not_space: "is_digit c \<Longrightarrow> \<not> in_table SPACE c"
  unfolding SPACE_def char_table_of_predicate_def in_table_map isspace_def digit_unat by linarith

lemma read_digits_text:
  "ds \<noteq> [] \<Longrightarrow> list_all is_digit ds \<Longrightarrow>
   read_digits (length ds) acc (ds @ rest) = Inr (0, decimal_from acc ds, rest)"
proof (induction ds arbitrary: acc)
  case (Cons c ds)
  then show ?case by (cases ds) (simp_all add: digit_sint number_is_digit)
qed simp

lemma read_number_text:
  assumes "0 \<le> n" and "n < 10 ^ k" and "0 < k"
  shows "read_number k strict (fixed_digits k n [] @ rest) = Inr (Some (n, rest))"
proof -
  define ds where "ds = fixed_digits k n []"
  have ds: "ds \<noteq> []" "list_all is_digit ds" "length ds = k" "decimal_from 0 ds = n"
    using assms fixed_digits_digit [of n k] fixed_digits_value [of n k] fixed_digits_length [of k n]
    by (auto simp: ds_def decimal_def simp del: fixed_digits_length)
  then have "is_digit (hd (ds @ rest))" by (cases ds) auto
  then have "read_number k strict (ds @ rest) = Inr (Some (n, rest))"
    using read_digits_text [OF ds(1,2), of 0 rest] ds(1,3,4)
    by (simp add: read_number_def number_is_digit)
  then show ?thesis by (simp only: ds_def)
qed

lemma number_field_text:
  assumes "0 \<le> n" and "n < 10 ^ k" and "0 < k"
  shows "number_field k strict (fixed_digits k n [] @ rest) allowed store error =
    Inr (if allowed n then Inr (store n, rest) else Inl error)"
  using read_number_text [OF assms] by (simp add: number_field_def)

lemma number_not_space:
  assumes "0 \<le> n" and "0 < k"
  shows "dropWhile (in_table SPACE) (fixed_digits k n [] @ rest) = fixed_digits k n [] @ rest"
proof -
  have "list_all is_digit (fixed_digits k n [])" "fixed_digits k n [] \<noteq> []"
    using assms fixed_digits_digit fixed_digits_length [of k n] by (auto simp del: fixed_digits_length)
  then show ?thesis by (cases "fixed_digits k n []") (auto simp: digit_not_space)
qed

subsection \<open>The bound of the buffer\<close>

lemma add_str_bound: "add_str len w s = Some w' \<Longrightarrow> length w' \<le> len"
  by (auto simp: add_str_def split: if_splits)

lemma add_num_bound: "add_num k len w n = Some w' \<Longrightarrow> length w' \<le> len"
  by (auto simp: add_num_def split: prod.splits if_splits dest: add_str_bound)

lemma to_field_bound:
  assumes "to_field mktime et len c w = Inr (Some w')" and "length w \<le> len"
  shows "length w' \<le> len"
  using assms
  by (auto simp: to_field_def add_num_fixed_def add_zone_def Let_def bind_sum_Inr_iff
      split: if_splits time_zone.splits prod.splits option.splits dest: add_str_bound add_num_bound)

definition within :: "nat \<Rightarrow> (char \<Rightarrow> byte list \<Rightarrow> byte list option outcome) \<Rightarrow> bool" where
  "within len directive \<longleftrightarrow>
     (\<forall>c w w'. length w \<le> len \<longrightarrow> directive c w = Inr (Some w') \<longrightarrow> length w' \<le> len)"

lemma to_str_loop_bound:
  "within len directive \<Longrightarrow> length w \<le> len \<Longrightarrow> to_str_loop directive len fmt w = Inr (Some w') \<Longrightarrow>
   length w' \<le> len"
proof (induction directive len fmt w rule: to_str_loop.induct)
  case (3 directive len f c fmt w)
  show ?case
  proof (cases "f = CHR ''%''")
    case True
    then obtain y where y: "directive c w = Inr (Some y)" "to_str_loop directive len fmt y = Inr (Some w')"
      using "3.prems"(3) by (auto simp: bind_sum_Inr_iff split: option.splits)
    have "length y \<le> len" using "3.prems"(1,2) y(1) unfolding within_def by blast
    then show ?thesis using "3.IH"(1) True y "3.prems"(1) by blast
  next
    case False
    then show ?thesis using "3.IH"(2) "3.prems" by (auto split: if_splits)
  qed
qed (auto split: if_splits)

lemma to_field_within: "within len (to_field mktime et len)"
  using to_field_bound by (auto simp: within_def)

lemma to_directive_bound:
  assumes "to_directive mktime et len c w = Inr (Some w')" and "length w \<le> len"
  shows "length w' \<le> len"
proof -
  have nested: "length w' \<le> len" if n: "to_nested mktime et len fmt w = Inr (Some w')" for fmt
  proof -
    obtain res where res: "to_str_loop (to_field mktime et (len - length w)) (len - length w) fmt [] = Inr (Some res)"
      "w' = w @ res"
      using n by (auto simp: to_nested_def bind_sum_Inr_iff split: option.splits if_splits)
    then have "length res \<le> len - length w"
      using to_str_loop_bound [OF to_field_within _ res(1)] by simp
    then show ?thesis using res(2) assms(2) by simp
  qed
  then show ?thesis
    using assms to_field_bound by (auto simp: to_directive_def split: if_splits)
qed

lemma to_str_bound: "to_str mktime et len fmt = Inr (Some w) \<Longrightarrow> length w \<le> len"
  using to_str_loop_bound [of len "to_directive mktime et len" "[]"] to_directive_bound
  by (auto simp: to_str_def within_def)

text \<open>Whatever the format and the date, \<open>to_str_\<close> writes no more than the length of its buffer, nested formats
  included, and \<open>format\<close> gives at least one and at most 256 bytes.\<close>

theorem time_text_fits_buffer:
  assumes "to_str mktime et len fmt = Inr (Some w)"
    and "format_time_text mktime et (Some fmt') = Inr s"
  shows "length w \<le> len \<and> s \<noteq> [] \<and> length s \<le> 256"
proof -
  have "to_str mktime et 256 fmt' = Inr (Some s)" "s \<noteq> []"
    using assms(2) by (auto simp: format_time_text_def time_fault_def bind_sum_Inr_iff
        split: sum.splits option.splits if_splits)
  then show ?thesis using to_str_bound assms(1) by blast
qed

theorem time_text_fits_buffer_witness:
  "\<exists>w s. to_str (\<lambda>_. (0, 0)) (extended_of_tm (time_to_gm 0) 0 TZ_GMT) 4 ''%Y'' = Inr (Some w) \<and> length w \<le> 4 \<and>
    format_time_text (\<lambda>_. (0, 0)) (extended_of_tm (time_to_gm 0) 0 TZ_GMT) (Some ''%a'') = Inr s \<and> length s \<le> 256"
proof -
  let ?et = "extended_of_tm (time_to_gm 0) 0 TZ_GMT"
  have t: "to_str (\<lambda>_. (0, 0)) ?et 4 ''%Y'' = Inr (Some (ascii ''1970''))"
    "format_time_text (\<lambda>_. (0, 0)) ?et (Some ''%a'') = Inr (ascii ''Thu'')"
    by code_simp+
  from time_text_fits_buffer [OF t] t show ?thesis by blast
qed
subsection \<open>Dates written and read back\<close>

definition date_digits :: "tm \<Rightarrow> byte list" where
  "date_digits d = fixed_digits 4 (tm_year d + 1900) [] @ [45] @ fixed_digits 2 (tm_mon d + 1) [] @ [45] @
     fixed_digits 2 (tm_mday d) []"

definition clock_digits :: "tm \<Rightarrow> byte list" where
  "clock_digits d = fixed_digits 2 (tm_hour d) [] @ [58] @ fixed_digits 2 (tm_min d) [] @ [58] @
     fixed_digits 2 (tm_sec d) []"

lemma extended_fields [simp]:
  "tm_year (extended_of_tm d u tz) = tm_year d" "tm_mon (extended_of_tm d u tz) = tm_mon d"
  "tm_mday (extended_of_tm d u tz) = tm_mday d" "tm_hour (extended_of_tm d u tz) = tm_hour d"
  "tm_min (extended_of_tm d u tz) = tm_min d" "tm_sec (extended_of_tm d u tz) = tm_sec d"
  "tm_usec (extended_of_tm d u tz) = u" "timezone (extended_of_tm d u tz) = tz"
  by (simp_all add: extended_of_tm_def tm.defs)

lemma add_fixed_ok:
  "length w + k \<le> len \<Longrightarrow> add_num_fixed k len w n = Some (w @ fixed_digits k n [])"
  by (simp add: add_num_fixed_def add_str_def)

lemma format_date: "format_time_text mktime (extended_of_tm d u tz) (Some ''%F'') = Inr (date_digits d)"
  by (simp add: format_time_text_def time_fault_def to_str_def to_directive_def to_nested_def to_field_def
      add_fixed_ok date_digits_def)

lemma format_date_clock:
  "format_time_text mktime (extended_of_tm d u tz) (Some ''%F %T'') = Inr (date_digits d @ [32] @ clock_digits d)"
  by (simp add: format_time_text_def time_fault_def to_str_def to_directive_def to_nested_def to_field_def
      add_fixed_ok date_digits_def clock_digits_def)

definition with_date :: "tm \<Rightarrow> extended_time \<Rightarrow> extended_time" where
  "with_date d et = et\<lparr>tm_year := tm_year d, tm_mon := tm_mon d, tm_mday := tm_mday d\<rparr>"

definition with_clock :: "tm \<Rightarrow> extended_time \<Rightarrow> extended_time" where
  "with_clock d et = et\<lparr>tm_hour := tm_hour d, tm_min := tm_min d, tm_sec := tm_sec d\<rparr>"

lemma valid_month_day:
  assumes "valid_date d"
  shows "tm_mday d \<le> 31"
proof -
  have "\<forall>leap < 2. \<forall>m < 12. days_in_month leap m \<le> 31" by code_simp
  then have "days_in_month (leap_index (tm_year d - 70)) (nat (tm_mon d)) \<le> 31"
    using assms by (auto simp: valid_date_def)
  then show ?thesis using assms by (simp add: valid_date_def)
qed

lemma colon_dash_not_space: "\<not> in_table SPACE 45" "\<not> in_table SPACE 58" "in_table SPACE 32"
  unfolding SPACE_def char_table_of_predicate_def in_table_map isspace_def by simp_all

lemma read_date:
  assumes "valid_date d" and "tm_year d < 8100"
  shows "from_str strict (''%Y-%m-%d'' @ fmt) (date_digits d @ rest) et = from_str strict fmt rest (with_date d et)"
proof -
  have d: "1970 \<le> tm_year d + 1900" "tm_year d + 1900 < 10 ^ 4" "0 \<le> tm_year d + 1900"
    "0 \<le> tm_mon d + 1" "1 \<le> tm_mon d + 1" "tm_mon d + 1 \<le> 12" "tm_mon d + 1 < 10 ^ 2"
    "0 \<le> tm_mday d" "1 \<le> tm_mday d" "tm_mday d \<le> 31" "tm_mday d < 10 ^ 2"
    using assms valid_month_day [OF assms(1)] by (auto simp: valid_date_def)
  note fields = number_field_text [OF d(3) d(2)] number_field_text [OF d(4) d(7)] number_field_text [OF d(8) d(11)]
  show ?thesis
    using d by (cases fmt) (simp_all add: date_digits_def from_directive_def fields with_date_def colon_dash_not_space)
qed

lemma read_clock:
  assumes "valid_date d"
  shows "from_str strict (''%H:%M:%S'' @ fmt) (clock_digits d @ rest) et = from_str strict fmt rest (with_clock d et)"
proof -
  have d: "0 \<le> tm_hour d" "tm_hour d \<le> 23" "tm_hour d < 10 ^ 2" "0 \<le> tm_min d" "tm_min d \<le> 59" "tm_min d < 10 ^ 2"
    "0 \<le> tm_sec d" "tm_sec d \<le> 59" "tm_sec d < 10 ^ 2"
    using assms by (auto simp: valid_date_def)
  note fields = number_field_text [OF d(1) d(3)] number_field_text [OF d(4) d(6)] number_field_text [OF d(7) d(9)]
  show ?thesis
    using d by (cases fmt) (simp_all add: clock_digits_def from_directive_def fields with_clock_def colon_dash_not_space)
qed


lemma space_before_clock:
  assumes "valid_date d"
  shows "from_str strict (CHR '' '' # ''%H:%M:%S'') ([32] @ clock_digits d @ rest) et =
    from_str strict ''%H:%M:%S'' (clock_digits d @ rest) et"
proof -
  have "0 \<le> tm_hour d" using assms by (simp add: valid_date_def)
  then have "dropWhile (in_table SPACE) (clock_digits d @ rest) = clock_digits d @ rest"
    by (simp add: clock_digits_def number_not_space)
  then show ?thesis by (cases strict) (simp_all add: colon_dash_not_space)
qed

lemma epoch_fields:
  fixes et :: extended_time
  assumes "et = extended_of_tm (time_to_gm 0) 0 TZ_GMT"
  shows "tm_hour et = 0" "tm_min et = 0" "tm_sec et = 0" "tm_usec et = 0" "timezone et = TZ_GMT"
  by (simp_all add: assms) (code_simp+)

lemma set_ft_reads_digits:
  assumes "valid_date d" and "tm_year d < 8100" and "gm_to_time d = Inr sec"
  shows "set_ft mktime ((date_digits d @ [32] @ clock_digits d) @ rest) strict = Inr (Timeval sec 0)"
proof -
  define et where "et = extended_of_tm (time_to_gm 0) 0 TZ_GMT"
  have "from_str strict (''%Y-%m-%d'' @ CHR '' '' # ''%H:%M:%S'')
      (date_digits d @ [32] @ clock_digits d @ rest) et = Inr (Inr (with_clock d (with_date d et), rest))"
    unfolding read_date [OF assms(1,2)] space_before_clock [OF assms(1)]
    using read_clock [OF assms(1), of strict "[]"] by simp
  moreover have "gm_to_time (tm.truncate (with_clock d (with_date d et))) = gm_to_time d"
    by (simp add: gm_to_time_def with_clock_def with_date_def tm.defs)
  ultimately show ?thesis
    using assms(3) epoch_fields [OF et_def]
    by (simp add: set_ft_def time_set_text_def time_fault_def et_def [symmetric] extended_to_time_def)
      (simp add: with_clock_def with_date_def)
qed

lemma set_f_reads_digits:
  assumes "valid_date d" and "tm_year d < 8100"
  shows "set_f mktime (date_digits d @ rest) strict = Inr (Timeval (day_of d * 86400) 0)"
proof -
  define et where "et = extended_of_tm (time_to_gm 0) 0 TZ_GMT"
  note epoch = epoch_fields [OF et_def]
  have "from_str strict (''%Y-%m-%d'' @ []) (date_digits d @ rest) et = Inr (Inr (with_date d et, rest))"
    unfolding read_date [OF assms] by simp
  moreover have "valid_date (tm.truncate (with_date d et))" "day_of (tm.truncate (with_date d et)) = day_of d"
    using assms(1) epoch by (simp_all add: valid_date_def with_date_def tm.defs day_of_def yday_of_def)
  then have "gm_to_time (tm.truncate (with_date d et)) = Inr (day_of d * 86400)"
    using epoch by (simp add: gm_to_time_valid with_date_def tm.defs)
  ultimately show ?thesis
    using epoch by (simp add: set_f_def time_set_text_def time_fault_def et_def [symmetric] extended_to_time_def)
      (simp add: with_date_def)
qed

text \<open>C40: Times go to text and back: \<open>set_ft\<close> reads what \<open>gm_ft\<close> writes, strictly or not, as the second it was
  written from, and \<open>set_f\<close> what \<open>gm_f\<close> writes as the beginning of the day, for every second from the epoch to
  the year 9999; the microseconds are not written. Text behind the time is ignored, even by a strict reader.\<close>

theorem set_ft_inverts_gm_ft:
  assumes "0 \<le> tv_sec tv" and "tm_year (time_to_gm (tv_sec tv)) < 8100"
  shows "\<exists>s s'. gm_ft localtime_r mktime tv = Inr s \<and> length s = 19 \<and>
    set_ft mktime (s @ rest) strict = Inr (Timeval (tv_sec tv) 0) \<and>
    gm_f localtime_r mktime tv = Inr s' \<and> length s' = 10 \<and>
    set_f mktime (s' @ rest) strict = Inr (Timeval (tv_sec tv div 86400 * 86400) 0)"
proof -
  define d where "d = time_to_gm (tv_sec tv)"
  have v: "valid_date d" "tm_year d < 8100" "gm_to_time d = Inr (tv_sec tv)" "day_of d = tv_sec tv div 86400"
    using assms time_to_gm_is_valid [OF assms(1)] gm_to_time_to_gm [OF assms(1)] by (simp_all add: d_def)
  have "gm_ft localtime_r mktime tv = Inr (date_digits d @ [32] @ clock_digits d)"
    "gm_f localtime_r mktime tv = Inr (date_digits d)"
    by (simp_all only: gm_ft_def gm_f_def time_get_gm_time_def extended_of_sec_def time_zone.case bind_sum_simps
        format_date_clock format_date d_def)
  moreover have "length (date_digits d) = 10" "length (date_digits d @ [32] @ clock_digits d) = 19"
    by (simp_all add: date_digits_def clock_digits_def)
  ultimately show ?thesis
    using set_ft_reads_digits [OF v(1-3)] set_f_reads_digits [OF v(1,2)] v(4) by metis
qed

theorem set_ft_inverts_gm_ft_witness:
  "\<exists>s. gm_ft (\<lambda>_. None) (\<lambda>_. (0, 0)) (Timeval 951782401 5) = Inr s \<and>
    set_ft (\<lambda>_. (0, 0)) (s @ ascii ''Z'') True = Inr (Timeval 951782401 0)"
proof -
  have "tm_year (time_to_gm 951782401) < 8100" by code_simp
  then show ?thesis
    using set_ft_inverts_gm_ft [of "Timeval 951782401 5" "\<lambda>_. None" "\<lambda>_. (0, 0)" "ascii ''Z''" True] by auto
qed

subsection \<open>Times in streams\<close>

text \<open>
  The two operators \<open><<\<close> print into a buffer with \<open>snprintf\<close>: a number with at least \<open>width\<close> digits,
  filled with zeros. The second operator always writes 26 bytes of its buffer of 64, which the widths of its
  format fill.
\<close>

definition printed_number :: "nat \<Rightarrow> int \<Rightarrow> byte list" where
  "printed_number width n =
     (let digits = number_text \<bar>n\<bar> in
      (if n < 0 then [45] else []) @ replicate (width - length digits) 48 @ digits)"

definition printed_time :: "timeval \<Rightarrow> byte list" where
  "printed_time time =
     (case time_print time of
        Print sign integer fraction \<Rightarrow>
          take 255 ((if sign < 0 then [45] else []) @ printed_number 0 (u64 integer) @ [58] @ printed_number 6 fraction @
            ascii '' (sec:usec)''))"

definition extended_text :: "extended_time \<Rightarrow> byte list" where
  "extended_text time =
     take 26 (take 63
       (printed_number 4 ((tm_year time + 1900) mod 2 ^ 32) @ [45] @ printed_number 2 ((tm_mon time + 1) mod 2 ^ 32) @ [45] @
        printed_number 2 (tm_mday time mod 2 ^ 32) @ [46] @ printed_number 2 (tm_hour time mod 2 ^ 32) @ [58] @
        printed_number 2 (tm_min time mod 2 ^ 32) @ [58] @ printed_number 2 (tm_sec time mod 2 ^ 32) @ [46] @
        printed_number 6 (tm_usec time mod 2 ^ 32)))"

lemma number_text_step:
  assumes "0 \<le> n"
  shows "number_text n =
    (if n < 10 then [word_of_int (48 + n)] else number_text (n div 10) @ [word_of_int (48 + n mod 10)])"
  using assms digits_from_last.simps [of n] by (auto simp: number_text_def pos_imp_zdiv_pos_iff pos_imp_zdiv_nonneg_iff)

lemma fixed_digits_zero: "fixed_digits k 0 [] = replicate k 48"
  by (induction k) (simp_all add: fixed_digits_Suc replicate_append_same)

lemma printed_number_fixed:
  assumes "0 \<le> n" and "n < 10 ^ k" and "0 < k"
  shows "printed_number k n = fixed_digits k n []"
  using assms
proof (induction k arbitrary: n)
  case (Suc k)
  show ?case
  proof (cases "n < 10")
    case True
    then show ?thesis
      using Suc.prems by (simp add: printed_number_def fixed_digits_Suc number_text_step fixed_digits_zero)
  next
    case False
    have k: "0 < k" using False Suc.prems(2) by (cases k) simp_all
    have "n div 10 < 10 ^ k" using Suc.prems(2) by (simp add: div_less_iff_less_mult mult.commute)
    then have "printed_number k (n div 10) = fixed_digits k (n div 10) []"
      using Suc.IH Suc.prems(1) k by (simp add: pos_imp_zdiv_nonneg_iff)
    moreover have "printed_number (Suc k) n = printed_number k (n div 10) @ [word_of_int (48 + n mod 10)]"
      using Suc.prems(1) False by (simp add: printed_number_def Let_def number_text_step [of n] pos_imp_zdiv_nonneg_iff)
    ultimately show ?thesis using Suc.prems(1) by (simp add: fixed_digits_Suc)
  qed
qed simp

lemma number_text_short: "0 \<le> n \<Longrightarrow> n < 2 ^ 64 \<Longrightarrow> length (number_text n) \<le> 20"
  using digits_length [of n 19] by (simp add: number_text_def)

text \<open>A time is printed as the sign, the whole seconds and six digits of microseconds of its distance from the
  epoch, also before the epoch, and is never cut by the buffer; a date is printed as 26 bytes that hold every
  field in its width, until the year 9999.\<close>

theorem printed_times_exact:
  assumes "norm_time tv" and "\<bar>tv_sec tv\<bar> < 2 ^ 63"
    and "valid_date d" and "tm_year d < 8100" and "0 \<le> u" and "u < USEC_MAX"
  shows "printed_time tv =
      (if microseconds tv < 0 then [45] else []) @ number_text (\<bar>microseconds tv\<bar> div USEC_MAX) @ [58] @
      fixed_digits 6 (\<bar>microseconds tv\<bar> mod USEC_MAX) [] @ ascii '' (sec:usec)'' \<and>
    extended_text (extended_of_tm d u tz) = date_digits d @ [46] @ clock_digits d @ [46] @ fixed_digits 6 u []"
proof
  obtain sign i f where p: "time_print tv = Print sign i f" by (cases "time_print tv")
  have "(sign < 0 \<longleftrightarrow> microseconds tv < 0) \<and> \<bar>microseconds tv\<bar> = i * USEC_MAX + f \<and> 0 \<le> i \<and> i < 2 ^ 63 \<and>
      0 \<le> f \<and> f < USEC_MAX"
    using p assms(1,2)
    by (auto simp: time_print_def norm_time_def microseconds_def USEC_MAX_def split: if_splits)
  then have m: "sign < 0 \<longleftrightarrow> microseconds tv < 0" "\<bar>microseconds tv\<bar> div USEC_MAX = i"
    "\<bar>microseconds tv\<bar> mod USEC_MAX = f" "0 \<le> i" "i < 2 ^ 63" "0 \<le> f" "f < 10 ^ 6"
    by (auto simp: USEC_MAX_def)
  have "u64 i = i" "printed_number 0 i = number_text i" "printed_number 6 f = fixed_digits 6 f []" "length (number_text i) \<le> 20"
    using m printed_number_fixed [of f 6] number_text_short [of i] by (simp_all add: machine_int printed_number_def)
  then show "printed_time tv =
      (if microseconds tv < 0 then [45] else []) @ number_text (\<bar>microseconds tv\<bar> div USEC_MAX) @ [58] @
      fixed_digits 6 (\<bar>microseconds tv\<bar> mod USEC_MAX) [] @ ascii '' (sec:usec)''"
    unfolding m(2,3) by (cases "microseconds tv < 0") (simp_all add: printed_time_def p m(1) ascii_def)
  have "0 \<le> tm_year d + 1900" "tm_year d + 1900 < 10 ^ 4" "0 \<le> tm_mon d + 1" "tm_mon d + 1 < 10 ^ 2"
    "0 \<le> tm_mday d" "tm_mday d < 10 ^ 2" "0 \<le> tm_hour d" "tm_hour d < 10 ^ 2" "0 \<le> tm_min d" "tm_min d < 10 ^ 2"
    "0 \<le> tm_sec d" "tm_sec d < 10 ^ 2" "0 \<le> u" "u < 10 ^ 6"
    using assms(3-6) valid_month_day [OF assms(3)] by (auto simp: valid_date_def USEC_MAX_def)
  then show "extended_text (extended_of_tm d u tz) =
      date_digits d @ [46] @ clock_digits d @ [46] @ fixed_digits 6 u []"
    by (simp add: extended_text_def date_digits_def clock_digits_def printed_number_fixed)
qed

theorem printed_times_exact_witness:
  "printed_time (Timeval (- 2) 250000) = ascii ''-1:750000 (sec:usec)'' \<and>
   extended_text (extended_of_tm (time_to_gm 951782401) 5 TZ_GMT) = ascii ''2000-02-29.00:00:01.000005''"
proof -
  have d: "valid_date (time_to_gm 951782401)" "tm_year (time_to_gm 951782401) < 8100" by code_simp+
  have "norm_time (Timeval (- 2) 250000)" "(5::int) < USEC_MAX" by (simp_all add: norm_time_def USEC_MAX_def)
  with printed_times_exact [of "Timeval (- 2) 250000" "time_to_gm 951782401" 5 TZ_GMT] d
  have "printed_time (Timeval (- 2) 250000) =
      (if microseconds (Timeval (- 2) 250000) < 0 then [45] else []) @
      number_text (\<bar>microseconds (Timeval (- 2) 250000)\<bar> div USEC_MAX) @ [58] @
      fixed_digits 6 (\<bar>microseconds (Timeval (- 2) 250000)\<bar> mod USEC_MAX) [] @ ascii '' (sec:usec)''"
    "extended_text (extended_of_tm (time_to_gm 951782401) 5 TZ_GMT) =
      date_digits (time_to_gm 951782401) @ [46] @ clock_digits (time_to_gm 951782401) @ [46] @ fixed_digits 6 5 []"
    by simp_all
  then show ?thesis by (simp only:) code_simp
qed

subsection \<open>Names in any case\<close>

definition same_name :: "byte list \<Rightarrow> caseless \<Rightarrow> bool" where
  "same_name s cl \<longleftrightarrow> map to_lower s = map to_lower (stored cl)"

lemma caseless_equal_same: "caseless_equal cl False s \<longleftrightarrow> same_name s cl"
proof (cases "length s = length (stored cl)")
  case True
  then show ?thesis using caseless_equal_prefix_iff [OF True] by (auto simp: caseless_equal_def same_name_def)
next
  case False
  then show ?thesis by (auto simp: caseless_equal_def same_name_def dest: map_eq_imp_length_eq)
qed

lemma index_of_name_None:
  "length cls1 = length cls2 \<Longrightarrow>
   index_of_name i s cls1 cls2 = None \<longleftrightarrow> (\<forall>cl \<in> set cls1 \<union> set cls2. \<not> same_name s cl)"
  by (induction i s cls1 cls2 rule: index_of_name.induct) (auto simp: caseless_equal_same)

lemma index_of_name_Some:
  "length cls1 = length cls2 \<Longrightarrow> index_of_name i s cls1 cls2 = Some k \<Longrightarrow>
   i \<le> k \<and> k - i < length cls1 \<and> (same_name s (cls1 ! (k - i)) \<or> same_name s (cls2 ! (k - i)))"
proof (induction i s cls1 cls2 rule: index_of_name.induct)
  case (1 i s cl1 cls1 cl2 cls2)
  show ?case
  proof (cases "same_name s cl1 \<or> same_name s cl2")
    case True
    then show ?thesis using "1.prems" by (auto simp: caseless_equal_same)
  next
    case False
    then have "i + 1 \<le> k \<and> k - (i + 1) < length cls1 \<and>
        (same_name s (cls1 ! (k - (i + 1))) \<or> same_name s (cls2 ! (k - (i + 1))))"
      using 1 by (auto simp: caseless_equal_same)
    moreover from this have "k - i = Suc (k - (i + 1))" by linarith
    ultimately show ?thesis by simp
  qed
qed auto

lemma index_of_distinct_name:
  assumes "length cls1 = length cls2"
    and "\<And>j k. j < length cls1 \<Longrightarrow> k < length cls1 \<Longrightarrow> same_name s (cls1 ! j) \<or> same_name s (cls2 ! j) \<Longrightarrow>
      same_name s (cls1 ! k) \<or> same_name s (cls2 ! k) \<Longrightarrow> j = k"
  shows "index_of_name 0 s cls1 cls2 = Some k \<longleftrightarrow>
    k < length cls1 \<and> (same_name s (cls1 ! k) \<or> same_name s (cls2 ! k))"
proof
  assume "index_of_name 0 s cls1 cls2 = Some k"
  then show "k < length cls1 \<and> (same_name s (cls1 ! k) \<or> same_name s (cls2 ! k))"
    using index_of_name_Some [OF assms(1), of 0 s k] by simp
next
  assume k: "k < length cls1 \<and> (same_name s (cls1 ! k) \<or> same_name s (cls2 ! k))"
  then have "index_of_name 0 s cls1 cls2 \<noteq> None"
    using assms(1) index_of_name_None [OF assms(1), of 0 s] by (metis UnI1 UnI2 nth_mem)
  then obtain j where j: "index_of_name 0 s cls1 cls2 = Some j" by blast
  then show "index_of_name 0 s cls1 cls2 = Some k"
    using index_of_name_Some [OF assms(1) j] assms(2) [of j k] k by simp
qed

lemma names_distinct:
  "distinct (map (map to_lower) (map stored MONTHS_SHORT))"
  "distinct (map (map to_lower) (map stored (DAYS_SHORT @ DAYS_FULL)))"
  by code_simp+

lemma same_distinct_name:
  assumes "distinct (map (map to_lower) (map stored names))" and "j < length names" and "k < length names"
    and "same_name s (names ! j)" and "same_name s (names ! k)"
  shows "j = k"
  using assms nth_eq_iff_index_eq [OF assms(1), of j k] by (simp add: same_name_def)

text \<open>A month is found by its short name and a day of the week by its short or its full name, in any case, and
  by no other text; the names written for the numbers are read back as those numbers.\<close>

theorem names_read_in_any_case:
  "(month_index s = Inr m \<longleftrightarrow> m < 12 \<and> map to_lower s = map to_lower (stored (MONTHS_SHORT ! m))) \<and>
   (week_day_index s = Inr d \<longleftrightarrow> d < 7 \<and>
     (map to_lower s = map to_lower (stored (DAYS_SHORT ! d)) \<or> map to_lower s = map to_lower (stored (DAYS_FULL ! d)))) \<and>
   bind_sum (month_name m) month_index = (if m < 12 then Inr m else Inl Time_Invalid_Argument) \<and>
   bind_sum (week_day_name d) week_day_index = (if d < 7 then Inr d else Inl Time_Invalid_Argument)"
proof -
  have len: "length MONTHS_SHORT = 12" "length DAYS_SHORT = 7" "length DAYS_FULL = 7"
    by (simp_all add: MONTHS_SHORT_def DAYS_SHORT_def DAYS_FULL_def)
  have "list_all (\<lambda>cl. stored cl \<noteq> []) MONTHS_SHORT" "list_all (\<lambda>cl. stored cl \<noteq> []) DAYS_SHORT"
    "list_all (\<lambda>cl. stored cl \<noteq> []) DAYS_FULL"
    by code_simp+
  then have named: "m < 12 \<Longrightarrow> stored (MONTHS_SHORT ! m) \<noteq> []"
    "d < 7 \<Longrightarrow> stored (DAYS_SHORT ! d) \<noteq> []" "d < 7 \<Longrightarrow> stored (DAYS_FULL ! d) \<noteq> []" for m d
    using len by (simp_all add: list_all_length)
  have month: "month_index s = Inr m \<longleftrightarrow> m < 12 \<and> same_name s (MONTHS_SHORT ! m)" for s m
  proof -
    have "index_of_name 0 s MONTHS_SHORT MONTHS_SHORT = Some m \<longleftrightarrow> m < 12 \<and> same_name s (MONTHS_SHORT ! m)"
      using index_of_distinct_name [of MONTHS_SHORT MONTHS_SHORT s m] same_distinct_name [OF names_distinct(1), of _ _ s]
      by (auto simp: len)
    then show ?thesis using named(1) by (auto simp: month_index_def same_name_def split: option.splits)
  qed
  have pos: "(DAYS_SHORT @ DAYS_FULL) ! j = DAYS_SHORT ! j" "(DAYS_SHORT @ DAYS_FULL) ! (7 + j) = DAYS_FULL ! j"
    if "j < 7" for j
    using that nth_append_length_plus [of DAYS_SHORT DAYS_FULL j] by (simp_all add: nth_append len)
  have day: "week_day_index s = Inr d \<longleftrightarrow> d < 7 \<and> (same_name s (DAYS_SHORT ! d) \<or> same_name s (DAYS_FULL ! d))" for s d
  proof -
    have "j = k" if "j < 7" "k < 7" "same_name s (DAYS_SHORT ! j) \<or> same_name s (DAYS_FULL ! j)"
      "same_name s (DAYS_SHORT ! k) \<or> same_name s (DAYS_FULL ! k)" for j k
    proof -
      note jk = that
      obtain a b where "a \<in> {j, 7 + j}" "b \<in> {k, 7 + k}" "same_name s ((DAYS_SHORT @ DAYS_FULL) ! a)"
        "same_name s ((DAYS_SHORT @ DAYS_FULL) ! b)"
        using jk pos by (metis insertCI)
      then have "a = b" "a \<in> {j, 7 + j}" "b \<in> {k, 7 + k}"
        using same_distinct_name [OF names_distinct(2), of a b s] that(1,2) by (auto simp: len)
      then show ?thesis using that(1,2) by auto
    qed
    then have "index_of_name 0 s DAYS_SHORT DAYS_FULL = Some d \<longleftrightarrow>
        d < 7 \<and> (same_name s (DAYS_SHORT ! d) \<or> same_name s (DAYS_FULL ! d))"
      using index_of_distinct_name [of DAYS_SHORT DAYS_FULL s d] by (simp add: len)
    then show ?thesis using named(2,3) by (auto simp: week_day_index_def same_name_def split: option.splits)
  qed
  have "m < 12 \<Longrightarrow> month_index (stored (MONTHS_SHORT ! m)) = Inr m"
    "d < 7 \<Longrightarrow> week_day_index (stored (DAYS_SHORT ! d)) = Inr d"
    unfolding month day by (simp_all add: same_name_def)
  then show ?thesis
    using month [of s m] day [of s d] by (simp add: same_name_def month_name_def week_day_name_def)
qed

end
