(* ===== verification/GearsConcat.thy ===== *)
theory GearsConcat
  imports GearsNumbers
begin

section \<open>Bounded copies and concatenation of texts (gears/StringManip.hpp)\<close>

text \<open>
  \<open>strlcpy\<close>, \<open>strlcat\<close>, the overloads of \<open>append\<close> and the variadic \<open>concat\<close>. A C string is the memory from
  its pointer on: the loops read it until a zero, and a run past the known memory is the fault
  \<open>Out_Of_Bounds\<close>. A destination is the memory from its pointer on as well. The theorems say that
  \<open>strlcpy\<close> and \<open>strlcat\<close> keep the contract of the BSD functions, that \<open>concat\<close> of texts is their cut
  concatenation, and that it loses the last digit of every number.
\<close>

subsection \<open>The bounded copies\<close>

text \<open>\<open>while (*src++);\<close> from an index on: the index of the zero.\<close>

function find_zero :: "byte list \<Rightarrow> nat \<Rightarrow> nat outcome" where
  "find_zero src i =
     (if length src \<le> i then Inl Out_Of_Bounds
      else if src ! i = 0 then Inr i else find_zero src (i + 1))"
  by auto
termination by (relation "measure (\<lambda>(src, i). length src - i)") auto

declare find_zero.simps [simp del]

text \<open>
  The copy loop; \<open>at\<close> is where \<open>dst\<close> points, \<open>i\<close> how many bytes of the source were read, and the last
  argument the size before its next decrement. The result is the memory and the index of the zero.
\<close>

fun copy_loop :: "byte list \<Rightarrow> nat \<Rightarrow> byte list \<Rightarrow> nat \<Rightarrow> nat \<Rightarrow> (byte list \<times> nat) outcome" where
  "copy_loop dst at src i 0 = bind_sum (find_zero src i) (\<lambda>j. Inr (dst, j))"
| "copy_loop dst at src i (Suc 0) =
     (if length dst \<le> at then Inl Out_Of_Bounds
      else bind_sum (find_zero src i) (\<lambda>j. Inr (dst[at := 0], j)))"
| "copy_loop dst at src i (Suc n) =
     (if length dst \<le> at \<or> length src \<le> i then Inl Out_Of_Bounds
      else if src ! i = 0 then Inr (dst[at := 0], i)
      else copy_loop (dst[at := src ! i]) (at + 1) src (i + 1) n)"

definition strlcpy :: "byte list \<Rightarrow> byte list \<Rightarrow> nat \<Rightarrow> (byte list \<times> nat) outcome" where
  "strlcpy dst src sz = copy_loop dst 0 src 0 sz"

text \<open>The loop of \<open>strlcat\<close> over the destination: how many bytes precede its zero, at most the size.\<close>

fun skip_text :: "byte list \<Rightarrow> nat \<Rightarrow> nat \<Rightarrow> nat outcome" where
  "skip_text dst at 0 = Inr at"
| "skip_text dst at (Suc n) =
     (if length dst \<le> at then Inl Out_Of_Bounds
      else if dst ! at = 0 then Inr at else skip_text dst (at + 1) n)"

definition strlcat :: "byte list \<Rightarrow> byte list \<Rightarrow> nat \<Rightarrow> (byte list \<times> nat) outcome" where
  "strlcat dst src sz =
     bind_sum (skip_text dst 0 sz) (\<lambda>dst_len.
       bind_sum (copy_loop dst dst_len src 0 (sz - dst_len)) (\<lambda>(dst', n). Inr (dst', n + dst_len)))"

lemma find_zero_ends:
  assumes "0 \<notin> set s" and "i \<le> length s"
  shows "find_zero (s @ 0 # rest) i = Inr (length s)"
  using assms
proof (induction "length s - i" arbitrary: i)
  case 0
  then show ?case by (subst find_zero.simps) (auto simp: nth_append)
next
  case (Suc n)
  then have "i < length s" by linarith
  moreover from this have "s ! i \<noteq> 0" using Suc.prems(1) by (metis nth_mem)
  ultimately show ?case
    using Suc.hyps(1) [of "i + 1"] Suc.hyps(2) Suc.prems(1) by (subst find_zero.simps) (simp add: nth_append)
qed

text \<open>What a bounded copy leaves: the cut text and a zero at \<open>at\<close>, the rest of the memory as it was.\<close>

definition placed :: "byte list \<Rightarrow> nat \<Rightarrow> byte list \<Rightarrow> byte list" where
  "placed dst at txt = take at dst @ txt @ [0] @ drop (at + length txt + 1) dst"

lemma placed_step:
  assumes "at < length dst"
  shows "placed (dst[at := x]) (at + 1) txt = placed dst at (x # txt)"
  using assms by (simp add: placed_def take_Suc_conv_app_nth take_update_cancel)

lemma placed_Nil: "at < length dst \<Longrightarrow> dst[at := 0] = placed dst at []"
  by (simp add: placed_def upd_conv_take_nth_drop)

lemma copy_loop_result:
  assumes "0 \<notin> set s" and "i \<le> length s" and "at + n \<le> length dst"
  shows "copy_loop dst at (s @ 0 # rest) i n =
    Inr (if n = 0 then dst else placed dst at (take (n - 1) (drop i s)), length s)"
  using assms
proof (induction dst at "s @ 0 # rest" i n rule: copy_loop.induct)
  case (1 dst at i)
  then show ?case by (simp add: find_zero_ends)
next
  case (2 dst at i)
  then show ?case by (simp add: find_zero_ends placed_Nil)
next
  case (3 dst at i n)
  show ?case
  proof (cases "i = length s")
    case True
    with 3 show ?thesis by (simp add: placed_Nil)
  next
    case False
    then have i: "i < length s" using 3 by simp
    then have "s ! i \<noteq> 0" using 3 by (metis nth_mem)
    moreover have "take (Suc n) (drop i s) = s ! i # take n (drop (i + 1) s)"
      using i by (simp add: Cons_nth_drop_Suc [symmetric])
    ultimately show ?thesis
      using i 3 placed_step [of at dst "s ! i"] by (simp add: nth_append)
  qed
qed

lemma strlcpy_result:
  assumes "0 \<notin> set s" and "sz \<le> length dst"
  shows "strlcpy dst (s @ 0 # rest) sz =
    Inr (if sz = 0 then dst else placed dst 0 (take (sz - 1) s), length s)"
  using copy_loop_result [of s 0 0 sz dst rest] assms by (simp add: strlcpy_def)

lemma skip_text_result:
  assumes "0 \<notin> set d" and "at \<le> length d" 
  shows "skip_text (d @ 0 # rest) at n = Inr (min (length d) (at + n))"
  using assms
proof (induction n arbitrary: at)
  case (Suc n)
  show ?case
  proof (cases "at = length d")
    case False
    then have "at < length d" using Suc by simp
    moreover from this have "d ! at \<noteq> 0" using Suc.prems(1) by (metis nth_mem)
    ultimately show ?thesis using Suc by (simp add: nth_append)
  qed simp
qed simp

text \<open>\<open>strlcpy\<close> and \<open>strlcat\<close> keep the contract of the BSD functions: they write the text cut to the
  size, always with its zero, nothing beyond it, and return the length of the text they tried to make, so
  that a result not less than the size tells that it was cut.\<close>

theorem strlcpy_strlcat_contract:
  assumes "0 \<notin> set s" and "0 \<notin> set d" and "length d < sz" and "sz \<le> length dst"
    and "dst = d @ 0 # tail"
  shows "strlcpy dst (s @ 0 # rest) sz =
      Inr (take (sz - 1) s @ [0] @ drop (min (length s) (sz - 1) + 1) dst, length s) \<and>
    strlcat dst (s @ 0 # rest) sz =
      Inr (take (sz - 1) (d @ s) @ [0] @ drop (min (length (d @ s)) (sz - 1) + 1) dst, length (d @ s))"
proof
  show "strlcpy dst (s @ 0 # rest) sz =
      Inr (take (sz - 1) s @ [0] @ drop (min (length s) (sz - 1) + 1) dst, length s)"
    using strlcpy_result [OF assms(1,4), of rest] assms(3) by (simp add: placed_def)
  have "skip_text dst 0 sz = Inr (length d)"
    using skip_text_result [OF assms(2), of 0 tail sz] assms(3,5) by simp
  moreover have "copy_loop dst (length d) (s @ 0 # rest) 0 (sz - length d) =
      Inr (placed dst (length d) (take (sz - length d - 1) s), length s)"
    using copy_loop_result [OF assms(1), of 0 "length d" "sz - length d" dst rest] assms(3,4) by simp
  moreover have "placed dst (length d) (take (sz - length d - 1) s) =
      take (sz - 1) (d @ s) @ [0] @ drop (min (length (d @ s)) (sz - 1) + 1) dst"
  proof -
    have "take (length d) dst = d" and "length d \<le> sz - 1" using assms(3,5) by simp_all
    moreover from this have "take (sz - 1) (d @ s) = d @ take (sz - length d - 1) s"
      by (simp add: diff_commute)
    moreover have "length d + length (take (sz - length d - 1) s) + 1 = min (length (d @ s)) (sz - 1) + 1"
      using assms(3) by auto
    ultimately show ?thesis by (simp only: placed_def append_assoc)
  qed
  ultimately show "strlcat dst (s @ 0 # rest) sz =
      Inr (take (sz - 1) (d @ s) @ [0] @ drop (min (length (d @ s)) (sz - 1) + 1) dst, length (d @ s))"
    by (simp add: strlcat_def)
qed

theorem strlcpy_strlcat_contract_witness:
  "strlcpy [97, 0, 9, 9] ([98, 99, 100] @ 0 # []) 3 = Inr ([98, 99, 0, 9], 3) \<and>
   strlcat [97, 0, 9, 9] ([98, 99, 100] @ 0 # []) 3 = Inr ([97, 98, 0, 9], 4)"
proof
  have "strlcpy [97, 0, 9, 9] ([98, 99, 100] @ 0 # []) 3 = Inr (take (3 - 1) [98, 99, 100] @ [0] @
      drop (min (length [98, 99, 100 :: byte]) (3 - 1) + 1) [97, 0, 9, 9], length [98, 99, 100 :: byte])"
    by (rule strlcpy_strlcat_contract [where d = "[97]" and tail = "[9, 9]", THEN conjunct1]) simp_all
  also have "\<dots> = Inr ([98, 99, 0, 9], 3)" by code_simp
  finally show "strlcpy [97, 0, 9, 9] ([98, 99, 100] @ 0 # []) 3 = Inr ([98, 99, 0, 9], 3)" .
  have "strlcat [97, 0, 9, 9] ([98, 99, 100] @ 0 # []) 3 = Inr (take (3 - 1) ([97] @ [98, 99, 100]) @ [0] @
      drop (min (length ([97] @ [98, 99, 100 :: byte])) (3 - 1) + 1) [97, 0, 9, 9],
      length ([97] @ [98, 99, 100 :: byte]))"
    by (rule strlcpy_strlcat_contract [where tail = "[9, 9]", THEN conjunct2]) simp_all
  also have "\<dots> = Inr ([97, 98, 0, 9], 4)" by code_simp
  finally show "strlcat [97, 0, 9, 9] ([98, 99, 100] @ 0 # []) 3 = Inr ([97, 98, 0, 9], 4)" .
qed

subsection \<open>Concatenation\<close>

text \<open>
  The arguments that the overloads of \<open>append\<close> take: a C string, a text with its length (\<open>SubString\<close> and
  \<open>std::string\<close>), or a number.
\<close>

datatype concat_arg = C_String "byte list" | Text "byte list" | Number int_kind int

definition append_c_string :: "byte list \<Rightarrow> nat \<Rightarrow> byte list \<Rightarrow> (byte list \<times> nat) outcome" where
  "append_c_string buffer sz str =
     bind_sum (strlcpy buffer str sz) (\<lambda>(buffer', n). Inr (buffer', if n < sz then n else sz))"

definition append_text :: "byte list \<Rightarrow> nat \<Rightarrow> byte list \<Rightarrow> (byte list \<times> nat) outcome" where
  "append_text buffer sz str =
     (if length str \<ge> sz then
        if sz = 0 \<or> length buffer < sz then Inl Out_Of_Bounds
        else Inr ((write_at buffer 0 (take (sz - 1) str)) [sz - 1 := 0], sz)
      else if length buffer < length str then Inl Out_Of_Bounds
      else Inr (write_at buffer 0 str, length str))"

definition append_number :: "byte list \<Rightarrow> nat \<Rightarrow> int_kind \<Rightarrow> int \<Rightarrow> (byte list \<times> nat) outcome" where
  "append_number buffer sz k val =
     (case int_to_str k val buffer sz of
        (buffer', res) \<Rightarrow>
          if res = 0 then
            if buffer = [] then Inl Out_Of_Bounds else Inr (buffer'[0 := 0], sz)
          else Inr (buffer', res - 1))"

fun append_arg :: "byte list \<Rightarrow> nat \<Rightarrow> concat_arg \<Rightarrow> (byte list \<times> nat) outcome" where
  "append_arg buffer sz (C_String str) = append_c_string buffer sz str"
| "append_arg buffer sz (Text str) = append_text buffer sz str"
| "append_arg buffer sz (Number k val) = append_number buffer sz k val"

fun concat_args :: "byte list \<Rightarrow> nat \<Rightarrow> concat_arg list \<Rightarrow> byte list outcome" where
  "concat_args buffer sz [] =
     (if sz = 0 then Inl Assertion_Failed
      else if buffer = [] then Inl Out_Of_Bounds
      else Inr (buffer[0 := 0]))"
| "concat_args buffer sz (f # args) =
     bind_sum (append_arg buffer sz f) (\<lambda>(buffer', n).
       if n < sz then
         bind_sum (concat_args (drop n buffer') (sz - n) args) (\<lambda>rest. Inr (take n buffer' @ rest))
       else Inr buffer')"

text \<open>What an argument should contribute, and what makes it a valid text argument.\<close>

fun argument_text :: "concat_arg \<Rightarrow> byte list" where
  "argument_text (C_String mem) = takeWhile (\<lambda>b. b \<noteq> 0) mem"
| "argument_text (Text str) = str"
| "argument_text (Number k val) = number_text val"

fun is_text :: "concat_arg \<Rightarrow> bool" where
  "is_text (C_String mem) = (0 \<in> set mem)"
| "is_text (Text _) = True"
| "is_text (Number _ _) = False"

text \<open>
  What it contributes, and when it can: a number needs room for every number of its type, and loses its last
  digit because \<open>append\<close> reports one byte less than it wrote.
\<close>

fun written_text :: "concat_arg \<Rightarrow> byte list" where
  "written_text (Number k val) = butlast (number_text val)"
| "written_text a = argument_text a"

fun arg_fits :: "nat \<Rightarrow> concat_arg \<Rightarrow> bool" where
  "arg_fits sz (Number k val) = (fits k val \<and> (val = least k \<longrightarrow> \<not> is_signed k) \<and> digits10 k + 3 \<le> sz)"
| "arg_fits sz a = is_text a"

fun args_fit :: "nat \<Rightarrow> concat_arg list \<Rightarrow> bool" where
  "args_fit sz [] = True"
| "args_fit sz (a # args) =
     (arg_fits sz a \<and> (length (written_text a) < sz \<longrightarrow> args_fit (sz - length (written_text a)) args))"

lemma is_text_written: "is_text a \<Longrightarrow> arg_fits sz a \<and> written_text a = argument_text a"
  by (cases a) simp_all

lemma texts_fit:
  "list_all is_text args \<Longrightarrow> args_fit sz args \<and> map written_text args = map argument_text args"
  by (induction args arbitrary: sz) (simp_all add: is_text_written)

lemma c_string_split:
  assumes "0 \<in> set mem"
  obtains rest where "mem = takeWhile (\<lambda>b. b \<noteq> 0) mem @ 0 # rest"
proof -
  have "dropWhile (\<lambda>b. b \<noteq> 0) mem \<noteq> []" using assms by auto
  then have "dropWhile (\<lambda>b. b \<noteq> 0) mem = 0 # tl (dropWhile (\<lambda>b. b \<noteq> 0) mem)"
    using hd_dropWhile [of "\<lambda>b. b \<noteq> 0" mem] by (metis list.collapse)
  then show ?thesis using that by (metis takeWhile_dropWhile_id)
qed

text \<open>An append of a text: it fits and is followed by bytes the next append overwrites, or it is cut.\<close>

lemma drop_update_head:
  "0 < n \<Longrightarrow> n \<le> length xs \<Longrightarrow> (drop (n - Suc 0) xs)[0 := x] = x # drop n xs"
  by (cases n) (simp_all add: Cons_nth_drop_Suc [symmetric])

lemma append_arg_text:
  assumes "arg_fits sz a" and "0 < sz" and "sz \<le> length buffer"
  defines "t \<equiv> written_text a"
  shows "if length t < sz
    then \<exists>tl. append_arg buffer sz a = Inr (t @ tl, length t) \<and>
      length tl = length buffer - length t \<and> drop (sz - length t) tl = drop sz buffer
    else append_arg buffer sz a = Inr (take (sz - 1) t @ [0] @ drop sz buffer, sz)"
proof (cases a)
  case (C_String mem)
  then obtain rest where "mem = t @ 0 # rest"
    using assms c_string_split by (auto simp: t_def)
  moreover have "0 \<notin> set t"
    using C_String by (auto simp: t_def dest: set_takeWhileD)
  ultimately show ?thesis
    using strlcpy_result [of t sz buffer rest] assms(2,3) C_String
    by (auto simp: append_c_string_def placed_def drop_Cons' Suc_diff_Suc)
next
  case (Text str)
  then show ?thesis
    using assms(2,3) by (auto simp: t_def append_text_def write_at_def list_update_append drop_update_head)
next
  case (Number k val)
  have fit: "fits k val" "val = least k \<longrightarrow> \<not> is_signed k" "digits10 k + 3 \<le> sz"
    using assms(1) Number by simp_all
  have "number_text val \<noteq> []" using digits_value(3) [of "\<bar>val\<bar>"] by (auto simp: number_text_def)
  then have eq: "number_text val = t @ [last (number_text val)]" by (simp add: t_def Number)
  have n: "length (number_text val) = Suc (length t)" using arg_cong [OF eq, of length] by simp
  define tl where "tl = last (number_text val) # 0 # drop (length t + 2) buffer"
  have "number_text val @ [0] @ drop (length (number_text val) + 1) buffer = t @ tl"
    unfolding tl_def n using eq by (metis Suc_eq_plus1 add_2_eq_Suc' append_Cons append_Nil append_assoc)
  then have "append_arg buffer sz a = Inr (t @ tl, length t)"
    using int_to_str_result [OF fit assms(3)] n by (simp add: Number append_number_def)
  moreover have "length t + 2 \<le> sz" using number_text_length [OF fit(1,2)] fit(3) n by simp
  moreover from this obtain m where m: "sz = length t + 2 + m" by (metis le_Suc_ex)
  then have "drop (sz - length t) tl = drop sz buffer" "length tl = length buffer - length t"
    using assms(3) by (simp_all add: tl_def add.commute)
  ultimately show ?thesis by auto
qed

lemma concat_args_written:
  assumes "0 < sz" and "sz \<le> length buffer" and "args_fit sz args"
  shows "\<exists>tl. concat_args buffer sz args
      = Inr (take (sz - 1) (concat (map written_text args)) @ [0] @ tl) \<and>
    length (take (sz - 1) (concat (map written_text args)) @ [0] @ tl) = length buffer \<and>
    drop sz (take (sz - 1) (concat (map written_text args)) @ [0] @ tl) = drop sz buffer"
  using assms
proof (induction args arbitrary: buffer sz)
  case Nil
  then obtain b bs where "buffer = b # bs" by (cases buffer) auto
  with Nil show ?case by (cases sz) auto
next
  case (Cons a args)
  define t where "t = written_text a"
  define more where "more = concat (map written_text args)"
  have a: "arg_fits sz a" and args: "length t < sz \<Longrightarrow> args_fit (sz - length t) args"
    using Cons.prems by (simp_all add: t_def)
  show ?case
  proof (cases "length t < sz")
    case True
    then obtain tl where tl: "append_arg buffer sz a = Inr (t @ tl, length t)"
      "length tl = length buffer - length t" "drop (sz - length t) tl = drop sz buffer"
      using append_arg_text [OF a Cons.prems(1,2)] by (auto simp: t_def)
    moreover have "sz - length t \<le> length tl" using tl(2) Cons.prems(2) by linarith
    ultimately obtain tl' where tl':
      "concat_args tl (sz - length t) args = Inr (take (sz - length t - 1) more @ [0] @ tl')"
      "length (take (sz - length t - 1) more @ [0] @ tl') = length tl"
      "drop (sz - length t) (take (sz - length t - 1) more @ [0] @ tl') = drop (sz - length t) tl"
      using Cons.IH [of "sz - length t" tl] True args by (auto simp: more_def)
    have cut: "take (sz - 1) (t @ more) = t @ take (sz - length t - 1) more"
      using True by (simp add: diff_commute)
    have "concat_args buffer sz (a # args) = Inr (take (sz - 1) (t @ more) @ [0] @ tl')"
      unfolding cut using tl(1) tl'(1) True by simp
    moreover have "length (take (sz - 1) (t @ more) @ [0] @ tl') = length buffer"
      unfolding cut using tl'(2) tl(2) True Cons.prems(2) by simp
    moreover have "drop sz (take (sz - 1) (t @ more) @ [0] @ tl') = drop sz buffer"
      unfolding cut using tl'(3) tl(3) True by simp
    ultimately show ?thesis by (auto simp: t_def more_def)
  next
    case False
    then have "append_arg buffer sz a = Inr (take (sz - 1) t @ [0] @ drop sz buffer, sz)"
      using append_arg_text [OF a Cons.prems(1,2)] by (simp add: t_def)
    moreover have "take (sz - 1) (t @ more) = take (sz - 1) t" using False by simp
    ultimately show ?thesis
      using False Cons.prems by (intro exI [of _ "drop sz buffer"]) (auto simp: t_def more_def)
  qed
qed

lemma concat_args_nonempty_result:
  assumes "0 < sz" and "sz \<le> length buffer" and "list_all is_text args"
  shows "\<exists>tl. concat_args buffer sz args
      = Inr (take (sz - 1) (concat (map argument_text args)) @ [0] @ tl) \<and>
    length (take (sz - 1) (concat (map argument_text args)) @ [0] @ tl) = length buffer \<and>
    drop sz (take (sz - 1) (concat (map argument_text args)) @ [0] @ tl) = drop sz buffer"
  using concat_args_written [OF assms(1,2)] texts_fit [OF assms(3), of sz] by metis

text \<open>\<open>concat\<close> of texts (C strings, \<open>SubString\<close>s, strings) writes their concatenation, cut to leave room
  for the zero in \<open>size\<close> bytes, and nothing beyond \<open>size\<close>, whatever the number and the lengths of the
  arguments.\<close>

theorem concat_texts:
  assumes "0 < sz" and "sz \<le> length buffer" and "list_all is_text args"
  shows "\<exists>buffer' tl. concat_args buffer sz args = Inr buffer' \<and>
    buffer' = take (sz - 1) (concat (map argument_text args)) @ [0] @ tl \<and>
    length buffer' = length buffer \<and> drop sz buffer' = drop sz buffer"
  using concat_args_nonempty_result [OF assms] by blast

theorem concat_texts_witness:
  "\<exists>buffer' tl. concat_args [1, 1, 1, 1, 1] 4 [C_String [97, 98, 0], Text [99, 100]] = Inr buffer' \<and>
    buffer' = take (4 - 1) (concat (map argument_text [C_String [97, 98, 0], Text [99, 100]])) @ [0] @ tl \<and>
    length buffer' = length [1, 1, 1, 1, 1 :: byte] \<and> drop 4 buffer' = drop 4 [1, 1, 1, 1, 1]"
  by (rule concat_texts) simp_all

text \<open>\<open>concat\<close> of a number loses its last digit: \<open>append\<close> reports one byte less than it wrote, so the next
  append, or the closing zero, overwrites the digit (StringManip.hpp line 365).\<close>

theorem concat_number_loses_digit:
  assumes "fits k val" and "val = least k \<longrightarrow> \<not> is_signed k"
    and "digits10 k + 3 \<le> sz" and "sz \<le> length buffer" and "list_all is_text args"
  shows "\<exists>tl. concat_args buffer sz (Number k val # args) =
    Inr (take (sz - 1) (butlast (number_text val) @ concat (map argument_text args)) @ [0] @ tl)"
proof -
  have "args_fit sz (Number k val # args)" using assms(1-3) texts_fit [OF assms(5)] by simp
  then show ?thesis
    using concat_args_written [of sz buffer "Number k val # args"] assms(3,4) texts_fit [OF assms(5), of sz] by auto
qed

theorem concat_number_loses_digit_witness:
  "(\<exists>tl. concat_args (replicate 12 1) 12 (Number I32 7 # [Text [98]]) =
      Inr (take (12 - 1) (butlast (number_text 7) @ concat (map argument_text [Text [98]])) @ [0] @ tl)) \<and>
   butlast (number_text 7) = []"
proof
  show "\<exists>tl. concat_args (replicate 12 1) 12 (Number I32 7 # [Text [98]]) =
      Inr (take (12 - 1) (butlast (number_text 7) @ concat (map argument_text [Text [98]])) @ [0] @ tl)"
    by (rule concat_number_loses_digit) (simp_all add: fits_def least_def greatest_def digits10_def)
  show "butlast (number_text 7) = []" by code_simp
qed

end
