(* ===== verification/GearsExceptions.thy ===== *)
theory GearsExceptions
  imports Prelude
begin

section \<open>Exception texts and optional values (gears/Exception.hpp, Optional.hpp)\<close>

text \<open>
  A \<open>DescriptiveException\<close> keeps its text in an array of \<open>DESC_EXCEPTION_BUFFER_SIZE\<close> bytes, which it never
  allocates; a longer text is cut, and \<open>what()\<close> is a zero-terminated string. A byte that nothing has written
  is \<open>None\<close>, and reading it, or past an array, is a fault. \<open>Optional\<close> is a flag and a value.
\<close>

subsection \<open>The text of an exception\<close>

definition DESC_EXCEPTION_BUFFER_SIZE :: nat where
  "DESC_EXCEPTION_BUFFER_SIZE = 10 * 1024"

text \<open>\<open>copy_string_\<close>: the loop stops after a zero or before the last byte, which is then zero anyway. \<open>i\<close> is the
  offset of \<open>dst\<close>, \<open>stop\<close> the one of \<open>end\<close>.\<close>

fun copy_string_loop :: "byte option list \<Rightarrow> byte option list \<Rightarrow> nat \<Rightarrow> nat \<Rightarrow> byte option list outcome" where
  "copy_string_loop (Some c # src) dst i stop =
     (if i < length dst \<and> stop < length dst then
        if c \<noteq> 0 \<and> i + 1 < stop then copy_string_loop src (dst[i := Some c]) (i + 1) stop
        else Inr (dst[i := Some c, stop := Some 0])
      else Inl Out_Of_Bounds)"
| "copy_string_loop src dst i stop = Inl Out_Of_Bounds"

definition copy_string :: "byte option list option \<Rightarrow> byte option list \<Rightarrow> nat \<Rightarrow> byte option list outcome" where
  "copy_string src dst n =
     (case src of
        Some s \<Rightarrow> copy_string_loop s dst 0 (n - 1)
      | None \<Rightarrow> if dst = [] then Inl Out_Of_Bounds else Inr (dst[0 := Some 0]))"

definition init_text :: "byte option list option \<Rightarrow> byte option list \<Rightarrow> byte option list outcome" where
  "init_text src description = copy_string src description DESC_EXCEPTION_BUFFER_SIZE"

definition init_sized :: "byte list option \<Rightarrow> nat \<Rightarrow> byte option list \<Rightarrow> byte option list outcome" where
  "init_sized src n description =
     (if n = 0 then Inr (description[0 := Some 0])
      else
        let m = (if n > DESC_EXCEPTION_BUFFER_SIZE - 1 then DESC_EXCEPTION_BUFFER_SIZE - 1 else n) in
        case src of
          None \<Rightarrow> Inl Null_Dereference
        | Some s \<Rightarrow>
            if m \<le> length s then Inr ((map Some (take m s) @ drop m description)[m := Some 0])
            else Inl Out_Of_Bounds)"

text \<open>The constructors, on an array nothing has been written to; \<open>exception_assign\<close> copies over an old text.\<close>

definition exception_of_c_string :: "byte option list option \<Rightarrow> byte option list outcome" where
  "exception_of_c_string src = init_text src (replicate DESC_EXCEPTION_BUFFER_SIZE None)"

definition exception_of_text :: "byte list \<Rightarrow> byte option list outcome" where
  "exception_of_text s = init_sized (Some s) (length s) (replicate DESC_EXCEPTION_BUFFER_SIZE None)"

definition exception_empty :: "byte option list outcome" where
  "exception_empty = init_sized None 0 (replicate DESC_EXCEPTION_BUFFER_SIZE None)"

definition exception_copy :: "byte option list \<Rightarrow> byte option list outcome" where
  "exception_copy e = init_text (Some e) (replicate DESC_EXCEPTION_BUFFER_SIZE None)"

definition exception_assign :: "byte option list \<Rightarrow> byte option list \<Rightarrow> byte option list outcome" where
  "exception_assign e e' = init_text (Some e') e"

text \<open>\<open>what()\<close> gives the array; this is the string a reader finds in it.\<close>

fun c_text :: "byte option list \<Rightarrow> byte list outcome" where
  "c_text (Some c # cs) = (if c = 0 then Inr [] else bind_sum (c_text cs) (\<lambda>txt. Inr (c # txt)))"
| "c_text cs = Inl Out_Of_Bounds"

definition what :: "byte option list \<Rightarrow> byte list outcome" where
  "what e = c_text e"

lemma c_text_append: "c_text (map Some w @ Some 0 # rest) = Inr (takeWhile (\<lambda>c. c \<noteq> 0) w)"
  by (induction w) simp_all

lemma copy_string_loop_result:
  assumes "length dst = stop + 1" and "i < stop"
  shows "\<exists>dst'. copy_string_loop (map Some w @ Some 0 # rest) dst i stop = Inr dst' \<and>
    length dst' = stop + 1 \<and>
    (\<exists>tl. dst' = take i dst @ map Some (takeWhile (\<lambda>c. c \<noteq> 0) (take (stop - i) w)) @ Some 0 # tl)"
  using assms
proof (induction w arbitrary: dst i)
  case Nil
  let ?d = "dst[i := Some 0, stop := Some 0]"
  have "?d = take i dst @ Some 0 # drop (Suc i) ?d"
    using Nil id_take_nth_drop [of i ?d] by (simp add: nth_list_update)
  then show ?case using Nil by (auto intro: exI [of _ "drop (Suc i) ?d"])
next
  case (Cons c w)
  consider "c = 0" | "c \<noteq> 0" "i + 1 < stop" | "c \<noteq> 0" "i + 1 = stop"
    using Cons.prems by linarith
  then show ?case
  proof cases
    case 1
    let ?d = "dst[i := Some 0, stop := Some 0]"
    have "?d = take i dst @ Some 0 # drop (Suc i) ?d"
      using Cons.prems id_take_nth_drop [of i ?d] by (simp add: nth_list_update)
    moreover have "take (stop - i) (c # w) = c # take (stop - i - 1) w"
      using Cons.prems(2) by (cases "stop - i") simp_all
    ultimately show ?thesis using Cons.prems 1 by (auto intro: exI [of _ "drop (Suc i) ?d"])
  next
    case 2
    obtain dst' tl where d: "copy_string_loop (map Some w @ Some 0 # rest) (dst[i := Some c]) (i + 1) stop = Inr dst'"
      "length dst' = stop + 1"
      "dst' = take (i + 1) (dst[i := Some c]) @
        map Some (takeWhile (\<lambda>c. c \<noteq> 0) (take (stop - (i + 1)) w)) @ Some 0 # tl"
      using Cons.IH [of "dst[i := Some c]" "i + 1"] Cons.prems 2 by auto
    have "take (i + 1) (dst[i := Some c]) = take i dst @ [Some c]"
      using Cons.prems by (simp add: take_Suc_conv_app_nth)
    moreover have "stop - i = Suc (stop - (i + 1))" using Cons.prems(2) by simp
    then have "take (stop - i) (c # w) = c # take (stop - (i + 1)) w" by (simp only: take_Suc_Cons)
    ultimately show ?thesis using d 2 Cons.prems by auto
  next
    case 3
    have "dst[i := Some c, stop := Some 0] = take i dst @ [Some c, Some 0]"
      using 3 Cons.prems by (auto simp: list_eq_iff_nth_eq nth_append nth_list_update nth_Cons')
    moreover have "take (stop - i) (c # w) = [c]" using 3 by (metis Suc_eq_plus1 add_diff_cancel_left' take0 take_Suc_Cons One_nat_def)
    ultimately show ?thesis using 3 Cons.prems by auto
  qed
qed

lemma exception_of_c_string_what:
  assumes "length dst = DESC_EXCEPTION_BUFFER_SIZE"
  shows "bind_sum (init_text (Some (map Some w @ Some 0 # rest)) dst) what =
    Inr (takeWhile (\<lambda>c. c \<noteq> 0) (take (DESC_EXCEPTION_BUFFER_SIZE - 1) w))"
proof -
  let ?n = "DESC_EXCEPTION_BUFFER_SIZE - 1"
  have "length dst = ?n + 1" "0 < ?n" using assms by (simp_all add: DESC_EXCEPTION_BUFFER_SIZE_def)
  from copy_string_loop_result [OF this, of w rest]
  obtain tl where "copy_string_loop (map Some w @ Some 0 # rest) dst 0 ?n =
      Inr (map Some (takeWhile (\<lambda>c. c \<noteq> 0) (take ?n w)) @ Some 0 # tl)"
    by auto
  then show ?thesis by (simp add: init_text_def copy_string_def what_def c_text_append)
qed

lemma exception_of_text_what:
  "\<exists>e rest. exception_of_text s = Inr e \<and>
     e = map Some (take (DESC_EXCEPTION_BUFFER_SIZE - 1) s) @ Some 0 # rest"
proof -
  define n where "n = min (length s) (DESC_EXCEPTION_BUFFER_SIZE - 1)"
  have n: "n < DESC_EXCEPTION_BUFFER_SIZE" "n \<le> length s" "take n s = take (DESC_EXCEPTION_BUFFER_SIZE - 1) s"
    by (auto simp: n_def DESC_EXCEPTION_BUFFER_SIZE_def min_def)
  have "exception_of_text s =
      Inr ((map Some (take n s) @ replicate (DESC_EXCEPTION_BUFFER_SIZE - n) None)[n := Some 0])"
    by (auto simp: exception_of_text_def init_sized_def n_def min_def Let_def)
  moreover obtain m where "DESC_EXCEPTION_BUFFER_SIZE - n = Suc m"
    using n(1) by (metis Suc_diff_Suc)
  moreover have "length (map Some (take n s)) = n" using n(2) by simp
  ultimately show ?thesis
    using n(3) by (auto simp: list_update_append)
qed

text \<open>Whatever the text given to an exception, from a string or a C string, \<open>what()\<close> is a zero-terminated
  string with no access outside the arrays: the text up to its first zero, cut to one byte less than the
  buffer; copying and assigning exceptions keep it.\<close>

theorem exception_text_kept:
  assumes "length old = DESC_EXCEPTION_BUFFER_SIZE"
  shows "bind_sum (exception_of_text s) what = Inr (takeWhile (\<lambda>c. c \<noteq> 0) (take (DESC_EXCEPTION_BUFFER_SIZE - 1) s)) \<and>
    bind_sum (exception_of_c_string (Some (map Some s @ [Some 0]))) what =
      bind_sum (exception_of_text s) what \<and>
    bind_sum (bind_sum (exception_of_text s) exception_copy) what = bind_sum (exception_of_text s) what \<and>
    bind_sum (bind_sum (exception_of_text s) (exception_assign old)) what = bind_sum (exception_of_text s) what"
proof -
  obtain e rest where e: "exception_of_text s = Inr e"
    "e = map Some (take (DESC_EXCEPTION_BUFFER_SIZE - 1) s) @ Some 0 # rest"
    using exception_of_text_what by blast
  show ?thesis
    using exception_of_c_string_what [OF assms, of "take (DESC_EXCEPTION_BUFFER_SIZE - 1) s" rest]
      exception_of_c_string_what [of "replicate DESC_EXCEPTION_BUFFER_SIZE None" s "[]"]
      exception_of_c_string_what [of "replicate DESC_EXCEPTION_BUFFER_SIZE None"
        "take (DESC_EXCEPTION_BUFFER_SIZE - 1) s" rest]
    by (simp add: e exception_of_c_string_def exception_copy_def exception_assign_def what_def c_text_append)
qed

theorem exception_text_kept_witness:
  "bind_sum (exception_of_text [97, 98, 0, 99]) what = Inr [97, 98] \<and>
   bind_sum (bind_sum (exception_of_text [97, 98, 0, 99]) (exception_assign (replicate DESC_EXCEPTION_BUFFER_SIZE None)))
     what = Inr [97, 98]"
  using exception_text_kept [of "replicate DESC_EXCEPTION_BUFFER_SIZE None" "[97, 98, 0, 99]"]
  by (simp add: DESC_EXCEPTION_BUFFER_SIZE_def)

subsection \<open>Optional values\<close>

record 'a optional =
  defined :: bool
  val :: 'a

text \<open>The default value of the type is a parameter: \<open>ObjectType()\<close>.\<close>

definition optional_new :: "'a \<Rightarrow> 'a optional" where
  "optional_new default_value = \<lparr>defined = False, val = default_value\<rparr>"

definition optional_of_value :: "'a \<Rightarrow> 'a optional" where
  "optional_of_value v = \<lparr>defined = True, val = v\<rparr>"

definition optional_of_pointer :: "'a \<Rightarrow> 'a option \<Rightarrow> 'a optional" where
  "optional_of_pointer default_value p =
     \<lparr>defined = (p \<noteq> None), val = (case p of Some v \<Rightarrow> v | None \<Rightarrow> default_value)\<rparr>"

definition optional_set :: "'a optional \<Rightarrow> 'a \<Rightarrow> 'a optional" where
  "optional_set t v = t\<lparr>val := v, defined := True\<rparr>"

definition optional_fill :: "'a optional \<Rightarrow> 'a optional" where
  "optional_fill t = t\<lparr>defined := True\<rparr>"

definition optional_clear :: "'a \<Rightarrow> 'a optional \<Rightarrow> 'a optional" where
  "optional_clear default_value t = t\<lparr>defined := False, val := default_value\<rparr>"

definition optional_assign :: "'a \<Rightarrow> 'a optional \<Rightarrow> 'a optional \<Rightarrow> 'a optional" where
  "optional_assign default_value t v =
     (if defined v then optional_set t (val v) else optional_clear default_value t)"

definition optional_eq :: "'a optional \<Rightarrow> 'a optional \<Rightarrow> bool" where
  "optional_eq t r \<longleftrightarrow> defined t = defined r \<and> (\<not> defined t \<or> val t = val r)"

definition content :: "'a optional \<Rightarrow> 'a option" where
  "content t = (if defined t then Some (val t) else None)"

text \<open>\<open>Optional\<close> implements an optional value: what it contains after each constructor, \<open>set\<close>,
  \<open>operator=\<close> and \<open>clear\<close> depends on what was given alone, never on the value left under a false flag, and two
  are equal when they contain the same. Only \<open>fill\<close> shows the value that was left: the default one after
  \<open>clear\<close>.\<close>

theorem optional_is_option:
  "content (optional_new d) = None \<and> content (optional_of_value v) = Some v \<and>
   content (optional_of_pointer d p) = p \<and> content (optional_set t v) = Some v \<and>
   content (optional_clear d t) = None \<and> content (optional_assign d t r) = content r \<and>
   (optional_eq t r \<longleftrightarrow> content t = content r) \<and>
   content (optional_fill (optional_clear d t)) = Some d \<and>
   (defined t \<longrightarrow> optional_fill t = t)"
  by (cases p) (auto simp: content_def optional_new_def optional_of_value_def optional_of_pointer_def
      optional_set_def optional_clear_def optional_assign_def optional_eq_def optional_fill_def)

theorem optional_is_option_witness:
  "optional_fill (optional_of_value (3::int)) = optional_of_value 3"
  using optional_is_option [of 0 "3::int" None "optional_of_value 3" "optional_new 0"]
  by (simp add: optional_of_value_def)

end
