(* ===== verification/GearsErrno.thy ===== *)
theory GearsErrno
  imports GearsConcat GearsExceptions
begin

section \<open>The exceptions of failed system calls (gears/Errno.hpp, TypeTraits.hpp)\<close>

text \<open>
  \<open>throw_errno_exception\<close> composes the text of an exception in an array on the stack, from the texts it is
  given, the number of the error and what \<open>strerror_r\<close> says of it, and throws an exception with that text.
  \<open>strerror_r\<close> is a parameter, a C string as the memory from its pointer on; so are the size of the exception's
  class and the bytes that the two arrays hold before anything is written to them.
\<close>

record platform =
  strerror :: "int \<Rightarrow> byte list"
  exception_size :: nat
  stack_error_buf :: "byte list"
  stack_string :: "byte list"

text \<open>What the code relies on: the text of an error ends, and the class holds the array of its base class.\<close>

definition platform_ok :: "platform \<Rightarrow> bool" where
  "platform_ok p \<longleftrightarrow>
     (\<forall>error. 0 \<in> set (strerror p error)) \<and> DESC_EXCEPTION_BUFFER_SIZE \<le> exception_size p \<and>
     length (stack_error_buf p) = 128 \<and> length (stack_string p) = exception_size p"

text \<open>A string literal, and any C string with a known text.\<close>

definition c_string :: "byte list \<Rightarrow> byte list" where
  "c_string s = s @ [0]"

definition compose_safe :: "platform \<Rightarrow> byte list \<Rightarrow> nat \<Rightarrow> int \<Rightarrow> concat_arg list \<Rightarrow> byte list outcome" where
  "compose_safe p str string_size error args =
     (let error_buf = fst (int_to_str I32 error (stack_error_buf p) 128) in
      concat_args str string_size
        (args @ [C_String (c_string (ascii '': errno = '')), C_String error_buf,
          C_String (c_string (ascii '': '')), C_String (strerror p error)]))"

text \<open>The exception that is thrown, as its array.\<close>

definition throw_errno_exception :: "platform \<Rightarrow> int \<Rightarrow> concat_arg list \<Rightarrow> byte option list outcome" where
  "throw_errno_exception p error args =
     bind_sum (compose_safe p (stack_string p) (exception_size p) error args) (\<lambda>s.
       exception_of_c_string (Some (map Some s)))"

text \<open>\<open>safe_next\<close> does not overflow.\<close>

definition safe_next :: "int_kind \<Rightarrow> int \<Rightarrow> int" where
  "safe_next k number = (if number < greatest k then convert k (number + 1) else number)"

lemma safe_next_saturates: "fits k number \<Longrightarrow> safe_next k number = min (number + 1) (greatest k)"
  by (cases k) (auto simp: safe_next_def fits_def greatest_def least_def convert_def)

subsection \<open>The text of the exception\<close>

lemma takeWhile_c_string: "0 \<notin> set s \<Longrightarrow> takeWhile (\<lambda>b. b \<noteq> 0) (s @ 0 # rest) = s"
  by (induction s) auto

lemma digits_zero_free: "list_all is_digit ds \<Longrightarrow> 0 \<notin> set ds"
  by (auto simp: list_all_iff is_digit_def)

lemma number_text_zero_free: "0 \<notin> set (number_text n)"
proof -
  have "0 \<notin> set (digits_from_last \<bar>n\<bar>)"
    using digits_value(1) [of "\<bar>n\<bar>"] digits_zero_free by simp
  then show ?thesis by (auto simp: number_text_def abs_if split: if_splits)
qed

text \<open>The text without the cut: a number among the arguments loses its last digit, the number of the error does not.\<close>

definition errno_text :: "platform \<Rightarrow> int \<Rightarrow> concat_arg list \<Rightarrow> byte list" where
  "errno_text p error args =
     concat (map written_text args) @ ascii '': errno = '' @ number_text error @ ascii '': '' @
       takeWhile (\<lambda>b. b \<noteq> 0) (strerror p error)"

lemma args_fit_append:
  "args_fit sz args \<Longrightarrow> list_all is_text bs \<Longrightarrow> args_fit sz (args @ bs)"
  by (induction args arbitrary: sz) (simp_all add: texts_fit)

text \<open>Whatever the error, the texts and the bytes the stack held, the exception of a failed call says the texts,
  the number of the error in full and its message, cut to the buffer of exceptions; nothing outside the arrays
  is read or written.\<close>

theorem errno_exception_text:
  assumes "platform_ok p" and "fits I32 error" and "error \<noteq> least I32"
    and "args_fit (exception_size p) args" and "list_all (\<lambda>a. 0 \<notin> set (written_text a)) args"
  shows "bind_sum (throw_errno_exception p error args) what =
    Inr (take (DESC_EXCEPTION_BUFFER_SIZE - 1) (errno_text p error args))"
proof -
  define more where "more = [C_String (c_string (ascii '': errno = '')),
    C_String (number_text error @ [0] @ drop (length (number_text error) + 1) (stack_error_buf p)),
    C_String (c_string (ascii '': '')), C_String (strerror p error)]"
  let ?n = "exception_size p"
  have p: "\<And>e. 0 \<in> set (strerror p e)" "0 < ?n" "DESC_EXCEPTION_BUFFER_SIZE \<le> ?n" "?n \<le> length (stack_string p)"
    "length (stack_error_buf p) = 128"
    using assms(1) by (auto simp: platform_ok_def DESC_EXCEPTION_BUFFER_SIZE_def)
  have "int_to_str I32 error (stack_error_buf p) 128 =
      (number_text error @ [0] @ drop (length (number_text error) + 1) (stack_error_buf p), length (number_text error))"
    using assms(2,3) p(5) by (intro int_to_str_result) (simp_all add: digits10_def)
  then have "compose_safe p (stack_string p) ?n error args = concat_args (stack_string p) ?n (args @ more)"
    by (simp add: compose_safe_def more_def)
  moreover have zero_free: "0 \<notin> set (ascii '': errno = '')" "0 \<notin> set (ascii '': '')" by (simp_all add: ascii_def)
  then have "concat (map written_text (args @ more)) = errno_text p error args"
    by (simp add: more_def errno_text_def c_string_def takeWhile_c_string number_text_zero_free)
  moreover have "args_fit ?n (args @ more)"
    using assms(4) p(1) by (intro args_fit_append) (simp_all add: more_def c_string_def)
  ultimately obtain tl where "compose_safe p (stack_string p) ?n error args =
      Inr (take (?n - 1) (errno_text p error args) @ [0] @ tl)"
    using concat_args_written [OF p(2,4), of "args @ more"] by auto
  moreover have free: "0 \<notin> set (errno_text p error args)"
    using assms(5) zero_free number_text_zero_free by (auto simp: errno_text_def list_all_iff dest: set_takeWhileD)
  moreover have "takeWhile (\<lambda>b. b \<noteq> 0) (take m (errno_text p error args)) = take m (errno_text p error args)" for m
    using free in_set_takeD by (fastforce simp: takeWhile_eq_all_conv)
  ultimately show ?thesis
    using exception_of_c_string_what [of "replicate DESC_EXCEPTION_BUFFER_SIZE None" "take (?n - 1) (errno_text p error args)"]
      p(3) by (simp add: throw_errno_exception_def exception_of_c_string_def min_def)
qed

text \<open>A platform for the examples: one message for every error.\<close>

definition sample_platform :: platform where
  "sample_platform = \<lparr>strerror = (\<lambda>_. c_string (ascii ''Invalid argument'')), exception_size = DESC_EXCEPTION_BUFFER_SIZE,
     stack_error_buf = replicate 128 7, stack_string = replicate DESC_EXCEPTION_BUFFER_SIZE 7\<rparr>"

lemma sample_platform_ok: "platform_ok sample_platform"
  by (simp add: platform_ok_def sample_platform_def c_string_def)

theorem errno_exception_text_witness:
  "bind_sum (throw_errno_exception sample_platform 22 [C_String (c_string (ascii ''wait()''))]) what =
    Inr (ascii ''wait(): errno = 22: Invalid argument'')"
proof -
  have "bind_sum (throw_errno_exception sample_platform 22 [C_String (c_string (ascii ''wait()''))]) what =
      Inr (take (DESC_EXCEPTION_BUFFER_SIZE - 1)
        (errno_text sample_platform 22 [C_String (c_string (ascii ''wait()''))]))"
    by (rule errno_exception_text [OF sample_platform_ok])
      (simp_all add: fits_def least_def greatest_def c_string_def ascii_def)
  also have "errno_text sample_platform 22 [C_String (c_string (ascii ''wait()''))] =
      ascii ''wait(): errno = 22: Invalid argument''"
    unfolding errno_text_def sample_platform_def by code_simp
  finally show ?thesis by (simp add: DESC_EXCEPTION_BUFFER_SIZE_def ascii_def)
qed

end
