(* ===== verification/Conditions.thy ===== *)
theory Conditions
  imports GearsTime GearsErrno
begin

section \<open>Locks and conditions (gears/Lock.hpp, Condition.hpp, Condition.cpp)\<close>

text \<open>
  The wrappers of the pthread locks and of condition variables. A thread is modelled by the calls it makes to
  pthread, in order; the answer to a call is a parameter that may depend on everything that was called before.
  What a mutex does is not modelled: the theorems are about which calls are made, when, with which deadline,
  and about what their answers become. The mutex and the condition are those of one \<open>Condition\<close>.
\<close>

subsection \<open>Locks\<close>

datatype pthread_call =
    Mutex_Lock | Mutex_Unlock
  | Rwlock_Rdlock | Rwlock_Wrlock | Rwlock_Unlock
  | Spin_Lock_Call | Spin_Unlock_Call
  | Cond_Wait | Cond_Timedwait int int | Cond_Signal | Cond_Broadcast

text \<open>\<open>StaticInitializedMutex\<close> is what \<open>Mutex\<close> and \<open>RecursiveMutex\<close> are made of.\<close>

datatype lock_kind = Static_Mutex | Recursive_Mutex | Plain_Mutex | RW_Lock | Spin_Lock | Null_Lock

text \<open>\<open>SpinLock\<close> and \<open>NullLock\<close> have no \<open>lock_read\<close>.\<close>

fun lock_read :: "lock_kind \<Rightarrow> pthread_call list option" where
  "lock_read Static_Mutex = Some [Mutex_Lock]"
| "lock_read Recursive_Mutex = Some [Mutex_Lock]"
| "lock_read Plain_Mutex = Some [Mutex_Lock]"
| "lock_read RW_Lock = Some [Rwlock_Rdlock]"
| "lock_read Spin_Lock = None"
| "lock_read Null_Lock = None"

fun lock :: "lock_kind \<Rightarrow> pthread_call list" where
  "lock Static_Mutex = [Mutex_Lock]"
| "lock Recursive_Mutex = [Mutex_Lock]"
| "lock Plain_Mutex = [Mutex_Lock]"
| "lock RW_Lock = [Rwlock_Wrlock]"
| "lock Spin_Lock = [Spin_Lock_Call]"
| "lock Null_Lock = []"

fun unlock :: "lock_kind \<Rightarrow> pthread_call list" where
  "unlock Static_Mutex = [Mutex_Unlock]"
| "unlock Recursive_Mutex = [Mutex_Unlock]"
| "unlock Plain_Mutex = [Mutex_Unlock]"
| "unlock RW_Lock = [Rwlock_Unlock]"
| "unlock Spin_Lock = [Spin_Unlock_Call]"
| "unlock Null_Lock = []"

text \<open>
  What a piece of code does: from the calls made so far to those made after it, and its value or the exception
  it ends with. A guard locks, and its destructor unlocks however the scope ends.
\<close>

type_synonym ('e, 'a) code = "pthread_call list \<Rightarrow> pthread_call list \<times> ('e + 'a)"

definition write_guard :: "lock_kind \<Rightarrow> ('e, 'a) code \<Rightarrow> ('e, 'a) code" where
  "write_guard k body calls =
     (case body (calls @ lock k) of (calls', r) \<Rightarrow> (calls' @ unlock k, r))"

text \<open>The guard that \<open>RWLock\<close> alone has for reading; the other locks name \<open>BaseWriteGuard\<close> twice.\<close>

definition read_guard :: "lock_kind \<Rightarrow> ('e, 'a) code \<Rightarrow> ('e, 'a) code" where
  "read_guard k body calls =
     (case (k, lock_read k) of
        (RW_Lock, Some cs) \<Rightarrow> (case body (calls @ cs) of (calls', r) \<Rightarrow> (calls' @ unlock k, r))
      | _ \<Rightarrow> write_guard k body calls)"

subsection \<open>Conditions\<close>

text \<open>The exception of a failed call is its array; \<open>answer\<close> is what pthread returns, \<open>etimedout\<close> its code of a timeout.\<close>

type_synonym pthread = "pthread_call list \<Rightarrow> int"
type_synonym error_object = "byte option list outcome"

definition cond_call ::
  "platform \<Rightarrow> pthread \<Rightarrow> byte list \<Rightarrow> byte list \<Rightarrow> pthread_call \<Rightarrow> (error_object, unit) code" where
  "cond_call p answer FUN text_of_failure c calls =
     (let calls' = calls @ [c]; RES = answer calls' in
      (calls', if RES \<noteq> 0
         then Inl (throw_errno_exception p RES [C_String (c_string FUN), C_String (c_string text_of_failure)])
         else Inr ()))"

definition cond_wait :: "platform \<Rightarrow> pthread \<Rightarrow> (error_object, unit) code" where
  "cond_wait p answer =
     cond_call p answer (ascii ''Conditional::wait()'') (ascii ''Failed to wait on condition'') Cond_Wait"

definition cond_timed_wait ::
  "platform \<Rightarrow> int \<Rightarrow> pthread \<Rightarrow> timeval \<Rightarrow> timeval option \<Rightarrow> bool \<Rightarrow> (error_object, bool) code" where
  "cond_timed_wait p etimedout answer now time time_is_relative calls =
     (case time of
        None \<Rightarrow>
          (case cond_wait p answer calls of (calls', r) \<Rightarrow> (calls', bind_sum r (\<lambda>_. Inr True)))
      | Some t \<Rightarrow>
          (let real_time = (if time_is_relative then time_add now t else t);
               calls' = calls @ [Cond_Timedwait (tv_sec real_time) (tv_usec real_time * 1000)];
               RES = answer calls' in
           (calls',
            if RES = etimedout then Inr False
            else if RES \<noteq> 0
              then Inl (throw_errno_exception p RES
                [C_String (c_string (ascii ''Conditional::timed_wait()'')),
                 C_String (c_string (ascii ''Failed to wait on condition''))])
            else Inr True)))"

definition cond_signal :: "platform \<Rightarrow> pthread \<Rightarrow> (error_object, unit) code" where
  "cond_signal p answer =
     cond_call p answer (ascii ''Conditional::signal()'') (ascii ''Failed to signal condition'') Cond_Signal"

definition cond_broadcast :: "platform \<Rightarrow> pthread \<Rightarrow> (error_object, unit) code" where
  "cond_broadcast p answer =
     cond_call p answer (ascii ''Conditional::broadcast()'') (ascii ''Failed to broadcast condition'') Cond_Broadcast"

text \<open>\<open>Condition\<close> waits with its own mutex, and its \<open>Guard\<close> holds that mutex.\<close>

definition condition_guard :: "(error_object, 'a) code \<Rightarrow> (error_object, 'a) code" where
  "condition_guard body = write_guard Plain_Mutex body"

text \<open>What a scope does one after the other, until one throws; \<open>now\<close> is the time of the day then.\<close>

datatype condition_op =
    Op_Wait
  | Op_Timed_Wait timeval "timeval option" bool
  | Op_Signal
  | Op_Broadcast

fun run_op :: "platform \<Rightarrow> int \<Rightarrow> pthread \<Rightarrow> condition_op \<Rightarrow> (error_object, bool) code" where
  "run_op p etimedout answer Op_Wait calls =
     (case cond_wait p answer calls of (calls', r) \<Rightarrow> (calls', bind_sum r (\<lambda>_. Inr True)))"
| "run_op p etimedout answer (Op_Timed_Wait now time relative) calls =
     cond_timed_wait p etimedout answer now time relative calls"
| "run_op p etimedout answer Op_Signal calls =
     (case cond_signal p answer calls of (calls', r) \<Rightarrow> (calls', bind_sum r (\<lambda>_. Inr True)))"
| "run_op p etimedout answer Op_Broadcast calls =
     (case cond_broadcast p answer calls of (calls', r) \<Rightarrow> (calls', bind_sum r (\<lambda>_. Inr True)))"

fun run_ops :: "platform \<Rightarrow> int \<Rightarrow> pthread \<Rightarrow> condition_op list \<Rightarrow> (error_object, bool list) code" where
  "run_ops p etimedout answer [] calls = (calls, Inr [])"
| "run_ops p etimedout answer (op # ops) calls =
     (case run_op p etimedout answer op calls of
        (calls', Inl e) \<Rightarrow> (calls', Inl e)
      | (calls', Inr b) \<Rightarrow>
          (case run_ops p etimedout answer ops calls' of
             (calls'', r) \<Rightarrow> (calls'', bind_sum r (\<lambda>bs. Inr (b # bs)))))"

subsection \<open>Guards\<close>

text \<open>
  What pthread demands of the calls: a mutex is unlocked and a condition waited on only by a thread that holds
  the mutex, and it is not locked twice. The fold gives whether the thread holds the mutex after the calls, or
  \<open>None\<close> where it broke the rules.
\<close>

fun obeys :: "bool \<Rightarrow> pthread_call list \<Rightarrow> bool option" where
  "obeys held [] = Some held"
| "obeys held (c # cs) =
     (case c of
        Mutex_Lock \<Rightarrow> if held then None else obeys True cs
      | Mutex_Unlock \<Rightarrow> if held then obeys False cs else None
      | Cond_Wait \<Rightarrow> if held then obeys held cs else None
      | Cond_Timedwait s ns \<Rightarrow> if held \<and> 0 \<le> ns \<and> ns < 1000000000 then obeys held cs else None
      | _ \<Rightarrow> obeys held cs)"

lemma obeys_append:
  "obeys held (xs @ ys) = (case obeys held xs of None \<Rightarrow> None | Some h \<Rightarrow> obeys h ys)"
  by (induction xs arbitrary: held) (auto split: pthread_call.splits)

fun op_ok :: "condition_op \<Rightarrow> bool" where
  "op_ok (Op_Timed_Wait now time relative) =
     (norm_time now \<and> (case time of None \<Rightarrow> True | Some t \<Rightarrow> norm_time t))"
| "op_ok _ = True"

text \<open>Every operation makes one call.\<close>

fun op_call :: "condition_op \<Rightarrow> pthread_call" where
  "op_call (Op_Timed_Wait now (Some t) relative) =
     (let d = (if relative then time_add now t else t) in Cond_Timedwait (tv_sec d) (tv_usec d * 1000))"
| "op_call (Op_Timed_Wait now None relative) = Cond_Wait"
| "op_call Op_Wait = Cond_Wait"
| "op_call Op_Signal = Cond_Signal"
| "op_call Op_Broadcast = Cond_Broadcast"

lemmas cond_defs = cond_call_def cond_wait_def cond_timed_wait_def cond_signal_def cond_broadcast_def

lemma run_op_call: "fst (run_op p etimedout answer op calls) = calls @ [op_call op]"
  by (cases op) (auto simp: cond_defs Let_def split: option.splits prod.splits)

lemma op_call_obeys: "op_ok op \<Longrightarrow> obeys True [op_call op] = Some True"
  by (cases op rule: op_call.cases) (auto simp: norm_time_def time_add_def USEC_MAX_def Let_def)

lemma run_ops_obey:
  "list_all op_ok ops \<Longrightarrow> obeys False calls = Some True \<Longrightarrow>
   obeys False (fst (run_ops p etimedout answer ops calls)) = Some True"
proof (induction ops arbitrary: calls)
  case (Cons op ops)
  obtain calls' r where step: "run_op p etimedout answer op calls = (calls', r)" by fastforce
  then have "calls' = calls @ [op_call op]" using run_op_call [of p etimedout answer op calls] by simp
  then have "obeys False calls' = Some True"
    using Cons.prems op_call_obeys [of op] by (simp add: obeys_append)
  then show ?case
    using Cons.IH [of calls'] Cons.prems(1) step by (auto split: sum.splits prod.splits)
qed simp

text \<open>Whatever a scope does under a \<open>Condition::Guard\<close>, and whatever pthread answers, the mutex is locked once,
  held at every wait, and unlocked at the end, also when a call fails and throws; every deadline given to pthread has
  its nanoseconds in range.\<close>

theorem condition_guard_obeys_pthread:
  assumes "list_all op_ok ops" and "obeys False calls = Some False"
  shows "obeys False (fst (condition_guard (run_ops p etimedout answer ops) calls)) = Some False"
proof -
  obtain calls' r where run: "run_ops p etimedout answer ops (calls @ [Mutex_Lock]) = (calls', r)" by fastforce
  have "obeys False (calls @ [Mutex_Lock]) = Some True" using assms(2) by (simp add: obeys_append)
  then have "obeys False calls' = Some True"
    using run_ops_obey [OF assms(1), of "calls @ [Mutex_Lock]" p etimedout answer] run by simp
  then show ?thesis by (simp add: condition_guard_def write_guard_def run obeys_append)
qed

theorem condition_guard_obeys_pthread_witness:
  "fst (condition_guard (run_ops sample_platform 110 (\<lambda>calls. if last calls = Cond_Wait then 22 else 0)
      [Op_Signal, Op_Timed_Wait (Timeval 5 999999) (Some (Timeval 0 2)) True, Op_Wait, Op_Broadcast]) []) =
     [Mutex_Lock, Cond_Signal, Cond_Timedwait 6 1000, Cond_Wait, Mutex_Unlock] \<and>
   obeys False [Mutex_Lock, Cond_Signal, Cond_Timedwait 6 1000, Cond_Wait, Mutex_Unlock] = Some False"
proof -
  let ?ops = "[Op_Signal, Op_Timed_Wait (Timeval 5 999999) (Some (Timeval 0 2)) True, Op_Wait, Op_Broadcast]"
  let ?answer = "\<lambda>calls :: pthread_call list. if last calls = Cond_Wait then 22 else (0 :: int)"
  have calls: "fst (condition_guard (run_ops sample_platform 110 ?answer ?ops) []) =
      [Mutex_Lock, Cond_Signal, Cond_Timedwait 6 1000, Cond_Wait, Mutex_Unlock]"
    by (simp add: condition_guard_def write_guard_def cond_defs Let_def time_add_def USEC_MAX_def)
  have "list_all op_ok ?ops" by (simp add: norm_time_def USEC_MAX_def)
  from condition_guard_obeys_pthread [OF this, of "[]" sample_platform 110 ?answer]
  show ?thesis unfolding calls by simp
qed

text \<open>A timed wait: without a time it waits until it is woken; with one it gives pthread the deadline to the
  nanosecond, the time itself or the interval from now, returns false exactly when pthread times out, and throws
  an exception that tells the error when it fails otherwise.\<close>

theorem timed_wait_deadline:
  assumes "norm_time now" and "norm_time t" and "platform_ok p" and "etimedout \<noteq> 0"
    and "\<forall>cs. fits I32 (answer cs) \<and> answer cs \<noteq> least I32"
  shows "\<exists>s ns r. cond_timed_wait p etimedout answer now (Some t) relative calls =
      (calls @ [Cond_Timedwait s ns], r) \<and>
    s * 1000000000 + ns = 1000 * (if relative then microseconds now + microseconds t else microseconds t) \<and>
    0 \<le> ns \<and> ns < 1000000000 \<and>
    (let RES = answer (calls @ [Cond_Timedwait s ns]) in
      (r = Inr False \<longleftrightarrow> RES = etimedout) \<and> (r = Inr True \<longleftrightarrow> RES = 0) \<and>
      (RES \<noteq> etimedout \<and> RES \<noteq> 0 \<longrightarrow> (\<exists>e. r = Inl e \<and> bind_sum e what =
        Inr (take (DESC_EXCEPTION_BUFFER_SIZE - 1) (errno_text p RES
          [C_String (c_string (ascii ''Conditional::timed_wait()'')),
           C_String (c_string (ascii ''Failed to wait on condition''))]))))) \<and>
    cond_timed_wait p etimedout answer now None relative calls =
      (calls @ [Cond_Wait], bind_sum (snd (cond_wait p answer calls)) (\<lambda>_. Inr True))"
proof -
  define d where "d = (if relative then time_add now t else t)"
  define c where "c = Cond_Timedwait (tv_sec d) (tv_usec d * 1000)"
  let ?args = "[C_String (c_string (ascii ''Conditional::timed_wait()'')),
    C_String (c_string (ascii ''Failed to wait on condition''))]"
  have d: "norm_time d" "microseconds d = (if relative then microseconds now + microseconds t else microseconds t)"
    using assms(1,2) by (auto simp: d_def intro: norm_time_add)
  have "tv_sec d * 1000000000 + tv_usec d * 1000 = 1000 * microseconds d" "0 \<le> tv_usec d * 1000"
    "tv_usec d * 1000 < 1000000000"
    using d(1) by (simp_all add: microseconds_def norm_time_def USEC_MAX_def)
  moreover have "bind_sum (throw_errno_exception p (answer (calls @ [c])) ?args) what =
      Inr (take (DESC_EXCEPTION_BUFFER_SIZE - 1) (errno_text p (answer (calls @ [c])) ?args))"
    by (rule errno_exception_text [OF assms(3)]) (use assms(5) in \<open>simp_all add: c_string_def ascii_def\<close>)
  moreover define r where "r = (if answer (calls @ [c]) = etimedout then Inr False
      else if answer (calls @ [c]) \<noteq> 0 then Inl (throw_errno_exception p (answer (calls @ [c])) ?args)
      else Inr True)"
  moreover have "cond_timed_wait p etimedout answer now (Some t) relative calls = (calls @ [c], r)"
    by (simp add: cond_timed_wait_def Let_def d_def c_def r_def)
  moreover have "r = Inr False \<longleftrightarrow> answer (calls @ [c]) = etimedout" "r = Inr True \<longleftrightarrow> answer (calls @ [c]) = 0"
    using assms(4) by (simp_all add: r_def)
  moreover have "cond_timed_wait p etimedout answer now None relative calls =
      (calls @ [Cond_Wait], bind_sum (snd (cond_wait p answer calls)) (\<lambda>_. Inr True))"
    by (simp add: cond_defs Let_def)
  ultimately show ?thesis
    unfolding Let_def d(2) [symmetric] c_def by (intro exI conjI) (assumption | simp)+
qed

theorem timed_wait_deadline_witness:
  "\<exists>s ns r. cond_timed_wait sample_platform 110 (\<lambda>_. 110) (Timeval 5 999999) (Some (Timeval 0 2)) True [] =
      ([] @ [Cond_Timedwait s ns], r) \<and> s * 1000000000 + ns = 6000001000 \<and> ns < 1000000000 \<and> r = Inr False"
proof -
  have "norm_time (Timeval 5 999999)" "norm_time (Timeval 0 2)" by (simp_all add: norm_time_def USEC_MAX_def)
  moreover have "\<forall>cs :: pthread_call list. fits I32 110 \<and> 110 \<noteq> least I32"
    by (simp add: fits_def least_def greatest_def)
  ultimately show ?thesis
    using timed_wait_deadline [of "Timeval 5 999999" "Timeval 0 2" sample_platform 110 "\<lambda>_. 110" True "[]"]
      sample_platform_ok by (auto simp: microseconds_def USEC_MAX_def Let_def)
qed

end
