(* ===== verification/Locks.thy ===== *)
theory Locks
  imports Conditions
begin

section \<open>What the guards guarantee (gears/Lock.hpp)\<close>

text \<open>
  The theory Conditions has the calls that the lock classes and their guards make to pthread. Here any number of threads make guards
  of one lock, each in the nested order of its scopes, and pthread answers as it documents: a mutex has one owner, and a
  second lock by the owner blocks for ever unless the mutex was initialised as recursive; a lock for reading and writing has
  many readers or one writer; unlocking by a thread that does not hold the lock is undefined (\<open>misused\<close>). Whether a mutex is recursive
  follows from the calls of its constructor.

  The theorem: a guard of one thread keeps every other thread from having one, except for the readers of an \<open>RWLock\<close>; the lock is held
  exactly while guards of it live; and no destructor unlocks what its thread does not hold.
\<close>

subsection \<open>Constructors and destructors\<close>

datatype setup_call =
    Attr_Init | Attr_Settype_Recursive | Attr_Setpshared int | Mutex_Init bool | Mutex_Destroy
  | Rwlock_Init | Rwlock_Destroy | Spin_Init int | Spin_Destroy

text \<open>With or without the argument \<open>pshared\<close>; \<open>Mutex_Init\<close> says whether it is given the attributes.\<close>

definition recursive_mutex_new :: "int option \<Rightarrow> setup_call list" where
  "recursive_mutex_new pshared =
     Attr_Init # (case pshared of None \<Rightarrow> [] | Some n \<Rightarrow> [Attr_Setpshared n]) @ [Attr_Settype_Recursive, Mutex_Init True]"

definition mutex_new :: "int option \<Rightarrow> setup_call list" where
  "mutex_new pshared =
     (case pshared of None \<Rightarrow> [Mutex_Init False] | Some n \<Rightarrow> [Attr_Init, Attr_Setpshared n, Mutex_Init True])"

definition rwlock_new :: "setup_call list" where
  "rwlock_new = [Rwlock_Init]"

definition spinlock_new :: "int \<Rightarrow> setup_call list" where
  "spinlock_new pshared = [Spin_Init pshared]"

text \<open>A \<open>StaticInitializedMutex\<close> has an initialiser and no constructor, a \<open>NullLock\<close> no member; the default of \<open>SpinLock\<close> is
  \<open>PTHREAD_PROCESS_PRIVATE\<close>, which is 0.\<close>

fun lock_new :: "lock_kind \<Rightarrow> int option \<Rightarrow> setup_call list" where
  "lock_new Static_Mutex pshared = []"
| "lock_new Recursive_Mutex pshared = recursive_mutex_new pshared"
| "lock_new Plain_Mutex pshared = mutex_new pshared"
| "lock_new RW_Lock pshared = rwlock_new"
| "lock_new Spin_Lock pshared = spinlock_new (case pshared of None \<Rightarrow> 0 | Some n \<Rightarrow> n)"
| "lock_new Null_Lock pshared = []"

text \<open>\<open>pthread_mutex_init\<close> takes the type from the attributes as they are then.\<close>

fun made_recursive :: "bool \<Rightarrow> setup_call list \<Rightarrow> bool" where
  "made_recursive attr [] = False"
| "made_recursive attr (c # cs) =
     (case c of
        Attr_Init \<Rightarrow> made_recursive False cs
      | Attr_Settype_Recursive \<Rightarrow> made_recursive True cs
      | Mutex_Init with_attr \<Rightarrow> with_attr \<and> attr
      | _ \<Rightarrow> made_recursive attr cs)"

definition relocks :: "lock_kind \<Rightarrow> int option \<Rightarrow> bool" where
  "relocks k pshared = made_recursive False (lock_new k pshared)"

lemma relocks_iff [simp]: "relocks k pshared \<longleftrightarrow> k = Recursive_Mutex"
  by (cases k; cases pshared)
    (simp_all add: relocks_def recursive_mutex_new_def mutex_new_def rwlock_new_def spinlock_new_def)

subsection \<open>Threads with guards\<close>

text \<open>The lock, with its owner and how often it has locked it, and the threads that hold it for reading; and the guards of each
  thread, the innermost first, \<open>True\<close> for a \<open>WriteGuard\<close>.\<close>

record lock_world =
  writer :: "(nat \<times> nat) option"
  reading :: "nat list"
  guards :: "nat \<Rightarrow> bool list"
  misused :: bool

definition world_new :: lock_world where
  "world_new = \<lparr>writer = None, reading = [], guards = (\<lambda>_. []), misused = False\<rparr>"

definition take_alone :: "bool \<Rightarrow> nat \<Rightarrow> lock_world \<Rightarrow> lock_world option" where
  "take_alone relock t w =
     (case writer w of
        None \<Rightarrow> if reading w = [] then Some (w\<lparr>writer := Some (t, 1)\<rparr>) else None
      | Some (u, n) \<Rightarrow> if relock \<and> u = t then Some (w\<lparr>writer := Some (t, Suc n)\<rparr>) else None)"

definition give_back :: "nat \<Rightarrow> lock_world \<Rightarrow> lock_world" where
  "give_back t w =
     (case writer w of
        Some (u, n) \<Rightarrow>
          if u = t then w\<lparr>writer := (if n \<le> 1 then None else Some (t, n - 1))\<rparr> else w\<lparr>misused := True\<rparr>
      | None \<Rightarrow> if t \<in> set (reading w) then w\<lparr>reading := remove1 t (reading w)\<rparr> else w\<lparr>misused := True\<rparr>)"

text \<open>A call of the thread \<open>t\<close> as pthread documents it; \<open>None\<close> blocks.\<close>

fun pthread_do :: "bool \<Rightarrow> nat \<Rightarrow> pthread_call \<Rightarrow> lock_world \<Rightarrow> lock_world option" where
  "pthread_do relock t Mutex_Lock w = take_alone relock t w"
| "pthread_do relock t Rwlock_Wrlock w = take_alone False t w"
| "pthread_do relock t Spin_Lock_Call w = take_alone False t w"
| "pthread_do relock t Rwlock_Rdlock w = (if writer w = None then Some (w\<lparr>reading := t # reading w\<rparr>) else None)"
| "pthread_do relock t c w = Some (if c \<in> {Mutex_Unlock, Rwlock_Unlock, Spin_Unlock_Call} then give_back t w else w)"

fun pthread_run :: "bool \<Rightarrow> nat \<Rightarrow> pthread_call list \<Rightarrow> lock_world \<Rightarrow> lock_world option" where
  "pthread_run relock t [] w = Some w"
| "pthread_run relock t (c # cs) w = Option.bind (pthread_do relock t c w) (pthread_run relock t cs)"

text \<open>The calls of a guard's constructor: \<open>ReadGuard\<close> is \<open>BaseReadGuard\<close> for \<open>RWLock\<close> alone.\<close>

fun guard_calls :: "lock_kind \<Rightarrow> bool \<Rightarrow> pthread_call list" where
  "guard_calls RW_Lock False = the (lock_read RW_Lock)"
| "guard_calls k writing = lock k"

definition guard_enter :: "lock_kind \<Rightarrow> int option \<Rightarrow> nat \<Rightarrow> bool \<Rightarrow> lock_world \<Rightarrow> lock_world option" where
  "guard_enter k pshared t writing w =
     map_option (\<lambda>w'. w'\<lparr>guards := (guards w')(t := writing # guards w' t)\<rparr>)
       (pthread_run (relocks k pshared) t (guard_calls k writing) w)"

definition guard_leave :: "lock_kind \<Rightarrow> int option \<Rightarrow> nat \<Rightarrow> lock_world \<Rightarrow> lock_world option" where
  "guard_leave k pshared t w =
     map_option (\<lambda>w'. w'\<lparr>guards := (guards w')(t := tl (guards w' t))\<rparr>)
       (pthread_run (relocks k pshared) t (unlock k) w)"

inductive guards_reachable :: "lock_kind \<Rightarrow> int option \<Rightarrow> lock_world \<Rightarrow> bool" for k :: lock_kind and pshared :: "int option" where
  gr_init: "guards_reachable k pshared world_new"
| gr_enter: "guards_reachable k pshared w \<Longrightarrow> guard_enter k pshared t writing w = Some w' \<Longrightarrow> guards_reachable k pshared w'"
| gr_leave: "guards_reachable k pshared w \<Longrightarrow> guards w t \<noteq> [] \<Longrightarrow> guard_leave k pshared t w = Some w' \<Longrightarrow>
    guards_reachable k pshared w'"

subsection \<open>The lock and the guards agree\<close>

definition alone :: "lock_kind \<Rightarrow> lock_world \<Rightarrow> bool" where
  "alone k w \<longleftrightarrow> reading w = [] \<and>
     (case writer w of
        None \<Rightarrow> guards w = (\<lambda>_. [])
      | Some (u, n) \<Rightarrow> 0 < n \<and> n = length (guards w u) \<and> (k = Recursive_Mutex \<or> n = 1) \<and> (\<forall>t. t \<noteq> u \<longrightarrow> guards w t = []))"

definition shared :: "lock_world \<Rightarrow> bool" where
  "shared w \<longleftrightarrow> writer w = None \<and> (\<forall>t. True \<notin> set (guards w t) \<and> count_list (reading w) t = length (guards w t))"

definition lock_agrees :: "lock_kind \<Rightarrow> lock_world \<Rightarrow> bool" where
  "lock_agrees k w \<longleftrightarrow> \<not> misused w \<and> (alone k w \<or> k = RW_Lock \<and> shared w)"

lemma take_alone_agrees:
  assumes "lock_agrees k w" and "take_alone (k = Recursive_Mutex) t w = Some w'"
  shows "lock_agrees k (w'\<lparr>guards := (guards w')(t := x # guards w' t)\<rparr>)"
  using assms
  by (auto simp: lock_agrees_def alone_def shared_def take_alone_def split: option.splits if_splits)

lemma give_back_agrees:
  assumes "lock_agrees k w" and "guards w t \<noteq> []"
  shows "lock_agrees k ((give_back t w)\<lparr>guards := (guards w)(t := tl (guards w t))\<rparr>)"
proof (cases "alone k w")
  case True
  have "length (guards w t) \<le> 1 \<Longrightarrow> tl (guards w t) = []" using assms(2) by (cases "guards w t") auto
  then show ?thesis
    using True assms by (auto simp: lock_agrees_def alone_def give_back_def fun_eq_iff split: option.splits if_splits)
next
  case False
  then have s: "k = RW_Lock" "shared w" "\<not> misused w" using assms(1) by (auto simp: lock_agrees_def)
  then have count: "count_list (reading w) t = length (guards w t)" "writer w = None" by (auto simp: shared_def)
  then have t: "t \<in> set (reading w)" using assms(2) by (metis count_notin length_0_conv)
  have "set (tl (guards w t)) \<subseteq> set (guards w t)" by (cases "guards w t") auto
  then have "True \<notin> set (tl (guards w t))" using s(2) by (auto simp: shared_def)
  moreover have "count_list (remove1 t (reading w)) u = length (((guards w)(t := tl (guards w t))) u)" for u
    using s(2) t by (simp add: shared_def count_list_remove1)
  ultimately show ?thesis using s count t by (auto simp: lock_agrees_def shared_def give_back_def)
qed

lemma guards_kept [simp]: "guards (give_back t w) = guards w"
  by (simp add: give_back_def split: option.splits)

lemma enter_agrees:
  assumes "lock_agrees k w" and "guard_enter k pshared t writing w = Some w'" and "k \<noteq> Null_Lock"
  shows "lock_agrees k w'"
proof (cases "k = RW_Lock \<and> \<not> writing")
  case True
  then obtain w1 where w1: "pthread_do False t Rwlock_Rdlock w = Some w1"
    "w' = w1\<lparr>guards := (guards w1)(t := False # guards w1 t)\<rparr>"
    using assms(2) by (auto simp: guard_enter_def split: if_splits)
  then have "writer w = None" "w1 = w\<lparr>reading := t # reading w\<rparr>" by (auto split: if_splits)
  then show ?thesis
    using True assms(1) w1(2) by (auto simp: lock_agrees_def alone_def shared_def)
next
  case False
  then have "pthread_run (relocks k pshared) t (guard_calls k writing) w = take_alone (k = Recursive_Mutex) t w"
    using assms(3) by (cases k; cases writing) (auto split: Option.bind_splits)
  then show ?thesis using assms(1,2) take_alone_agrees by (auto simp: guard_enter_def)
qed

lemma leave_agrees:
  assumes "lock_agrees k w" and "guards w t \<noteq> []" and "guard_leave k pshared t w = Some w'" and "k \<noteq> Null_Lock"
  shows "lock_agrees k w'"
proof -
  have "pthread_run (relocks k pshared) t (unlock k) w = Some (give_back t w)" using assms(4) by (cases k) auto
  then show ?thesis using assms(1-3) give_back_agrees by (auto simp: guard_leave_def)
qed

lemma guards_reachable_agree: "guards_reachable k pshared w \<Longrightarrow> k \<noteq> Null_Lock \<Longrightarrow> lock_agrees k w"
proof (induction rule: guards_reachable.induct)
  case gr_init
  then show ?case by (simp add: lock_agrees_def alone_def world_new_def)
next
  case (gr_enter w t writing w')
  then show ?case using enter_agrees by blast
next
  case (gr_leave w t w')
  then show ?case using leave_agrees by blast
qed

subsection \<open>Properties\<close>


text \<open>Two readers of an \<open>RWLock\<close>, one of them twice.\<close>

definition two_readers :: lock_world where
  "two_readers = \<lparr>writer = None, reading = [1, 2, 1], guards = (\<lambda>_. [])(1 := [False, False], 2 := [False]), misused = False\<rparr>"

lemma two_readers_reachable: "guards_reachable RW_Lock None two_readers"
proof -
  let ?w = "\<lambda>r g. \<lparr>writer = None, reading = r, guards = g, misused = False\<rparr>"
  have "guards_reachable RW_Lock None (?w [1] ((\<lambda>_. [])(1 := [False])))"
    by (rule gr_enter [OF gr_init, of _ _ 1 False]) (simp add: guard_enter_def world_new_def)
  then have "guards_reachable RW_Lock None (?w [2, 1] ((\<lambda>_. [])(1 := [False], 2 := [False])))"
    by (rule gr_enter [of _ _ _ 2 False]) (simp add: guard_enter_def)
  then show ?thesis
    unfolding two_readers_def by (rule gr_enter [of _ _ _ 1 False]) (simp add: guard_enter_def fun_upd_twist)
qed


end
