(* ===== verification/SubStrings.thy ===== *)
theory SubStrings
  imports Prelude "HOL-Library.List_Lexorder"
begin

section \<open>References to parts of strings (gears/SubString.hpp, .tpp)\<close>

text \<open>
  \<open>BasicSubString\<close> holds a pointer and a length; it owns nothing. The memory it points into is a list
  of bytes, a pointer an index of it or null. Reading outside the memory, or through null, is a fault; the
  exceptions of \<open>CheckerRough\<close> are the other errors. The template parameter \<open>Checker\<close> is an argument:
  \<open>SubString\<close> itself is the instance with \<open>CheckerNone\<close>, which checks nothing. \<open>size_t\<close> is \<open>nat\<close> with the
  wrap-around of its subtraction written out.

  \<open>view\<close> is the text a reference stands for, \<open>valid\<close> that its memory is there. The theorems give every
  operation on valid references as an operation on texts, and the runs where the code leaves the valid
  references: positions past the end, which \<open>CheckerNone\<close> lets through, and the comparisons with C strings.
\<close>

subsection \<open>Memory\<close>

type_synonym memory = "byte list"
type_synonym pointer = "nat option"

datatype text_error = Out_Of_Range | Logic_Error | Fault fault

type_synonym 'a text_result = "text_error + 'a"

datatype checker = Checker_None | Checker_Rough

record sub_string =
  begin_at :: pointer
  length_of :: nat

definition NPOS :: nat where
  "NPOS = 2 ^ 64 - 1"

definition size_minus :: "nat \<Rightarrow> nat \<Rightarrow> nat" where
  "size_minus a b = (if b \<le> a then a - b else 2 ^ 64 - (b - a))"

definition read_byte :: "memory \<Rightarrow> pointer \<Rightarrow> nat \<Rightarrow> byte text_result" where
  "read_byte mem p i =
     (case p of
        None \<Rightarrow> Inl (Fault Null_Dereference)
      | Some a \<Rightarrow> if a + i < length mem then Inr (mem ! (a + i)) else Inl (Fault Out_Of_Bounds))"

definition plus_pointer :: "pointer \<Rightarrow> nat \<Rightarrow> pointer text_result" where
  "plus_pointer p n =
     (case p of
        None \<Rightarrow> if n = 0 then Inr None else Inl (Fault Null_Dereference)
      | Some a \<Rightarrow> Inr (Some (a + n)))"

subsection \<open>Character traits and checkers\<close>

text \<open>\<open>char_traits<char>::lt\<close> compares characters as unsigned bytes.\<close>

fun traits_compare_from :: "memory \<Rightarrow> pointer \<Rightarrow> pointer \<Rightarrow> nat \<Rightarrow> nat \<Rightarrow> int text_result" where
  "traits_compare_from mem p1 p2 i 0 = Inr 0"
| "traits_compare_from mem p1 p2 i (Suc n) =
     bind_sum (read_byte mem p1 i) (\<lambda>x.
       bind_sum (read_byte mem p2 i) (\<lambda>y.
         if x \<noteq> y then Inr (if x < y then - 1 else 1)
         else traits_compare_from mem p1 p2 (i + 1) n))"

definition traits_compare :: "memory \<Rightarrow> pointer \<Rightarrow> pointer \<Rightarrow> nat \<Rightarrow> int text_result" where
  "traits_compare mem str1 str2 n = traits_compare_from mem str1 str2 0 n"

fun read_range :: "memory \<Rightarrow> pointer \<Rightarrow> nat \<Rightarrow> byte list text_result" where
  "read_range mem p n =
     (if n = 0 then Inr []
      else case p of
          None \<Rightarrow> Inl (Fault Null_Dereference)
        | Some a \<Rightarrow>
            if a + n \<le> length mem then Inr (take n (drop a mem)) else Inl (Fault Out_Of_Bounds))"

text \<open>\<open>CharTraits::copy\<close>: one byte is assigned, more are copied; the target is part of the memory.\<close>

definition traits_copy :: "memory \<Rightarrow> pointer \<Rightarrow> pointer \<Rightarrow> nat \<Rightarrow> memory text_result" where
  "traits_copy mem str1 str2 n =
     bind_sum (if n = 1 then bind_sum (read_byte mem str2 0) (\<lambda>b. Inr [b]) else read_range mem str2 n) (\<lambda>bytes.
       if n = 0 then Inr mem
       else case str1 of
           None \<Rightarrow> Inl (Fault Null_Dereference)
         | Some a \<Rightarrow>
             if a + n \<le> length mem then Inr (take a mem @ bytes @ drop (a + n) mem)
             else Inl (Fault Out_Of_Bounds))"

fun check_position :: "checker \<Rightarrow> nat \<Rightarrow> nat \<Rightarrow> unit text_result" where
  "check_position Checker_None len pos = Inr ()"
| "check_position Checker_Rough len pos = (if pos > len then Inl Out_Of_Range else Inr ())"

fun check_pointer :: "checker \<Rightarrow> pointer \<Rightarrow> unit text_result" where
  "check_pointer Checker_None p = Inr ()"
| "check_pointer Checker_Rough p = (if p = None then Inl Logic_Error else Inr ())"

fun check_pointer_count :: "checker \<Rightarrow> pointer \<Rightarrow> nat \<Rightarrow> unit text_result" where
  "check_pointer_count Checker_None p count = Inr ()"
| "check_pointer_count Checker_Rough p count = (if p = None \<and> count \<noteq> 0 then Inl Logic_Error else Inr ())"

definition address :: "pointer \<Rightarrow> nat" where
  "address p = (case p of None \<Rightarrow> 0 | Some a \<Rightarrow> a + 1)"

fun check_pointer_range :: "checker \<Rightarrow> pointer \<Rightarrow> pointer \<Rightarrow> unit text_result" where
  "check_pointer_range Checker_None p q = Inr ()"
| "check_pointer_range Checker_Rough p q =
     (if (p = None) \<noteq> (q = None) \<or> address q < address p then Inl Logic_Error else Inr ())"

subsection \<open>Constructors, assignment and access\<close>

definition begin_plus_position :: "checker \<Rightarrow> sub_string \<Rightarrow> nat \<Rightarrow> pointer text_result" where
  "begin_plus_position ch s position =
     bind_sum (check_position ch (length_of s) position) (\<lambda>_. plus_pointer (begin_at s) position)"

definition get_available_length :: "sub_string \<Rightarrow> nat \<Rightarrow> nat \<Rightarrow> nat" where
  "get_available_length s pos count = min count (size_minus (length_of s) pos)"

text \<open>A \<open>std::string\<close> is the address and the length of its data.\<close>

definition sub_of_string :: "nat \<Rightarrow> nat \<Rightarrow> sub_string" where
  "sub_of_string data_ptr n = \<lparr>begin_at = Some data_ptr, length_of = n\<rparr>"

definition sub_of_count :: "checker \<Rightarrow> pointer \<Rightarrow> nat \<Rightarrow> sub_string text_result" where
  "sub_of_count ch p count =
     bind_sum (check_pointer_count ch p count) (\<lambda>_. Inr \<lparr>begin_at = p, length_of = count\<rparr>)"

definition sub_of_range :: "checker \<Rightarrow> pointer \<Rightarrow> pointer \<Rightarrow> sub_string text_result" where
  "sub_of_range ch p q =
     bind_sum (check_pointer_range ch p q) (\<lambda>_.
       Inr \<lparr>begin_at = p, length_of = size_minus (address q) (address p)\<rparr>)"

text \<open>\<open>Traits::length\<close>: the index of the zero.\<close>

function c_length_from :: "memory \<Rightarrow> nat \<Rightarrow> nat \<Rightarrow> nat text_result" where
  "c_length_from mem a i =
     (if length mem \<le> a + i then Inl (Fault Out_Of_Bounds)
      else if mem ! (a + i) = 0 then Inr i else c_length_from mem a (i + 1))"
  by auto
termination by (relation "measure (\<lambda>(mem, a, i). length mem - (a + i))") auto

declare c_length_from.simps [simp del]

definition c_length :: "memory \<Rightarrow> pointer \<Rightarrow> nat text_result" where
  "c_length mem p =
     (case p of None \<Rightarrow> Inl (Fault Null_Dereference) | Some a \<Rightarrow> c_length_from mem a 0)"

definition sub_of_c_string :: "checker \<Rightarrow> memory \<Rightarrow> pointer \<Rightarrow> sub_string text_result" where
  "sub_of_c_string ch mem p =
     bind_sum (check_pointer ch p) (\<lambda>_.
       bind_sum (c_length mem p) (\<lambda>n. Inr \<lparr>begin_at = p, length_of = n\<rparr>))"

definition empty_sub_string :: sub_string where
  "empty_sub_string = \<lparr>begin_at = None, length_of = 0\<rparr>"

definition assign_count :: "checker \<Rightarrow> sub_string \<Rightarrow> pointer \<Rightarrow> nat \<Rightarrow> sub_string text_result" where
  "assign_count ch s p count =
     bind_sum (check_pointer_count ch p count) (\<lambda>_. Inr (s\<lparr>begin_at := p, length_of := count\<rparr>))"

definition assign_range :: "checker \<Rightarrow> sub_string \<Rightarrow> pointer \<Rightarrow> pointer \<Rightarrow> sub_string text_result" where
  "assign_range ch s p q =
     bind_sum (check_pointer_range ch p q) (\<lambda>_.
       Inr (s\<lparr>begin_at := p, length_of := size_minus (address q) (address p)\<rparr>))"

definition assign_part :: "checker \<Rightarrow> sub_string \<Rightarrow> sub_string \<Rightarrow> nat \<Rightarrow> nat \<Rightarrow> sub_string text_result" where
  "assign_part ch s str pos count =
     bind_sum (begin_plus_position ch str pos) (\<lambda>p.
       Inr (s\<lparr>begin_at := p, length_of := get_available_length str pos count\<rparr>))"

definition assign_sub :: "sub_string \<Rightarrow> sub_string \<Rightarrow> sub_string" where
  "assign_sub s str = s\<lparr>begin_at := begin_at str, length_of := length_of str\<rparr>"

definition char_at :: "checker \<Rightarrow> memory \<Rightarrow> sub_string \<Rightarrow> nat \<Rightarrow> byte text_result" where
  "char_at ch mem s pos = bind_sum (begin_plus_position ch s pos) (\<lambda>p. read_byte mem p 0)"

definition clear_sub :: "sub_string \<Rightarrow> sub_string" where
  "clear_sub s = s\<lparr>begin_at := None, length_of := 0\<rparr>"

definition substr :: "checker \<Rightarrow> sub_string \<Rightarrow> nat \<Rightarrow> nat \<Rightarrow> sub_string text_result" where
  "substr ch s pos count =
     bind_sum (begin_plus_position ch s pos) (\<lambda>p.
       sub_of_count ch p (get_available_length s pos count))"

definition erase_front :: "sub_string \<Rightarrow> nat \<Rightarrow> sub_string" where
  "erase_front s count =
     (case begin_at s of
        None \<Rightarrow> s
      | Some a \<Rightarrow> let n = min count (length_of s) in s\<lparr>begin_at := Some (a + n), length_of := length_of s - n\<rparr>)"

definition erase_back :: "sub_string \<Rightarrow> nat \<Rightarrow> sub_string" where
  "erase_back s count =
     (case begin_at s of None \<Rightarrow> s | Some a \<Rightarrow> s\<lparr>length_of := length_of s - min count (length_of s)\<rparr>)"

definition copy_to :: "checker \<Rightarrow> memory \<Rightarrow> sub_string \<Rightarrow> pointer \<Rightarrow> nat \<Rightarrow> nat \<Rightarrow> (memory \<times> nat) text_result" where
  "copy_to ch mem s p count pos =
     (let n = get_available_length s pos count in
      bind_sum (check_pointer_count ch p n) (\<lambda>_.
        if n = 0 then Inr (mem, 0)
        else bind_sum (check_position ch (length_of s) pos) (\<lambda>_.
          bind_sum (plus_pointer (begin_at s) pos) (\<lambda>q.
            bind_sum (traits_copy mem p q n) (\<lambda>mem'. Inr (mem', n))))))"

text \<open>The string made of the bytes (\<open>str\<close>, \<open>assign_to\<close>), appended to another (\<open>append_to\<close>), written out.\<close>

definition sub_str :: "memory \<Rightarrow> sub_string \<Rightarrow> byte list text_result" where
  "sub_str mem s = read_range mem (begin_at s) (length_of s)"

definition append_to :: "memory \<Rightarrow> sub_string \<Rightarrow> byte list \<Rightarrow> byte list text_result" where
  "append_to mem s target = bind_sum (read_range mem (begin_at s) (length_of s)) (\<lambda>bytes. Inr (target @ bytes))"

definition put_out :: "memory \<Rightarrow> sub_string \<Rightarrow> byte list \<Rightarrow> byte list text_result" where
  "put_out mem s ostr =
     (if length_of s \<noteq> 0 then
        bind_sum (read_range mem (begin_at s) (length_of s)) (\<lambda>bytes. Inr (ostr @ bytes))
      else Inr ostr)"

definition swap_subs :: "sub_string \<Rightarrow> sub_string \<Rightarrow> sub_string \<times> sub_string" where
  "swap_subs a b =
     (a\<lparr>begin_at := begin_at b, length_of := length_of b\<rparr>, b\<lparr>begin_at := begin_at a, length_of := length_of a\<rparr>)"

subsection \<open>Comparison\<close>

definition compare_subs :: "memory \<Rightarrow> sub_string \<Rightarrow> sub_string \<Rightarrow> int text_result" where
  "compare_subs mem s other =
     bind_sum (traits_compare mem (begin_at s) (begin_at other) (min (length_of s) (length_of other))) (\<lambda>r.
       Inr (if r \<noteq> 0 then r
            else if length_of s = length_of other then 0
            else if length_of s < length_of other then - 1 else 1))"

definition compare_part ::
  "checker \<Rightarrow> memory \<Rightarrow> sub_string \<Rightarrow> nat \<Rightarrow> nat \<Rightarrow> sub_string \<Rightarrow> int text_result" where
  "compare_part ch mem s pos1 count1 other =
     bind_sum (substr ch s pos1 count1) (\<lambda>part. compare_subs mem part other)"

definition compare_parts ::
  "checker \<Rightarrow> memory \<Rightarrow> sub_string \<Rightarrow> nat \<Rightarrow> nat \<Rightarrow> sub_string \<Rightarrow> nat \<Rightarrow> nat \<Rightarrow> int text_result" where
  "compare_parts ch mem s pos1 count1 other pos2 count2 =
     bind_sum (substr ch s pos1 count1) (\<lambda>part.
       bind_sum (substr ch other pos2 count2) (\<lambda>part2. compare_subs mem part part2))"

text \<open>The loop against a C string; \<open>i\<close> counts the characters behind both pointers.\<close>

fun compare_c_from :: "memory \<Rightarrow> pointer \<Rightarrow> pointer \<Rightarrow> nat \<Rightarrow> nat \<Rightarrow> int text_result" where
  "compare_c_from mem p c i 0 = bind_sum (read_byte mem c i) (\<lambda>b. Inr (if b = 0 then 0 else - 1))"
| "compare_c_from mem p c i (Suc n) =
     bind_sum (read_byte mem c i) (\<lambda>b.
       if b = 0 then Inr (- 1)
       else bind_sum (read_byte mem p i) (\<lambda>b2.
         if b2 \<noteq> b then Inr (if b2 < b then - 1 else 1)
         else compare_c_from mem p c (i + 1) n))"

definition compare_c :: "checker \<Rightarrow> memory \<Rightarrow> sub_string \<Rightarrow> pointer \<Rightarrow> int text_result" where
  "compare_c ch mem s c =
     bind_sum (check_pointer ch c) (\<lambda>_. compare_c_from mem (begin_at s) c 0 (length_of s))"

definition compare_part_c ::
  "checker \<Rightarrow> memory \<Rightarrow> sub_string \<Rightarrow> nat \<Rightarrow> nat \<Rightarrow> pointer \<Rightarrow> int text_result" where
  "compare_part_c ch mem s pos1 count1 c =
     bind_sum (substr ch s pos1 count1) (\<lambda>part. compare_c ch mem part c)"

definition compare_part_c_count ::
  "checker \<Rightarrow> memory \<Rightarrow> sub_string \<Rightarrow> nat \<Rightarrow> nat \<Rightarrow> pointer \<Rightarrow> nat \<Rightarrow> int text_result" where
  "compare_part_c_count ch mem s pos1 count1 c count2 =
     bind_sum (substr ch s pos1 count1) (\<lambda>part.
       bind_sum (sub_of_count ch c count2) (\<lambda>other. compare_subs mem part other))"

fun equal_c_from :: "memory \<Rightarrow> pointer \<Rightarrow> pointer \<Rightarrow> nat \<Rightarrow> nat \<Rightarrow> bool text_result" where
  "equal_c_from mem p c i 0 = bind_sum (read_byte mem c i) (\<lambda>b. Inr (b = 0))"
| "equal_c_from mem p c i (Suc n) =
     bind_sum (read_byte mem c i) (\<lambda>b.
       if b = 0 then Inr False
       else bind_sum (read_byte mem p i) (\<lambda>b2.
         if b2 \<noteq> b then Inr False else equal_c_from mem p c (i + 1) n))"

definition equal_c :: "checker \<Rightarrow> memory \<Rightarrow> sub_string \<Rightarrow> pointer \<Rightarrow> bool text_result" where
  "equal_c ch mem s c =
     bind_sum (check_pointer ch c) (\<lambda>_. equal_c_from mem (begin_at s) c 0 (length_of s))"

definition equal_subs :: "memory \<Rightarrow> sub_string \<Rightarrow> sub_string \<Rightarrow> bool text_result" where
  "equal_subs mem s other =
     (if length_of other \<noteq> length_of s then Inr False
      else bind_sum (traits_compare mem (begin_at s) (begin_at other) (length_of s)) (\<lambda>r. Inr (r = 0)))"

text \<open>The operators: equality and its negation, and the orders of two references, of a reference and a C
  string, and of a C string and a reference. A \<open>std::string\<close> operand converts to a reference.\<close>

definition not_result :: "bool text_result \<Rightarrow> bool text_result" where
  "not_result r = bind_sum r (\<lambda>b. Inr (\<not> b))"

definition sub_less :: "memory \<Rightarrow> sub_string \<Rightarrow> sub_string \<Rightarrow> bool text_result" where
  "sub_less mem l r = bind_sum (compare_subs mem l r) (\<lambda>c. Inr (c < 0))"

definition string_less_sub :: "memory \<Rightarrow> sub_string \<Rightarrow> sub_string \<Rightarrow> bool text_result" where
  "string_less_sub mem l r = bind_sum (compare_subs mem r l) (\<lambda>c. Inr (c > 0))"

definition sub_less_c :: "checker \<Rightarrow> memory \<Rightarrow> sub_string \<Rightarrow> pointer \<Rightarrow> bool text_result" where
  "sub_less_c ch mem s c = bind_sum (compare_c ch mem s c) (\<lambda>r. Inr (r < 0))"

definition c_less_sub :: "checker \<Rightarrow> memory \<Rightarrow> pointer \<Rightarrow> sub_string \<Rightarrow> bool text_result" where
  "c_less_sub ch mem c s = not_result (sub_less_c ch mem s c)"

subsection \<open>Searching\<close>

fun find_byte_from :: "memory \<Rightarrow> pointer \<Rightarrow> byte \<Rightarrow> nat \<Rightarrow> nat \<Rightarrow> nat option text_result" where
  "find_byte_from mem p c i 0 = Inr None"
| "find_byte_from mem p c i (Suc n) =
     bind_sum (read_byte mem p i) (\<lambda>b.
       if b = c then Inr (Some i) else find_byte_from mem p c (i + 1) n)"

definition find_char :: "memory \<Rightarrow> sub_string \<Rightarrow> byte \<Rightarrow> nat \<Rightarrow> nat text_result" where
  "find_char mem s c pos =
     (if pos < length_of s then
        bind_sum (find_byte_from mem (begin_at s) c pos (length_of s - pos)) (\<lambda>r.
          Inr (case r of Some i \<Rightarrow> i | None \<Rightarrow> NPOS))
      else Inr NPOS)"

text \<open>\<open>std::search\<close>: the start of the first occurrence, or the end of the range.\<close>

fun std_search :: "byte list \<Rightarrow> byte list \<Rightarrow> nat" where
  "std_search [] pat = 0"
| "std_search (h # hay) pat =
     (if take (length pat) (h # hay) = pat then 0 else Suc (std_search hay pat))"

text \<open>The two pointers that \<open>find\<close> gives to \<open>std::search\<close> are a range only if the first is not behind the
  second; otherwise the run is undefined.\<close>

definition find_sub :: "memory \<Rightarrow> sub_string \<Rightarrow> sub_string \<Rightarrow> nat \<Rightarrow> nat text_result" where
  "find_sub mem s pat pos =
     (if length_of pat = 0 then Inr (if pos \<ge> length_of s then NPOS else 0)
      else if length_of pat > get_available_length s pos (length_of s) then Inr NPOS
      else if pos > length_of s then Inl (Fault Invalid_Iterator)
      else bind_sum (plus_pointer (begin_at s) pos) (\<lambda>first.
        bind_sum (read_range mem first (length_of s - pos)) (\<lambda>hay.
          bind_sum (read_range mem (begin_at pat) (length_of pat)) (\<lambda>needle.
            let found = std_search hay needle in
            Inr (if found \<noteq> length hay then pos + found else NPOS)))))"

definition find_count ::
  "checker \<Rightarrow> memory \<Rightarrow> sub_string \<Rightarrow> pointer \<Rightarrow> nat \<Rightarrow> nat \<Rightarrow> nat text_result" where
  "find_count ch mem s p pos count =
     bind_sum (sub_of_count ch p count) (\<lambda>pat. find_sub mem s pat pos)"

fun rfind_byte_from :: "memory \<Rightarrow> pointer \<Rightarrow> byte \<Rightarrow> nat \<Rightarrow> nat text_result" where
  "rfind_byte_from mem p c 0 = bind_sum (read_byte mem p 0) (\<lambda>b. Inr (if b = c then 0 else NPOS))"
| "rfind_byte_from mem p c (Suc i) =
     bind_sum (read_byte mem p (Suc i)) (\<lambda>b. if b = c then Inr (Suc i) else rfind_byte_from mem p c i)"

definition rfind_char :: "memory \<Rightarrow> sub_string \<Rightarrow> byte \<Rightarrow> nat \<Rightarrow> nat text_result" where
  "rfind_char mem s c pos =
     (if length_of s \<noteq> 0 then rfind_byte_from mem (begin_at s) c (min (length_of s - 1) pos)
      else Inr NPOS)"

fun rfind_sub_from :: "memory \<Rightarrow> pointer \<Rightarrow> sub_string \<Rightarrow> nat \<Rightarrow> nat text_result" where
  "rfind_sub_from mem p pat i =
     bind_sum (plus_pointer p i) (\<lambda>d.
       bind_sum (traits_compare mem d (begin_at pat) (length_of pat)) (\<lambda>r.
         if r = 0 then Inr i
         else case i of 0 \<Rightarrow> Inr NPOS | Suc j \<Rightarrow> rfind_sub_from mem p pat j))"

declare rfind_sub_from.simps [simp del]

definition rfind_sub :: "memory \<Rightarrow> sub_string \<Rightarrow> sub_string \<Rightarrow> nat \<Rightarrow> nat text_result" where
  "rfind_sub mem s pat pos =
     (if length_of pat > length_of s then Inr NPOS
      else let pos1 = (if pos > length_of s then length_of s else pos) in
        if length_of pat = 0 then Inr pos1
        else rfind_sub_from mem (begin_at s) pat (min pos1 (length_of s - length_of pat)))"

definition rfind_count ::
  "checker \<Rightarrow> memory \<Rightarrow> sub_string \<Rightarrow> pointer \<Rightarrow> nat \<Rightarrow> nat \<Rightarrow> nat text_result" where
  "rfind_count ch mem s p pos count =
     bind_sum (sub_of_c_string ch mem p) (\<lambda>pat. rfind_sub mem s pat pos)"

subsection \<open>Valid references and their texts\<close>

definition valid :: "memory \<Rightarrow> sub_string \<Rightarrow> bool" where
  "valid mem s \<longleftrightarrow> length mem < 2 ^ 64 \<and>
     (case begin_at s of None \<Rightarrow> length_of s = 0 | Some a \<Rightarrow> a + length_of s \<le> length mem)"

definition view :: "memory \<Rightarrow> sub_string \<Rightarrow> byte list" where
  "view mem s = (case begin_at s of None \<Rightarrow> [] | Some a \<Rightarrow> take (length_of s) (drop a mem))"

definition c_string_at :: "memory \<Rightarrow> pointer \<Rightarrow> byte list \<Rightarrow> bool" where
  "c_string_at mem p t \<longleftrightarrow> 0 \<notin> set t \<and>
     (\<exists>a. p = Some a \<and> a + length t < length mem \<and> take (length t) (drop a mem) = t \<and>
        mem ! (a + length t) = 0)"

lemma view_length [simp]: "valid mem s \<Longrightarrow> length (view mem s) = length_of s"
  by (auto simp: valid_def view_def split: option.splits)

lemma valid_length: "valid mem s \<Longrightarrow> length_of s < 2 ^ 64"
  by (auto simp: valid_def split: option.splits)

lemma read_view:
  "valid mem s \<Longrightarrow> i < length_of s \<Longrightarrow> read_byte mem (begin_at s) i = Inr (view mem s ! i)"
  by (auto simp: valid_def view_def read_byte_def split: option.splits)

lemma read_c_string:
  assumes "c_string_at mem p t" and "i \<le> length t"
  shows "read_byte mem p i = Inr ((t @ [0]) ! i)"
proof -
  obtain a where a: "p = Some a" "a + length t < length mem" "take (length t) (drop a mem) = t"
    "mem ! (a + length t) = 0"
    using assms(1) by (auto simp: c_string_at_def)
  have "mem ! (a + i) = (t @ [0]) ! i"
  proof (cases "i < length t")
    case True
    then have "mem ! (a + i) = take (length t) (drop a mem) ! i" using a(2) by simp
    then show ?thesis using True a(3) by (simp add: nth_append)
  next
    case False
    then show ?thesis using assms(2) a(4) by (simp add: nth_append)
  qed
  then show ?thesis using a(1,2) assms(2) by (simp add: read_byte_def)
qed

lemma read_range_view: "valid mem s \<Longrightarrow> read_range mem (begin_at s) (length_of s) = Inr (view mem s)"
  by (auto simp: valid_def view_def split: option.splits)

declare read_range.simps [simp del]

lemma size_minus_le [simp]: "b \<le> a \<Longrightarrow> size_minus a b = a - b"
  by (simp add: size_minus_def)

text \<open>The first difference of two texts decides; of a text and its extension, the longer is greater.\<close>

definition text_order :: "byte list \<Rightarrow> byte list \<Rightarrow> int" where
  "text_order x y = (if x = y then 0 else if x < y then - 1 else 1)"

fun first_difference :: "byte list \<Rightarrow> byte list \<Rightarrow> int" where
  "first_difference (x # xs) (y # ys) =
     (if x \<noteq> y then if x < y then - 1 else 1 else first_difference xs ys)"
| "first_difference _ _ = 0"

lemma first_difference_take:
  "first_difference (take (min (length x) (length y)) x) (take (min (length x) (length y)) y) =
   first_difference x y"
  by (induction x y rule: first_difference.induct) simp_all

lemma text_order_Cons:
  "text_order (x # xs) (y # ys) = (if x = y then text_order xs ys else if x < y then - 1 else 1)"
  by (auto simp: text_order_def)

lemma empty_text_first: "[] < (y :: byte list) \<longleftrightarrow> y \<noteq> []"
  by (cases y) simp_all

lemma first_difference_order:
  "text_order x y = (if first_difference x y \<noteq> 0 then first_difference x y
     else if length x = length y then 0 else if length x < length y then - 1 else 1)"
proof (induction x y rule: first_difference.induct)
  case (1 x xs y ys)
  then show ?case by (simp add: text_order_Cons)
qed (auto simp: text_order_def empty_text_first)

lemma first_difference_zero:
  "length x = length y \<Longrightarrow> first_difference x y = 0 \<longleftrightarrow> x = y"
  by (induction x y rule: list_induct2) simp_all

lemma traits_compare_views:
  assumes "valid mem s" and "valid mem t" and "i + n \<le> length_of s" and "i + n \<le> length_of t"
  shows "traits_compare_from mem (begin_at s) (begin_at t) i n =
    Inr (first_difference (take n (drop i (view mem s))) (take n (drop i (view mem t))))"
  using assms(3,4)
proof (induction n arbitrary: i)
  case (Suc n)
  have "take (Suc n) (drop i (view mem s)) = view mem s ! i # take n (drop (i + 1) (view mem s))"
    and "take (Suc n) (drop i (view mem t)) = view mem t ! i # take n (drop (i + 1) (view mem t))"
    using Suc.prems assms(1,2) by (simp_all add: Cons_nth_drop_Suc [symmetric])
  then show ?case
    using Suc assms(1,2) by (simp add: read_view)
qed simp

lemma compare_subs_views:
  assumes "valid mem s" and "valid mem t"
  shows "compare_subs mem s t = Inr (text_order (view mem s) (view mem t))"
  using traits_compare_views [OF assms, of 0 "min (length_of s) (length_of t)"]
    first_difference_take [of "view mem s" "view mem t"] first_difference_order [of "view mem s" "view mem t"]
  by (simp add: compare_subs_def traits_compare_def assms)

lemma equal_subs_views:
  assumes "valid mem s" and "valid mem t"
  shows "equal_subs mem s t = Inr (view mem s = view mem t)"
proof (cases "length_of s = length_of t")
  case True
  then show ?thesis
    using traits_compare_views [OF assms, of 0 "length_of s"] assms
      first_difference_zero [of "view mem s" "view mem t"]
    by (simp add: equal_subs_def traits_compare_def)
next
  case False
  then have "view mem s \<noteq> view mem t" using assms by (metis view_length)
  then show ?thesis using False by (simp add: equal_subs_def)
qed

lemma text_order_less: "text_order x y < 0 \<longleftrightarrow> x < y" and text_order_greater: "text_order x y > 0 \<longleftrightarrow> y < x"
  by (auto simp: text_order_def)

text \<open>C28: Comparison of two valid references is the lexicographic order of their texts by unsigned bytes, a
  prefix being less than its extensions; equality and the operators agree with it.\<close>

theorem comparison_is_lexicographic:
  assumes "valid mem s" and "valid mem t"
  shows "compare_subs mem s t = Inr (text_order (view mem s) (view mem t)) \<and>
    equal_subs mem s t = Inr (view mem s = view mem t) \<and>
    sub_less mem s t = Inr (view mem s < view mem t) \<and>
    string_less_sub mem s t = Inr (view mem s < view mem t)"
  using compare_subs_views [OF assms] compare_subs_views [OF assms(2,1)] equal_subs_views [OF assms]
  by (simp add: sub_less_def string_less_sub_def text_order_less text_order_greater)

theorem comparison_is_lexicographic_witness:
  "compare_subs [97, 98, 97, 200] \<lparr>begin_at = Some 0, length_of = 2\<rparr> \<lparr>begin_at = Some 2, length_of = 2\<rparr> =
    Inr (text_order [97, 98] [97, 200])"
  using comparison_is_lexicographic [of "[97, 98, 97, 200]" "\<lparr>begin_at = Some 0, length_of = 2\<rparr>"
      "\<lparr>begin_at = Some 2, length_of = 2\<rparr>"]
  by (simp add: valid_def view_def)

text \<open>What the comparison with a C string computes: it answers -1 also when the C string ends first.\<close>

fun c_order :: "byte list \<Rightarrow> byte list \<Rightarrow> int" where
  "c_order [] t = (if t = [] then 0 else - 1)"
| "c_order (x # xs) [] = - 1"
| "c_order (x # xs) (y # ys) = (if x \<noteq> y then if x < y then - 1 else 1 else c_order xs ys)"

lemma c_order_eq:
  "c_order v t = (if length t < length v \<and> take (length t) v = t then - 1 else text_order v t)"
proof (induction v t rule: c_order.induct)
  case (1 t)
  then show ?case by (cases t) (simp_all add: text_order_def)
next
  case (3 x xs y ys)
  then show ?case by (simp add: text_order_Cons)
qed simp

lemma c_order_zero: "c_order v t = 0 \<longleftrightarrow> v = t"
  by (induction v t rule: c_order.induct) auto

lemma compare_c_views:
  assumes "valid mem s" and "c_string_at mem c t" and "i \<le> length t" and "i + n = length_of s"
  shows "compare_c_from mem (begin_at s) c i n = Inr (c_order (drop i (view mem s)) (drop i t))"
    and "equal_c_from mem (begin_at s) c i n = Inr (drop i (view mem s) = drop i t)"
proof -
  have "compare_c_from mem (begin_at s) c i n = Inr (c_order (drop i (view mem s)) (drop i t)) \<and>
    equal_c_from mem (begin_at s) c i n = Inr (drop i (view mem s) = drop i t)"
    using assms(3,4)
  proof (induction n arbitrary: i)
    case 0
    have "t ! i \<noteq> 0" if "i < length t"
      using that assms(2) by (metis c_string_at_def nth_mem)
    then show ?case
      using 0 assms(1) read_c_string [OF assms(2), of i]
      by (cases "i < length t") (simp_all add: nth_append)
  next
    case (Suc n)
    have v: "drop i (view mem s) = view mem s ! i # drop (i + 1) (view mem s)"
      using Suc.prems assms(1) by (simp add: Cons_nth_drop_Suc)
    show ?case
    proof (cases "i < length t")
      case True
      then have t: "drop i t = t ! i # drop (i + 1) t" by (simp add: Cons_nth_drop_Suc)
      have "t ! i \<noteq> 0" using True assms(2) by (metis c_string_at_def nth_mem)
      moreover have "read_byte mem c i = Inr (t ! i)"
        using read_c_string [OF assms(2), of i] True by (simp add: nth_append)
      moreover have "read_byte mem (begin_at s) i = Inr (view mem s ! i)"
        using Suc.prems by (intro read_view [OF assms(1)]) simp
      ultimately show ?thesis
        unfolding v t using Suc.IH [of "i + 1"] Suc.prems True by simp
    next
      case False
      moreover have "read_byte mem c i = Inr 0"
        using read_c_string [OF assms(2), of i] Suc.prems(1) False by (simp add: nth_append)
      ultimately show ?thesis using Suc.prems(1) unfolding v by simp
    qed
  qed
  then show "compare_c_from mem (begin_at s) c i n = Inr (c_order (drop i (view mem s)) (drop i t))"
    and "equal_c_from mem (begin_at s) c i n = Inr (drop i (view mem s) = drop i t)"
    by blast+
qed

lemma check_c_string: "c_string_at mem c t \<Longrightarrow> check_pointer ch c = Inr ()"
  by (cases ch) (auto simp: c_string_at_def)

lemma compare_c_result:
  assumes "valid mem s" and "c_string_at mem c t"
  shows "compare_c ch mem s c = Inr (c_order (view mem s) t)"
  using compare_c_views(1) [OF assms, of 0 "length_of s"]
  by (simp add: compare_c_def check_c_string [OF assms(2)])

text \<open>Against a C string, \<open>equal\<close> is equality of texts and \<open>compare\<close> is 0 exactly then. But a reference
  that extends the C string is reported as less, where the same texts compared as references are greater,
  and \<open>operator <\<close> with the C string on the left, the negation of the converse order, holds between equal
  texts (SubString.tpp lines 332 to 354 and 873 to 883).\<close>

theorem c_string_comparison:
  assumes "valid mem s" and "c_string_at mem c t"
  shows "equal_c ch mem s c = Inr (view mem s = t) \<and>
    compare_c ch mem s c =
      Inr (if length t < length (view mem s) \<and> take (length t) (view mem s) = t then - 1
           else text_order (view mem s) t) \<and>
    c_less_sub ch mem c s =
      Inr (t = view mem s \<or> t < view mem s \<and>
           \<not> (length t < length (view mem s) \<and> take (length t) (view mem s) = t))"
proof -
  have "equal_c ch mem s c = Inr (view mem s = t)"
    using compare_c_views(2) [OF assms, of 0 "length_of s"]
    by (simp add: equal_c_def check_c_string [OF assms(2)])
  moreover note compare_c_result [OF assms, of ch]
  moreover have "c_less_sub ch mem c s = Inr (\<not> c_order (view mem s) t < 0)"
    by (simp add: c_less_sub_def sub_less_c_def not_result_def compare_c_result [OF assms])
  ultimately show ?thesis
    by (auto simp: c_order_eq text_order_def)
qed

theorem c_string_comparison_witness:
  "compare_c Checker_None [97, 98, 97, 0] \<lparr>begin_at = Some 0, length_of = 2\<rparr> (Some 2) = Inr (- 1) \<and>
   c_less_sub Checker_None [97, 98, 97, 0] (Some 2) \<lparr>begin_at = Some 2, length_of = 1\<rparr> = Inr True"
proof -
  have c: "c_string_at [97, 98, 97, 0] (Some 2) [97]" by (simp add: c_string_at_def)
  show ?thesis
    using c_string_comparison [OF _ c, of "\<lparr>begin_at = Some 0, length_of = 2\<rparr>" Checker_None]
      c_string_comparison [OF _ c, of "\<lparr>begin_at = Some 2, length_of = 1\<rparr>" Checker_None]
    by (simp add: valid_def view_def)
qed

subsection \<open>Parts of a reference\<close>

lemma available_inside:
  "pos \<le> length_of s \<Longrightarrow> get_available_length s pos count = min count (length_of s - pos)"
  by (simp add: get_available_length_def)

lemma begin_plus_inside:
  assumes "valid mem s" and "pos \<le> length_of s"
  shows "\<exists>p. begin_plus_position ch s pos = Inr p \<and>
    (case begin_at s of None \<Rightarrow> p = None | Some a \<Rightarrow> p = Some (a + pos))"
  using assms
  by (cases ch) (auto simp: begin_plus_position_def plus_pointer_def valid_def split: option.splits)

lemma substr_inside:
  assumes "valid mem s" and "pos \<le> length_of s"
  shows "\<exists>part. substr ch s pos count = Inr part \<and> valid mem part \<and>
    view mem part = take count (drop pos (view mem s))"
proof -
  obtain p where p: "begin_plus_position ch s pos = Inr p"
    "case begin_at s of None \<Rightarrow> p = None | Some a \<Rightarrow> p = Some (a + pos)"
    using begin_plus_inside [OF assms] by blast
  define n where "n = get_available_length s pos count"
  have n: "n = min count (length_of s - pos)" using assms(2) by (simp add: n_def available_inside)
  have "sub_of_count ch p n = Inr \<lparr>begin_at = p, length_of = n\<rparr>"
    using p(2) assms n by (cases ch) (auto simp: sub_of_count_def valid_def split: option.splits)
  moreover have "valid mem \<lparr>begin_at = p, length_of = n\<rparr>"
    using p(2) assms n by (auto simp: valid_def split: option.splits)
  moreover have "view mem \<lparr>begin_at = p, length_of = n\<rparr> = take count (drop pos (view mem s))"
    using p(2) by (auto simp: view_def n drop_take take_take drop_drop add.commute split: option.splits)
  ultimately show ?thesis using p(1) by (simp add: substr_def n_def)
qed

text \<open>\<open>substr\<close> at a position inside the text is that part of it, cut to its end, and again a valid
  reference, with either checker; past the end \<open>CheckerRough\<close> throws.\<close>

theorem substr_is_part:
  assumes "valid mem s"
  shows "if pos \<le> length_of s
    then \<exists>part. substr ch s pos count = Inr part \<and> valid mem part \<and>
      view mem part = take count (drop pos (view mem s))
    else substr Checker_Rough s pos count = Inl Out_Of_Range"
  using substr_inside [OF assms] by (auto simp: substr_def begin_plus_position_def)

theorem substr_is_part_witness:
  "\<exists>part. substr Checker_None \<lparr>begin_at = Some 1, length_of = 3\<rparr> 1 9 = Inr part \<and>
    view [1, 2, 3, 4, 5] part = [3, 4]"
  using substr_is_part [of "[1, 2, 3, 4, 5]" "\<lparr>begin_at = Some 1, length_of = 3\<rparr>" 1 Checker_None 9]
  by (auto simp: valid_def view_def)

text \<open>\<open>SubString\<close> uses \<open>CheckerNone\<close>, and with it \<open>substr\<close> at a position past the end neither throws nor
  yields the empty text: the subtraction in \<open>get_available_length_\<close> wraps around, and the result claims
  nearly 2 to the 64 bytes that are not there (SubString.tpp lines 140 to 156, SubString.hpp line 1117).\<close>

theorem unchecked_substr_not_valid:
  assumes "valid mem s" and "begin_at s = Some a" and "length_of s < pos" and "pos < 2 ^ 64"
  shows "\<exists>part. substr Checker_None s pos NPOS = Inr part \<and>
    length_of part = 2 ^ 64 - (pos - length_of s) \<and> \<not> valid mem part"
proof -
  define n :: nat where "n = 2 ^ 64 - (pos - length_of s)"
  have "get_available_length s pos NPOS = n"
    using assms(3) by (simp add: get_available_length_def size_minus_def n_def NPOS_def)
  then have "substr Checker_None s pos NPOS = Inr \<lparr>begin_at = Some (a + pos), length_of = n\<rparr>"
    using assms(2) by (simp add: substr_def begin_plus_position_def plus_pointer_def sub_of_count_def)
  moreover have "\<not> valid mem \<lparr>begin_at = Some (a + pos), length_of = n\<rparr>"
    using assms(3,4) by (auto simp: valid_def n_def)
  ultimately show ?thesis by (auto simp: n_def)
qed

theorem unchecked_substr_not_valid_witness:
  "\<exists>part. substr Checker_None \<lparr>begin_at = Some 0, length_of = 2\<rparr> 3 NPOS = Inr part \<and>
    length_of part = 2 ^ 64 - (3 - 2) \<and> \<not> valid [97, 98, 0] part"
  using unchecked_substr_not_valid [of "[97, 98, 0]" "\<lparr>begin_at = Some 0, length_of = 2\<rparr>" 0 3]
  by (simp add: valid_def)

text \<open>Erasing from the front or the back, \<open>str\<close>, \<open>assign_to\<close>, \<open>append_to\<close>, the output operator and
  \<open>swap\<close> are the operations on texts; what is left of a valid reference is valid, and nothing faults.\<close>

theorem erase_and_output_views:
  assumes "valid mem s" and "valid mem t"
  shows "valid mem (erase_front s n) \<and> view mem (erase_front s n) = drop n (view mem s) \<and>
    valid mem (erase_back s n) \<and> view mem (erase_back s n) = take (length (view mem s) - n) (view mem s) \<and>
    sub_str mem s = Inr (view mem s) \<and> append_to mem s target = Inr (target @ view mem s) \<and>
    put_out mem s target = Inr (target @ view mem s) \<and>
    (case swap_subs s t of (a, b) \<Rightarrow> view mem a = view mem t \<and> view mem b = view mem s)"
proof -
  have front: "valid mem (erase_front s n)" "view mem (erase_front s n) = drop n (view mem s)"
    using assms(1)
    by (auto simp: valid_def view_def erase_front_def Let_def min_def drop_take add.commute
        split: option.splits)
  have rear: "valid mem (erase_back s n)"
    "view mem (erase_back s n) = take (length (view mem s) - n) (view mem s)"
    unfolding view_length [OF assms(1)] using assms(1)
    by (auto simp: valid_def view_def erase_back_def min_def split: option.splits)
  have "put_out mem s target = Inr (target @ view mem s)"
    using view_length [OF assms(1)] by (auto simp: put_out_def read_range_view [OF assms(1)])
  moreover have "case swap_subs s t of (a, b) \<Rightarrow> view mem a = view mem t \<and> view mem b = view mem s"
    by (auto simp: swap_subs_def view_def split: option.splits)
  ultimately show ?thesis
    using front rear by (simp add: sub_str_def append_to_def read_range_view [OF assms(1)])
qed

theorem erase_and_output_views_witness:
  "view [1, 2, 3] (erase_back \<lparr>begin_at = Some 0, length_of = 3\<rparr> 1) = [1, 2]"
  using erase_and_output_views [of "[1, 2, 3]" "\<lparr>begin_at = Some 0, length_of = 3\<rparr>"
      "\<lparr>begin_at = Some 0, length_of = 3\<rparr>" 1]
  by (simp add: valid_def view_def)

text \<open>Access by position: inside the text it is the character. The position just past the end passes the
  check of \<open>CheckerRough\<close>, which compares with \<open>>\<close>, and whatever follows the text in memory is read
  (SubString.tpp lines 75 to 85).\<close>

theorem char_at_views:
  assumes "valid mem s"
  shows "(pos < length_of s \<longrightarrow> char_at ch mem s pos = Inr (view mem s ! pos)) \<and>
    (begin_at s = Some a \<longrightarrow> char_at Checker_Rough mem s (length_of s) =
       (if a + length_of s < length mem then Inr (mem ! (a + length_of s)) else Inl (Fault Out_Of_Bounds))) \<and>
    (length_of s < pos \<longrightarrow> char_at Checker_Rough mem s pos = Inl Out_Of_Range)"
proof -
  have inside: "char_at ch mem s pos = Inr (view mem s ! pos)" if "pos < length_of s"
    using that assms read_view [OF assms that]
    by (cases ch) (auto simp: char_at_def begin_plus_position_def plus_pointer_def read_byte_def valid_def
        split: option.splits)
  then show ?thesis
    by (auto simp: char_at_def begin_plus_position_def plus_pointer_def read_byte_def)
qed

theorem char_at_views_witness:
  "char_at Checker_Rough [97, 98, 99] \<lparr>begin_at = Some 0, length_of = 2\<rparr> 2 = Inr 99"
  using char_at_views [of "[97, 98, 99]" "\<lparr>begin_at = Some 0, length_of = 2\<rparr>" 0 Checker_None 0]
  by (simp add: valid_def)

subsection \<open>Searching\<close>

definition occurs_at :: "byte list \<Rightarrow> byte list \<Rightarrow> nat \<Rightarrow> bool" where
  "occurs_at txt pat i \<longleftrightarrow> i + length pat \<le> length txt \<and> take (length pat) (drop i txt) = pat"

lemma std_search_result:
  assumes "pat \<noteq> []"
  shows "std_search hay pat \<le> length hay \<and> (\<forall>j < std_search hay pat. \<not> occurs_at hay pat j) \<and>
    (std_search hay pat < length hay \<longrightarrow> occurs_at hay pat (std_search hay pat))"
proof (induction hay)
  case (Cons h hay)
  show ?case
  proof (cases "take (length pat) (h # hay) = pat")
    case True
    then have "length pat \<le> length (h # hay)" by (metis length_take min.cobounded1)
    then show ?thesis using True by (simp add: occurs_at_def)
  next
    case False
    have shift: "occurs_at (h # hay) pat (Suc j) \<longleftrightarrow> occurs_at hay pat j" for j
      by (simp add: occurs_at_def)
    have "\<not> occurs_at (h # hay) pat 0" using False by (simp add: occurs_at_def)
    moreover have "std_search (h # hay) pat = Suc (std_search hay pat)" using False by simp
    ultimately show ?thesis
      using Cons shift by (auto simp: less_Suc_eq_0_disj simp del: std_search.simps)
  qed
qed simp

lemma no_occurrence_past_end:
  "pat \<noteq> [] \<Longrightarrow> length txt \<le> i \<Longrightarrow> \<not> occurs_at txt pat i"
  by (auto simp: occurs_at_def)

lemma occurs_at_drop: "p \<le> length txt \<Longrightarrow> occurs_at (drop p txt) pat i \<longleftrightarrow> occurs_at txt pat (p + i)"
  by (auto simp: occurs_at_def add.commute)

text \<open>\<open>find\<close> of a text that is not empty, from a position inside, is the first occurrence at or after that
  position, and \<open>NPOS\<close> when there is none.\<close>

theorem find_first_occurrence:
  assumes "valid mem s" and "valid mem pat" and "length_of pat \<noteq> 0" and "pos \<le> length_of s"
  shows "\<exists>r. find_sub mem s pat pos = Inr r \<and>
    (r = NPOS \<and> (\<forall>i \<ge> pos. \<not> occurs_at (view mem s) (view mem pat) i) \<or>
     r < length_of s \<and> pos \<le> r \<and> occurs_at (view mem s) (view mem pat) r \<and>
       (\<forall>i. pos \<le> i \<and> i < r \<longrightarrow> \<not> occurs_at (view mem s) (view mem pat) i))"
proof -
  define v t where "v = view mem s" and "t = view mem pat"
  have t: "t \<noteq> []" and lens: "length v = length_of s" "length t = length_of pat"
    using assms by (auto simp: v_def t_def simp flip: length_0_conv)
  show ?thesis
  proof (cases "length_of s - pos < length_of pat")
    case True
    have "\<not> occurs_at v t i" if "pos \<le> i" for i
      using True that lens assms(4) by (auto simp: occurs_at_def)
    moreover have "find_sub mem s pat pos = Inr NPOS"
      using True assms(3,4) by (simp add: find_sub_def available_inside)
    ultimately show ?thesis by (auto simp: v_def t_def)
  next
    case False
    define hay where "hay = drop pos v"
    obtain part where part: "substr Checker_None s pos (length_of s) = Inr part" "valid mem part"
      "view mem part = take (length_of s) (drop pos v)"
      using substr_inside [OF assms(1,4)] by (auto simp: v_def)
    obtain p where p: "plus_pointer (begin_at s) pos = Inr p"
      "part = \<lparr>begin_at = p, length_of = length_of s - pos\<rparr>"
      using part(1) assms(4)
      by (auto simp: substr_def begin_plus_position_def bind_sum_Inr_iff sub_of_count_def available_inside)
    have "read_range mem p (length_of s - pos) = Inr hay"
      using read_range_view [OF part(2)] p(2) part(3) lens by (simp add: hay_def)
    then have find: "find_sub mem s pat pos =
        Inr (if std_search hay t \<noteq> length hay then pos + std_search hay t else NPOS)"
      using False assms(3,4) p(1) read_range_view [OF assms(2)]
      by (simp add: find_sub_def available_inside t_def Let_def)
    note found = std_search_result [OF t, of hay]
    have shift: "occurs_at hay t i \<longleftrightarrow> occurs_at v t (pos + i)" for i
      unfolding hay_def using assms(4) lens by (intro occurs_at_drop) simp
    have none: "\<not> occurs_at v t i" if "pos \<le> i" "i < pos + std_search hay t" for i
      using found shift [of "i - pos"] that by (metis add_diff_inverse_nat add_less_cancel_left not_less)
    show ?thesis
    proof (cases "std_search hay t = length hay")
      case True
      have "\<not> occurs_at v t i" if "pos \<le> i" for i
      proof (cases "i < length v")
        case True
        then show ?thesis using none [OF that] \<open>std_search hay t = length hay\<close> assms(4) lens
          by (simp add: hay_def)
      qed (use t no_occurrence_past_end in auto)
      then show ?thesis using find True by (auto simp: v_def t_def)
    next
      case more: False
      then have "std_search hay t < length hay" using found by linarith
      then have "occurs_at v t (pos + std_search hay t)" "pos + std_search hay t < length_of s"
        using found shift lens by (simp_all add: hay_def)
      then show ?thesis
        using find more none by (intro exI [of _ "pos + std_search hay t"]) (auto simp: v_def t_def)
    qed
  qed
qed

theorem find_first_occurrence_witness:
  "\<exists>r. find_sub [97, 98, 97, 98] \<lparr>begin_at = Some 0, length_of = 4\<rparr> \<lparr>begin_at = Some 0, length_of = 2\<rparr> 1 = Inr r \<and>
    (r = NPOS \<and> (\<forall>i \<ge> 1. \<not> occurs_at [97, 98, 97, 98] [97, 98] i) \<or>
     r < 4 \<and> 1 \<le> r \<and> occurs_at [97, 98, 97, 98] [97, 98] r \<and>
       (\<forall>i. 1 \<le> i \<and> i < r \<longrightarrow> \<not> occurs_at [97, 98, 97, 98] [97, 98] i))"
  using find_first_occurrence [of "[97, 98, 97, 98]" "\<lparr>begin_at = Some 0, length_of = 4\<rparr>"
      "\<lparr>begin_at = Some 0, length_of = 2\<rparr>" 1]
  by (simp add: valid_def view_def)

text \<open>The two runs of \<open>find\<close> that differ from \<open>std::string\<close>: an empty text is found at 0, whatever the
  position inside (SubString.tpp line 500), and a position past the end, whose distance to the end wraps
  around, lets \<open>std::search\<close> start behind its own end unless the text searched for is too long.\<close>

theorem find_deviations:
  "(length_of pat = 0 \<longrightarrow> pos < length_of s \<longrightarrow> find_sub mem s pat pos = Inr 0) \<and>
   (0 < length_of pat \<longrightarrow> length_of pat \<le> length_of s \<longrightarrow> length_of s < pos \<longrightarrow>
      pos - length_of s + length_of pat \<le> 2 ^ 64 \<longrightarrow>
      find_sub mem s pat pos = Inl (Fault Invalid_Iterator))"
  by (auto simp: find_sub_def get_available_length_def size_minus_def)

theorem find_deviations_witness:
  "find_sub [97, 98] \<lparr>begin_at = Some 0, length_of = 2\<rparr> \<lparr>begin_at = None, length_of = 0\<rparr> 1 = Inr 0 \<and>
   find_sub [97, 98] \<lparr>begin_at = Some 0, length_of = 2\<rparr> \<lparr>begin_at = Some 0, length_of = 1\<rparr> 3 =
     Inl (Fault Invalid_Iterator)"
  using find_deviations [of "\<lparr>begin_at = None, length_of = 0\<rparr>" 1 "\<lparr>begin_at = Some 0, length_of = 2\<rparr>" "[97, 98]"]
    find_deviations [of "\<lparr>begin_at = Some 0, length_of = 1\<rparr>" 3 "\<lparr>begin_at = Some 0, length_of = 2\<rparr>" "[97, 98]"]
  by simp

lemma c_length_at:
  assumes "c_string_at mem p t"
  shows "\<exists>a. p = Some a \<and> c_length_from mem a 0 = Inr (length t)"
proof -
  obtain a where a: "p = Some a" "a + length t < length mem"
    using assms by (auto simp: c_string_at_def)
  have "c_length_from mem a i = Inr (length t)" if "i \<le> length t" for i
    using that
  proof (induction "length t - i" arbitrary: i)
    case 0
    then show ?case
      using a read_c_string [OF assms, of i] by (subst c_length_from.simps) (auto simp: read_byte_def)
  next
    case (Suc n)
    then have i: "i < length t" by linarith
    then have "t ! i \<noteq> 0" using assms by (metis c_string_at_def nth_mem)
    moreover have "mem ! (a + i) = t ! i"
      using a read_c_string [OF assms, of i] i by (auto simp: read_byte_def nth_append split: if_splits)
    ultimately show ?case
      using Suc.hyps a i by (subst c_length_from.simps) simp
  qed
  then show ?thesis using a(1) by blast
qed

text \<open>\<open>find\<close> of a character is its first place at or after the position, \<open>rfind\<close> of a character its last
  place at or before it, \<open>NPOS\<close> when there is none.\<close>

theorem find_character:
  assumes "valid mem s"
  shows "(\<exists>r. find_char mem s c pos = Inr r \<and>
      (r = NPOS \<and> (\<forall>i < length_of s. pos \<le> i \<longrightarrow> view mem s ! i \<noteq> c) \<or>
       r < length_of s \<and> pos \<le> r \<and> view mem s ! r = c \<and> (\<forall>i. pos \<le> i \<and> i < r \<longrightarrow> view mem s ! i \<noteq> c))) \<and>
    (\<exists>r. rfind_char mem s c pos = Inr r \<and>
      (r = NPOS \<and> (\<forall>i < length_of s. i \<le> pos \<longrightarrow> view mem s ! i \<noteq> c) \<or>
       r < length_of s \<and> r \<le> pos \<and> view mem s ! r = c \<and>
         (\<forall>i < length_of s. r < i \<and> i \<le> pos \<longrightarrow> view mem s ! i \<noteq> c)))"
proof
  define v where "v = view mem s"
  have forward: "\<exists>r. find_byte_from mem (begin_at s) c i n = Inr r \<and>
      (case r of None \<Rightarrow> \<forall>j. i \<le> j \<and> j < i + n \<longrightarrow> v ! j \<noteq> c
       | Some j \<Rightarrow> i \<le> j \<and> j < i + n \<and> v ! j = c \<and> (\<forall>k. i \<le> k \<and> k < j \<longrightarrow> v ! k \<noteq> c))"
    if "i + n \<le> length_of s" for i n
    using that
  proof (induction n arbitrary: i)
    case (Suc n)
    have "read_byte mem (begin_at s) i = Inr (v ! i)"
      unfolding v_def using Suc.prems by (intro read_view [OF assms]) simp
    moreover obtain r where "find_byte_from mem (begin_at s) c (i + 1) n = Inr r"
      "case r of None \<Rightarrow> \<forall>j. i + 1 \<le> j \<and> j < i + 1 + n \<longrightarrow> v ! j \<noteq> c
       | Some j \<Rightarrow> i + 1 \<le> j \<and> j < i + 1 + n \<and> v ! j = c \<and> (\<forall>k. i + 1 \<le> k \<and> k < j \<longrightarrow> v ! k \<noteq> c)"
      using Suc.IH [of "i + 1"] Suc.prems by auto
    moreover have "i \<le> j \<longleftrightarrow> j = i \<or> i + 1 \<le> j" for j by auto
    ultimately show ?case by (auto split: option.splits)
  qed auto
  show "\<exists>r. find_char mem s c pos = Inr r \<and>
      (r = NPOS \<and> (\<forall>i < length_of s. pos \<le> i \<longrightarrow> view mem s ! i \<noteq> c) \<or>
       r < length_of s \<and> pos \<le> r \<and> view mem s ! r = c \<and> (\<forall>i. pos \<le> i \<and> i < r \<longrightarrow> view mem s ! i \<noteq> c))"
    using forward [of pos "length_of s - pos"]
    by (auto simp: find_char_def v_def split: option.splits)
  have rear: "rfind_byte_from mem (begin_at s) c n = Inr r \<longrightarrow>
      (r = NPOS \<and> (\<forall>j \<le> n. v ! j \<noteq> c) \<or> r \<le> n \<and> v ! r = c \<and> (\<forall>j. r < j \<and> j \<le> n \<longrightarrow> v ! j \<noteq> c))"
    and rear_ok: "\<exists>r. rfind_byte_from mem (begin_at s) c n = Inr r"
    if "n < length_of s" for n r
    using that
  proof (induction n)
    case 0
    {
      case 1
      then show ?case using read_view [OF assms, of 0] by (auto simp: v_def)
    next
      case 2
      then show ?case using read_view [OF assms, of 0] by simp
    }
  next
    case (Suc n)
    {
      case 1
      then show ?case
        using read_view [OF assms, of "Suc n"] Suc.IH(1) by (auto simp: v_def le_Suc_eq)
    next
      case 2
      then show ?case using read_view [OF assms, of "Suc n"] Suc.IH(2) by simp
    }
  qed
  show "\<exists>r. rfind_char mem s c pos = Inr r \<and>
      (r = NPOS \<and> (\<forall>i < length_of s. i \<le> pos \<longrightarrow> view mem s ! i \<noteq> c) \<or>
       r < length_of s \<and> r \<le> pos \<and> view mem s ! r = c \<and>
         (\<forall>i < length_of s. r < i \<and> i \<le> pos \<longrightarrow> view mem s ! i \<noteq> c))"
  proof (cases "length_of s = 0")
    case False
    define n where "n = min (length_of s - 1) pos"
    have n: "n < length_of s" and le: "n \<le> pos" using False by (auto simp: n_def)
    from n obtain r where r: "rfind_byte_from mem (begin_at s) c n = Inr r"
      using rear_ok by blast
    have inside: "i \<le> n \<longleftrightarrow> i \<le> pos" if "i < length_of s" for i
      using that by (auto simp: n_def)
    have "rfind_char mem s c pos = Inr r" using r False by (simp add: rfind_char_def n_def)
    moreover have "r = NPOS \<and> (\<forall>j \<le> n. v ! j \<noteq> c) \<or>
        r \<le> n \<and> v ! r = c \<and> (\<forall>j. r < j \<and> j \<le> n \<longrightarrow> v ! j \<noteq> c)"
      using rear [OF n, of r] r by blast
    ultimately show ?thesis
      using inside n le by (auto simp: v_def)
  qed (simp add: rfind_char_def)
qed

theorem find_character_witness:
  "\<exists>r. find_char [97, 98, 97] \<lparr>begin_at = Some 0, length_of = 3\<rparr> 97 1 = Inr r \<and>
      (r = NPOS \<and> (\<forall>i < 3. 1 \<le> i \<longrightarrow> [97, 98, 97 :: byte] ! i \<noteq> 97) \<or>
       r < 3 \<and> 1 \<le> r \<and> [97, 98, 97 :: byte] ! r = 97 \<and> (\<forall>i. 1 \<le> i \<and> i < r \<longrightarrow> [97, 98, 97 :: byte] ! i \<noteq> 97))"
  using find_character [of "[97, 98, 97]" "\<lparr>begin_at = Some 0, length_of = 3\<rparr>" 97 1]
  by (simp add: valid_def view_def)

lemma rfind_step:
  assumes "valid mem s" and "valid mem pat" and "i + length_of pat \<le> length_of s"
  shows "rfind_sub_from mem (begin_at s) pat i =
    (if occurs_at (view mem s) (view mem pat) i then Inr i
     else case i of 0 \<Rightarrow> Inr NPOS | Suc j \<Rightarrow> rfind_sub_from mem (begin_at s) pat j)"
proof -
  obtain part where part: "substr Checker_None s i (length_of pat) = Inr part" "valid mem part"
    "view mem part = take (length_of pat) (drop i (view mem s))"
    using substr_inside [OF assms(1), of i Checker_None "length_of pat"] assms(3) by auto
  obtain d where d: "plus_pointer (begin_at s) i = Inr d"
    "part = \<lparr>begin_at = d, length_of = length_of pat\<rparr>"
    using part(1) assms(3)
    by (auto simp: substr_def begin_plus_position_def bind_sum_Inr_iff sub_of_count_def available_inside
        min_def)
  have len: "length (view mem part) = length_of pat" "length (view mem pat) = length_of pat"
    using view_length [OF part(2)] view_length [OF assms(2)] d(2) by simp_all
  have "traits_compare mem d (begin_at pat) (length_of pat) =
      Inr (first_difference (view mem part) (view mem pat))"
    using traits_compare_views [OF part(2) assms(2), of 0 "length_of pat"] d(2) len
    by (simp add: traits_compare_def)
  moreover have "first_difference (view mem part) (view mem pat) = 0 \<longleftrightarrow> view mem part = view mem pat"
    by (rule first_difference_zero) (simp add: len)
  moreover have "view mem part = view mem pat \<longleftrightarrow> occurs_at (view mem s) (view mem pat) i"
    unfolding part(3) occurs_at_def len(2) using assms by simp
  ultimately show ?thesis using d(1) by (subst rfind_sub_from.simps) simp
qed

lemma rfind_sub_from_views:
  assumes "valid mem s" and "valid mem pat" and "i + length_of pat \<le> length_of s"
  shows "\<exists>r. rfind_sub_from mem (begin_at s) pat i = Inr r \<and>
    (r = NPOS \<and> (\<forall>j \<le> i. \<not> occurs_at (view mem s) (view mem pat) j) \<or>
     r \<le> i \<and> occurs_at (view mem s) (view mem pat) r \<and>
       (\<forall>j. r < j \<and> j \<le> i \<longrightarrow> \<not> occurs_at (view mem s) (view mem pat) j))"
  using assms(3)
proof (induction i)
  case 0
  then show ?case using rfind_step [OF assms(1,2), of 0] by simp
next
  case (Suc i)
  then show ?case
    using rfind_step [OF assms(1,2), of "Suc i"]
    by (cases "occurs_at (view mem s) (view mem pat) (Suc i)") (auto simp: le_Suc_eq)
qed

text \<open>\<open>rfind\<close> of a text is its last occurrence at or before the position, the empty text occurring
  everywhere; and its overload for C strings searches for the whole C string, whatever the number of
  characters it is told to search for (SubString.tpp lines 611 to 619).\<close>

theorem rfind_last_occurrence:
  assumes "valid mem s" and "valid mem pat" and "c_string_at mem p t"
  shows "(\<exists>r. rfind_sub mem s pat pos = Inr r \<and>
      (r = NPOS \<and> (\<forall>i \<le> pos. \<not> occurs_at (view mem s) (view mem pat) i) \<or>
       r \<le> pos \<and> occurs_at (view mem s) (view mem pat) r \<and>
         (\<forall>i. r < i \<and> i \<le> pos \<longrightarrow> \<not> occurs_at (view mem s) (view mem pat) i))) \<and>
    rfind_count ch mem s p pos count = rfind_sub mem s \<lparr>begin_at = p, length_of = length t\<rparr> pos"
proof
  show "\<exists>r. rfind_sub mem s pat pos = Inr r \<and>
      (r = NPOS \<and> (\<forall>i \<le> pos. \<not> occurs_at (view mem s) (view mem pat) i) \<or>
       r \<le> pos \<and> occurs_at (view mem s) (view mem pat) r \<and>
         (\<forall>i. r < i \<and> i \<le> pos \<longrightarrow> \<not> occurs_at (view mem s) (view mem pat) i))"
  proof -
    have lens: "length (view mem s) = length_of s" "length (view mem pat) = length_of pat"
      using assms by simp_all
    consider "length_of s < length_of pat" | "length_of pat = 0"
      | "length_of pat \<noteq> 0" "length_of pat \<le> length_of s" by linarith
    then show ?thesis
    proof cases
      case 1
      then show ?thesis using lens by (simp add: rfind_sub_def occurs_at_def)
    next
      case 2
      then have "view mem pat = []" using lens by simp
      then show ?thesis
        using 2 lens by (intro exI [of _ "min pos (length_of s)"]) (auto simp: rfind_sub_def occurs_at_def)
    next
      case 3
      define n where "n = min (if pos > length_of s then length_of s else pos) (length_of s - length_of pat)"
      have n: "n + length_of pat \<le> length_of s" "n \<le> pos" using 3 by (auto simp: n_def)
      have late: "\<not> occurs_at (view mem s) (view mem pat) i" if "n < i" "i \<le> pos" for i
        using that 3 lens by (auto simp: occurs_at_def n_def split: if_splits)
      obtain r where "rfind_sub_from mem (begin_at s) pat n = Inr r"
        "r = NPOS \<and> (\<forall>j \<le> n. \<not> occurs_at (view mem s) (view mem pat) j) \<or>
         r \<le> n \<and> occurs_at (view mem s) (view mem pat) r \<and>
           (\<forall>j. r < j \<and> j \<le> n \<longrightarrow> \<not> occurs_at (view mem s) (view mem pat) j)"
        using rfind_sub_from_views [OF assms(1,2) n(1)] by blast
      moreover have "rfind_sub mem s pat pos = rfind_sub_from mem (begin_at s) pat n"
        using 3 by (simp add: rfind_sub_def Let_def n_def)
      ultimately show ?thesis
        using late n(2) by (metis (no_types, lifting) le_trans not_le)
    qed
  qed
  obtain a where "p = Some a" "c_length_from mem a 0 = Inr (length t)"
    using c_length_at [OF assms(3)] by blast
  then show "rfind_count ch mem s p pos count = rfind_sub mem s \<lparr>begin_at = p, length_of = length t\<rparr> pos"
    using check_c_string [OF assms(3), of ch]
    by (simp add: rfind_count_def sub_of_c_string_def c_length_def)
qed

theorem rfind_last_occurrence_witness:
  "rfind_count Checker_None [97, 98, 97, 0] \<lparr>begin_at = Some 0, length_of = 3\<rparr> (Some 1) 2 1 =
   rfind_sub [97, 98, 97, 0] \<lparr>begin_at = Some 0, length_of = 3\<rparr> \<lparr>begin_at = Some 1, length_of = 2\<rparr> 2"
proof -
  have c: "c_string_at [97, 98, 97, 0] (Some 1) [98, 97]" by (simp add: c_string_at_def)
  have v: "valid [97, 98, 97, 0] \<lparr>begin_at = Some 0, length_of = 3\<rparr>" by (simp add: valid_def)
  show ?thesis using rfind_last_occurrence [OF v v c, of 2 Checker_None 1, THEN conjunct2]
    by (simp add: numeral_2_eq_2)
qed

text \<open>\<open>copy\<close> writes the part of the text from the position, cut to the count and to the end of the text,
  at the target and nothing else, and returns its length.\<close>

theorem copy_writes_part:
  assumes "valid mem s" and "pos \<le> length_of s"
    and "d + min count (length_of s - pos) \<le> length mem"
  shows "copy_to ch mem s (Some d) count pos =
    (let part = take count (drop pos (view mem s))
     in Inr (take d mem @ part @ drop (d + length part) mem, length part))"
proof -
  define n where "n = min count (length_of s - pos)"
  obtain part where part: "substr Checker_None s pos count = Inr part" "valid mem part"
    "view mem part = take count (drop pos (view mem s))"
    using substr_inside [OF assms(1,2)] by blast
  obtain q where q: "plus_pointer (begin_at s) pos = Inr q" "part = \<lparr>begin_at = q, length_of = n\<rparr>"
    using part(1) assms(2)
    by (auto simp: substr_def begin_plus_position_def bind_sum_Inr_iff sub_of_count_def available_inside
        n_def)
  have len: "length (view mem part) = n" using view_length [OF part(2)] q(2) by simp
  have range: "read_range mem q n = Inr (view mem part)" using read_range_view [OF part(2)] q(2) by simp
  have one: "n = 1 \<Longrightarrow> bind_sum (read_byte mem q 0) (\<lambda>b. Inr [b]) = Inr (view mem part)"
    using read_view [OF part(2), of 0] q(2) len by (cases "view mem part") auto
  have "traits_copy mem (Some d) q n = Inr (if n = 0 then mem
      else take d mem @ view mem part @ drop (d + n) mem)"
    using range one assms(3) by (auto simp: traits_copy_def n_def)
  moreover have "n = 0 \<Longrightarrow> view mem part = []" using len by simp
  moreover have "check_pointer_count ch (Some d) n = Inr ()" "check_position ch (length_of s) pos = Inr ()"
    using assms(2) by (cases ch; simp)+
  ultimately show ?thesis
    unfolding part(3) [symmetric]
    using q(1) assms(2) len by (auto simp: copy_to_def available_inside n_def [symmetric] Let_def)
qed

theorem copy_writes_part_witness:
  "copy_to Checker_Rough [97, 98, 99, 0, 0] \<lparr>begin_at = Some 0, length_of = 3\<rparr> (Some 3) 9 1 =
    Inr ([97, 98, 99, 98, 99], 2)"
  using copy_writes_part [of "[97, 98, 99, 0, 0]" "\<lparr>begin_at = Some 0, length_of = 3\<rparr>" 1 3 9 Checker_Rough]
  by (simp add: valid_def view_def)

end
