(* ===== verification/ThreadBuffers.thy ===== *)
theory ThreadBuffers
  imports Prelude
begin

section \<open>The pool of buffers for threads (gears/ThreadBuffer.hpp, ThreadKey.hpp)\<close>

text \<open>
  \<open>ThreadBuffer\<close> lends each thread that asks one of a fixed number of static buffers, or one from the heap
  when they are used up, and takes it back when the thread ends. The shared part (the array of free
  buffers and its counter) is only touched under \<open>mutex_\<close>, the keys only by their own thread, so a call is
  one step. The theorem: in every interleaving no two threads have the same buffer, a lent buffer is not
  in the pool, and the array of free buffers is never written past its end.
\<close>

subsection \<open>State and operations\<close>

datatype buffer_id = Static nat | Heap_Buffer nat

text \<open>\<open>buffer_key\<close> and \<open>type_key\<close> are the thread-specific values; \<open>next_heap\<close> names the heap blocks.\<close>

record 't thread_buffers =
  buffer_pointers :: "buffer_id list"
  available :: nat
  buffer_key :: "'t \<Rightarrow> buffer_id option"
  type_key :: "'t \<Rightarrow> buffer_id option"
  next_heap :: nat

text \<open>The constructor with its loop.\<close>

fun fill_pointers :: "nat \<Rightarrow> nat \<Rightarrow> buffer_id list \<Rightarrow> buffer_id list" where
  "fill_pointers i 0 ptrs = ptrs"
| "fill_pointers i (Suc n) ptrs = fill_pointers (i + 1) n (ptrs[i := Static i])"

definition thread_buffers_new :: "nat \<Rightarrow> buffer_id list \<Rightarrow> 't thread_buffers" where
  "thread_buffers_new threads raw =
     \<lparr>buffer_pointers = fill_pointers 0 threads raw, available = threads, buffer_key = (\<lambda>_. None),
       type_key = (\<lambda>_. None), next_heap = 0\<rparr>"

text \<open>\<open>get_buffer\<close>; \<open>alloc_ok\<close> is whether \<open>new\<close> succeeds. The result is null when it does not.\<close>

definition get_buffer ::
  "'t thread_buffers \<Rightarrow> 't \<Rightarrow> bool \<Rightarrow> ('t thread_buffers \<times> buffer_id option) outcome" where
  "get_buffer s t alloc_ok =
     (case buffer_key s t of
        Some b \<Rightarrow> Inr (s, Some b)
      | None \<Rightarrow>
          if available s \<noteq> 0 then
            if available s - 1 < length (buffer_pointers s) then
              let b = buffer_pointers s ! (available s - 1) in
              Inr (s\<lparr>available := available s - 1, buffer_key := (buffer_key s)(t := Some b)\<rparr>, Some b)
            else Inl Out_Of_Bounds
          else if \<not> alloc_ok then Inr (s, None)
          else
            let b = Heap_Buffer (next_heap s) in
            Inr (s\<lparr>next_heap := next_heap s + 1, type_key := (type_key s)(t := Some b),
                   buffer_key := (buffer_key s)(t := Some b)\<rparr>, Some b))"

text \<open>\<open>free_buffer_\<close>, which the end of a thread calls with the value of its key; the thread's other
  specific values end with it.\<close>

definition free_buffer :: "'t thread_buffers \<Rightarrow> 't \<Rightarrow> buffer_id \<Rightarrow> 't thread_buffers outcome" where
  "free_buffer s t b =
     (if type_key s t \<noteq> None then
        Inr (s\<lparr>buffer_key := (buffer_key s)(t := None), type_key := (type_key s)(t := None)\<rparr>)
      else if available s < length (buffer_pointers s) then
        Inr (s\<lparr>buffer_pointers := (buffer_pointers s)[available s := b], available := available s + 1,
               buffer_key := (buffer_key s)(t := None)\<rparr>)
      else Inl Out_Of_Bounds)"

inductive tb_step :: "'t thread_buffers \<Rightarrow> 't thread_buffers \<Rightarrow> bool" where
  get: "get_buffer s t alloc_ok = Inr (s', r) \<Longrightarrow> tb_step s s'"
| thread_end: "buffer_key s t = Some b \<Longrightarrow> free_buffer s t b = Inr s' \<Longrightarrow> tb_step s s'"

inductive tb_reachable :: "nat \<Rightarrow> 't thread_buffers \<Rightarrow> bool" where
  start: "length raw = threads \<Longrightarrow> tb_reachable threads (thread_buffers_new threads raw)"
| step: "tb_reachable threads s \<Longrightarrow> tb_step s s' \<Longrightarrow> tb_reachable threads s'"

subsection \<open>The invariant\<close>

definition free_buffers :: "'t thread_buffers \<Rightarrow> buffer_id set" where
  "free_buffers s = set (take (available s) (buffer_pointers s))"

definition tb_inv :: "nat \<Rightarrow> 't thread_buffers \<Rightarrow> bool" where
  "tb_inv threads s \<longleftrightarrow>
     length (buffer_pointers s) = threads \<and> available s \<le> threads \<and>
     distinct (take (available s) (buffer_pointers s)) \<and>
     free_buffers s \<subseteq> Static ` {..<threads} \<and>
     (\<forall>t b. buffer_key s t = Some b \<longrightarrow> b \<notin> free_buffers s) \<and>
     (\<forall>t t' b. buffer_key s t = Some b \<and> buffer_key s t' = Some b \<longrightarrow> t = t') \<and>
     (\<forall>t. buffer_key s t = None \<longrightarrow> type_key s t = None) \<and>
     (\<forall>t n. buffer_key s t = Some (Static n) \<longrightarrow> n < threads \<and> type_key s t = None) \<and>
     (\<forall>t n. buffer_key s t = Some (Heap_Buffer n) \<longrightarrow> n < next_heap s \<and> type_key s t \<noteq> None)"

lemma fill_pointers_result:
  "i + n \<le> length ptrs \<Longrightarrow> fill_pointers i n ptrs = take i ptrs @ map Static [i..<i + n] @ drop (i + n) ptrs"
proof (induction n arbitrary: i ptrs)
  case (Suc n)
  then have "fill_pointers (i + 1) n (ptrs[i := Static i]) =
      take (i + 1) (ptrs[i := Static i]) @ map Static [i + 1..<i + 1 + n] @ drop (i + 1 + n) (ptrs[i := Static i])"
    by simp
  also have "take (i + 1) (ptrs[i := Static i]) = take i ptrs @ [Static i]"
    using Suc.prems by (simp add: take_Suc_conv_app_nth)
  finally show ?case using Suc.prems by (simp add: upt_conv_Cons)
qed simp

lemma tb_inv_new: "length raw = threads \<Longrightarrow> tb_inv threads (thread_buffers_new threads raw)"
  by (auto simp: tb_inv_def thread_buffers_new_def fill_pointers_result free_buffers_def distinct_map inj_on_def)

lemma take_previous:
  "0 < n \<Longrightarrow> n \<le> length xs \<Longrightarrow> take n xs = take (n - 1) xs @ [xs ! (n - 1)]"
  by (cases n) (simp_all add: take_Suc_conv_app_nth)

lemma tb_inv_get:
  assumes "tb_inv threads s" and "get_buffer s t alloc_ok = Inr (s', r)"
  shows "tb_inv threads s'"
proof (cases "buffer_key s t")
  case (Some b)
  then show ?thesis using assms by (simp add: get_buffer_def)
next
  case None
  show ?thesis
  proof (cases "available s = 0")
    case True
    then show ?thesis
      using None assms
      by (auto simp: get_buffer_def tb_inv_def free_buffers_def Let_def split: if_splits; force)
  next
    case False
    define b where "b = buffer_pointers s ! (available s - 1)"
    have split: "take (available s) (buffer_pointers s) = take (available s - 1) (buffer_pointers s) @ [b]"
      unfolding b_def using False assms(1) by (intro take_previous) (auto simp: tb_inv_def)
    then have b: "b \<in> free_buffers s" "b \<notin> set (take (available s - 1) (buffer_pointers s))"
      "set (take (available s - 1) (buffer_pointers s)) \<subseteq> free_buffers s"
      "distinct (take (available s - 1) (buffer_pointers s))"
      using assms(1) by (auto simp: free_buffers_def tb_inv_def)
    then obtain i where i: "b = Static i" "i < threads" using assms(1) by (auto simp: tb_inv_def)
    have new: "\<And>t'. buffer_key s t' \<noteq> Some b" using b(1) assms(1) by (auto simp: tb_inv_def)
    have own: "type_key s t = None" using None assms(1) by (simp add: tb_inv_def)
    have "s' = s\<lparr>available := available s - 1, buffer_key := (buffer_key s)(t := Some b)\<rparr>"
      using None False assms by (auto simp: get_buffer_def tb_inv_def Let_def b_def split: if_splits)
    then show ?thesis
      using assms(1) b i new own by (auto simp: tb_inv_def free_buffers_def)
  qed
qed

lemma tb_inv_free:
  assumes "tb_inv threads s" and "buffer_key s t = Some b"
  shows "\<exists>s'. free_buffer s t b = Inr s' \<and> tb_inv threads s'"
proof (cases b)
  case (Heap_Buffer n)
  then show ?thesis
    using assms by (auto simp: free_buffer_def tb_inv_def free_buffers_def)
next
  case (Static n)
  have n: "n < threads" "type_key s t = None" "Static n \<notin> free_buffers s"
    using assms Static by (auto simp: tb_inv_def)
  have room: "available s < threads"
  proof -
    have "insert (Static n) (free_buffers s) \<subseteq> Static ` {..<threads}"
      using n(1) assms(1) by (auto simp: tb_inv_def)
    then have "card (insert (Static n) (free_buffers s)) \<le> card (Static ` {..<threads})"
      by (rule card_mono [rotated]) simp
    also have "\<dots> = threads" by (simp add: card_image inj_on_def)
    finally have "card (insert (Static n) (free_buffers s)) \<le> threads" .
    moreover have "card (free_buffers s) = available s"
      using assms(1) distinct_card by (fastforce simp: tb_inv_def free_buffers_def)
    ultimately show ?thesis using n(3) by (simp add: free_buffers_def)
  qed
  then have len: "available s < length (buffer_pointers s)" using assms(1) by (simp add: tb_inv_def)
  define s' where "s' = s\<lparr>buffer_pointers := (buffer_pointers s)[available s := b],
      available := available s + 1, buffer_key := (buffer_key s)(t := None)\<rparr>"
  have pool: "take (available s') (buffer_pointers s') = take (available s) (buffer_pointers s) @ [Static n]"
    using len by (simp add: s'_def take_Suc_conv_app_nth Static)
  have "free_buffer s t b = Inr s'" using n(2) len by (simp add: free_buffer_def s'_def)
  moreover have "tb_inv threads s'"
  proof -
    have others: "buffer_key s t' = Some (Static n) \<Longrightarrow> t' = t" for t'
      using assms Static by (auto simp: tb_inv_def)
    show ?thesis
      using assms(1) n room others
      unfolding tb_inv_def free_buffers_def pool
      by (auto simp: s'_def free_buffers_def)
  qed
  ultimately show ?thesis by blast
qed

lemma tb_reachable_inv: "tb_reachable threads s \<Longrightarrow> tb_inv threads s"
proof (induction rule: tb_reachable.induct)
  case (start raw threads)
  then show ?case by (rule tb_inv_new)
next
  case (step threads s s')
  from step(2) show ?case
  proof cases
    case (get t alloc_ok r)
    then show ?thesis using tb_inv_get [OF step(3)] by blast
  next
    case (thread_end t b)
    then show ?thesis using tb_inv_free [OF step(3)] by force
  qed
qed

text \<open>In every interleaving of threads asking for their buffer and ending, no two threads have the same
  buffer and no lent buffer is in the pool; a thread's end never writes past the array of free buffers and
  asking never reads past it, and a thread that asks again gets its buffer again.\<close>

theorem thread_buffers_not_shared:
  assumes "tb_reachable threads s"
  shows "(\<forall>t t' b. buffer_key s t = Some b \<and> buffer_key s t' = Some b \<longrightarrow> t = t') \<and>
    (\<forall>t b. buffer_key s t = Some b \<longrightarrow>
       b \<notin> set (take (available s) (buffer_pointers s)) \<and> (\<exists>s'. free_buffer s t b = Inr s') \<and>
       get_buffer s t alloc_ok = Inr (s, Some b)) \<and>
    (\<forall>t. \<exists>s' r. get_buffer s t alloc_ok = Inr (s', r) \<and> (r = buffer_key s' t))"
proof -
  have inv: "tb_inv threads s" using assms by (rule tb_reachable_inv)
  have "\<exists>s' r. get_buffer s t alloc_ok = Inr (s', r) \<and> r = buffer_key s' t" for t
    using inv by (auto simp: get_buffer_def tb_inv_def Let_def split: option.splits)
  moreover have "\<forall>t t' b. buffer_key s t = Some b \<and> buffer_key s t' = Some b \<longrightarrow> t = t'"
    using inv by (simp add: tb_inv_def)
  moreover have "b \<notin> set (take (available s) (buffer_pointers s)) \<and> (\<exists>s'. free_buffer s t b = Inr s') \<and>
      get_buffer s t alloc_ok = Inr (s, Some b)" if "buffer_key s t = Some b" for t b
    using that inv tb_inv_free [OF inv that] by (auto simp: tb_inv_def free_buffers_def get_buffer_def)
  ultimately show ?thesis by blast
qed

theorem thread_buffers_not_shared_witness:
  "\<exists>s :: nat thread_buffers. tb_reachable 1 s \<and> buffer_key s 0 = Some (Static 0) \<and>
    buffer_key s 1 = Some (Heap_Buffer 0) \<and> get_buffer s 1 False = Inr (s, Some (Heap_Buffer 0))"
proof -
  define s0 :: "nat thread_buffers" where "s0 = thread_buffers_new 1 [Static 0]"
  have r0: "tb_reachable 1 s0" unfolding s0_def by (rule tb_reachable.start) simp
  obtain s1 r1 where g1: "get_buffer s0 0 True = Inr (s1, r1)"
    and k1: "buffer_key s1 0 = Some (Static 0)" "buffer_key s1 1 = None" "available s1 = 0" "next_heap s1 = 0"
    by (simp add: s0_def thread_buffers_new_def get_buffer_def Let_def)
  have r1: "tb_reachable 1 s1" using r0 tb_step.get [OF g1] by (rule tb_reachable.step)
  obtain s2 r2 where g2: "get_buffer s1 1 True = Inr (s2, r2)"
    and k2: "buffer_key s2 0 = Some (Static 0)" "buffer_key s2 1 = Some (Heap_Buffer 0)"
    using k1 by (simp add: get_buffer_def Let_def)
  have "tb_reachable 1 s2" using r1 tb_step.get [OF g2] by (rule tb_reachable.step)
  then show ?thesis using thread_buffers_not_shared [of 1 s2 False] k2 by blast
qed

end
