(* ===== verification/GearsHex.thy ===== *)
theory GearsHex
  imports Prelude
begin

section \<open>Hexadecimal texts (gears/StringManip.cpp)\<close>

text \<open>
  Encoding of byte arrays by pairs of digits, upper or lower case, with or without the leading zeroes,
  and decoding. A text is the list of its bytes; \<open>char\<close> is signed, so a comparison of characters reads
  them as signed bytes. The theorem is the round trip; it rests on the value of each digit, which is
  evaluated, and on the split of a byte into its halves.
\<close>

unbundle bit_operations_syntax

definition HEX_UP_DIGITS :: "byte list" where
  "HEX_UP_DIGITS = [48, 49, 50, 51, 52, 53, 54, 55, 56, 57, 65, 66, 67, 68, 69, 70]"

definition HEX_LOW_DIGITS :: "byte list" where
  "HEX_LOW_DIGITS = [48, 49, 50, 51, 52, 53, 54, 55, 56, 57, 97, 98, 99, 100, 101, 102]"

text \<open>The loop that skips zeroes: \<open>None\<close> when there is nothing else.\<close>

fun skip_zeroes :: "byte list \<Rightarrow> byte list option" where
  "skip_zeroes [] = None"
| "skip_zeroes (b # bs) = (if b = 0 then skip_zeroes bs else Some (b # bs))"

definition hex_pairs :: "byte list \<Rightarrow> byte list \<Rightarrow> byte list" where
  "hex_pairs digits data =
     concat (map (\<lambda>b. [digits ! unat (drop_bit 4 b), digits ! unat (b AND 0xF)]) data)"

definition hex_encode_ex :: "byte list \<Rightarrow> bool \<Rightarrow> byte list \<Rightarrow> byte list" where
  "hex_encode_ex data skip_leading_zeroes hex_digits =
     (if data = [] then []
      else if skip_leading_zeroes then
        (case skip_zeroes data of
           Some (b # bs) \<Rightarrow>
             if b AND 0xF0 = 0 then hex_digits ! unat b # hex_pairs hex_digits bs
             else hex_pairs hex_digits (b # bs)
         | _ \<Rightarrow> [48])
      else hex_pairs hex_digits data)"

definition hex_encode :: "byte list \<Rightarrow> bool \<Rightarrow> byte list" where
  "hex_encode data skip_leading_zeroes = hex_encode_ex data skip_leading_zeroes HEX_UP_DIGITS"

definition hex_low_encode :: "byte list \<Rightarrow> bool \<Rightarrow> byte list" where
  "hex_low_encode data skip_leading_zeroes = hex_encode_ex data skip_leading_zeroes HEX_LOW_DIGITS"

definition hex_to_int :: "byte \<Rightarrow> byte" where
  "hex_to_int ch = (if sint ch \<le> 57 then ch - 48 else (ch AND 0x0F) + 9)"

definition hex_to_char :: "byte \<Rightarrow> byte \<Rightarrow> byte" where
  "hex_to_char major minor = push_bit 4 (hex_to_int major) OR hex_to_int minor"

text \<open>The loop over the pairs; it is only reached with an even number of characters.\<close>

fun hex_decode_pairs :: "byte list \<Rightarrow> byte list" where
  "hex_decode_pairs (x # y # rest) = hex_to_char x y # hex_decode_pairs rest"
| "hex_decode_pairs _ = []"

definition hex_decode :: "byte list \<Rightarrow> bool \<Rightarrow> byte list option" where
  "hex_decode src allow_odd_string =
     (if odd (length src) then
        (if \<not> allow_odd_string then None
         else Some (hex_to_int (hd src) # hex_decode_pairs (tl src)))
      else Some (hex_decode_pairs src))"

lemma all_below_16: "(\<forall>n < 16. P n) \<longleftrightarrow> list_all P [0..<16]"
  by (auto simp: list_all_iff)

lemma hex_digit_value:
  assumes "n < 16" and "digits = HEX_UP_DIGITS \<or> digits = HEX_LOW_DIGITS"
  shows "hex_to_int (digits ! n) = word_of_nat n"
proof -
  have "\<forall>n < 16. hex_to_int (HEX_UP_DIGITS ! n) = word_of_nat n"
    unfolding all_below_16 by code_simp
  moreover have "\<forall>n < 16. hex_to_int (HEX_LOW_DIGITS ! n) = word_of_nat n"
    unfolding all_below_16 by code_simp
  ultimately show ?thesis using assms by blast
qed

lemma high_nibble: "unat (drop_bit 4 (b :: byte)) = unat b div 16"
  by (simp add: drop_bit_eq_div unat_div_distrib)

lemma byte_below: "unat (b :: byte) < 256"
proof -
  have "unat b < 2 ^ LENGTH(8)" by (rule unsigned_less)
  then show ?thesis by simp
qed

lemma hex_to_int_zero [simp]: "hex_to_int 48 = 0"
  by code_simp

lemma hex_pair_value:
  assumes "digits = HEX_UP_DIGITS \<or> digits = HEX_LOW_DIGITS"
  shows "hex_to_char (digits ! unat (drop_bit 4 b)) (digits ! unat (b AND 0xF)) = b"
proof -
  have hi: "unat (drop_bit 4 b) < 16"
    using byte_below [of b] by (simp add: high_nibble)
  have "b AND 0xF = take_bit 4 b"
    by (simp add: take_bit_eq_mask mask_eq_exp_minus_1)
  then have lo: "unat (b AND 0xF) < 16"
    by (simp add: take_bit_eq_mod unat_mod_distrib)
  have "push_bit 4 (drop_bit 4 b) OR (b AND 0xF) = b"
    unfolding \<open>b AND 0xF = take_bit 4 b\<close> by (rule bit_word_eqI) (auto simp: bit_simps)
  then show ?thesis
    using hex_digit_value [OF hi assms] hex_digit_value [OF lo assms] by (simp add: hex_to_char_def)
qed

lemma hex_low_nibble:
  assumes "digits = HEX_UP_DIGITS \<or> digits = HEX_LOW_DIGITS" and "b AND 0xF0 = 0"
  shows "hex_to_int (digits ! unat b) = b"
proof -
  have "drop_bit 4 b = 0"
  proof (rule bit_word_eqI)
    fix n
    have "\<not> bit (b AND 0xF0) (n + 4)" unfolding assms(2) by simp
    moreover assume "n < LENGTH(8)"
    then have "n = 0 \<or> n = 1 \<or> n = 2 \<or> n = 3 \<or> n \<ge> 4" by linarith
    ultimately show "bit (drop_bit 4 b) n = bit 0 n"
      by (auto simp: bit_simps dest: bit_imp_le_length)
  qed
  then have "unat b div 16 = 0"
    using high_nibble [of b] by simp
  then have "unat b < 16" by simp
  then show ?thesis using hex_digit_value [OF _ assms(1)] by simp
qed

lemma hex_decode_encoded_pairs:
  assumes "digits = HEX_UP_DIGITS \<or> digits = HEX_LOW_DIGITS"
  shows "hex_decode_pairs (hex_pairs digits data) = data"
  by (induction data) (simp_all add: hex_pairs_def hex_pair_value [OF assms])

lemma hex_pairs_length [simp]: "length (hex_pairs digits data) = 2 * length data"
  by (induction data) (simp_all add: hex_pairs_def)

lemma skip_zeroes_result:
  "skip_zeroes data = (if \<forall>b\<in>set data. b = 0 then None else Some (dropWhile (\<lambda>b. b = 0) data))"
  by (induction data) auto

lemma skip_zeroes_head: "skip_zeroes data = Some (b # bs) \<Longrightarrow> b \<noteq> 0"
  by (induction data) (auto split: if_splits)

text \<open>What decoding gives back when the leading zeroes were left out.\<close>

definition without_leading_zeroes :: "byte list \<Rightarrow> byte list" where
  "without_leading_zeroes data =
     (if data = [] then [] else if \<forall>b\<in>set data. b = 0 then [0] else dropWhile (\<lambda>b. b = 0) data)"

lemma hex_decode_single: "hex_decode [48] True = Some [0]"
  by code_simp

lemma skip_zeroes_not_Nil: "skip_zeroes data \<noteq> Some []"
  by (induction data) auto

lemma hex_round_trip_digits:
  assumes "digits = HEX_UP_DIGITS \<or> digits = HEX_LOW_DIGITS"
  shows "hex_decode (hex_encode_ex data False digits) odd_allowed = Some data"
    and "hex_decode (hex_encode_ex data True digits) True = Some (without_leading_zeroes data)"
proof -
  show "hex_decode (hex_encode_ex data False digits) odd_allowed = Some data"
    using hex_decode_encoded_pairs [OF assms] by (simp add: hex_encode_ex_def hex_decode_def)
  show "hex_decode (hex_encode_ex data True digits) True = Some (without_leading_zeroes data)"
  proof (cases "skip_zeroes data")
    case None
    then show ?thesis
      by (auto simp: hex_encode_ex_def without_leading_zeroes_def skip_zeroes_result hex_decode_single
          hex_decode_def split: if_splits)
  next
    case (Some rest)
    then have "without_leading_zeroes data = rest" and "data \<noteq> []" and "rest \<noteq> []"
      using skip_zeroes_not_Nil [of data]
      by (auto simp: skip_zeroes_result without_leading_zeroes_def split: if_splits)
    then obtain b bs where "rest = b # bs" by (cases rest) auto
    with Some \<open>without_leading_zeroes data = rest\<close> \<open>data \<noteq> []\<close> show ?thesis
      using hex_decode_encoded_pairs [OF assms] hex_low_nibble [OF assms, of b]
      by (auto simp: hex_encode_ex_def hex_decode_def)
  qed
qed

text \<open>\<open>hex_decode\<close> gives back the bytes that \<open>hex_encode\<close> or \<open>hex_low_encode\<close> wrote, with both sets
  of digits; when leading zeroes were skipped it gives them back without their leading zeroes (one zero
  if there is nothing else), and must be allowed an odd number of digits.\<close>

theorem hex_decode_inverts_encode:
  "hex_decode (hex_encode data False) odd_allowed = Some data \<and>
   hex_decode (hex_low_encode data False) odd_allowed = Some data \<and>
   hex_decode (hex_encode data True) True = Some (without_leading_zeroes data) \<and>
   hex_decode (hex_low_encode data True) True = Some (without_leading_zeroes data)"
  unfolding hex_encode_def hex_low_encode_def by (simp add: hex_round_trip_digits)

end
