(* ===== verification/LogFormat.thy ===== *)
theory LogFormat
  imports GearsNumbers GearsHex
begin

section \<open>Formatting of log records (gears/SimpleLogger.cpp, Logger.hpp)\<close>

text \<open>
  \<open>Simple::Formatter\<close> writes a record into a buffer through the class \<open>Buffer\<close>, whose remaining size is an
  \<open>int\<close>; the assertions of the source and the null pointer that \<open>get\<close> returns are faults. What the C library
  gives (\<open>strftime\<close>, \<open>getpid\<close>, \<open>pthread_self\<close>) enters as the record \<open>environment\<close>. The theorem says that a
  buffer of the required size is enough: no assertion fails, and the line is the concatenation of its
  parts. \<open>FormatWrapper\<close> is the choice between a buffer per record and one allocated beforehand.
\<close>

subsection \<open>Records and texts\<close>

record log_record =
  rec_text :: "byte list"
  rec_severity :: nat
  rec_aspect :: "byte list"
  rec_code :: "byte list"

text \<open>The date as \<open>strftime\<close> writes it, the time of day of the record, the ids of process and thread.\<close>

record environment =
  date_text :: "byte list"
  tm_hour :: int
  tm_min :: int
  tm_sec :: int
  tm_usec :: int
  pid :: nat
  tid :: nat

definition SEVERITY_LABLES :: "byte list list" where
  "SEVERITY_LABLES = map ascii
     [''EMERGENCY'', ''ALERT'', ''CRITICAL'', ''ERROR'', ''WARNING'', ''NOTICE'', ''INFO'', ''DEBUG'', ''TRACE'']"

text \<open>The conversions \<open>%0wd\<close> and \<open>%08lX\<close> of \<open>snprintf\<close>; \<open>%u\<close> and \<open>%lu\<close> are \<open>number_text\<close>.\<close>

definition zero_padded :: "nat \<Rightarrow> int \<Rightarrow> byte list" where
  "zero_padded w v =
     (if v < 0 then 45 # replicate (w - 1 - length (number_text (- v))) 48 @ number_text (- v)
      else replicate (w - length (number_text v)) 48 @ number_text v)"

fun hex_number :: "nat \<Rightarrow> byte list" where
  "hex_number n = (if n < 16 then [HEX_UP_DIGITS ! n] else hex_number (n div 16) @ [HEX_UP_DIGITS ! (n mod 16)])"

declare hex_number.simps [simp del]

definition hex_padded :: "nat \<Rightarrow> nat \<Rightarrow> byte list" where
  "hex_padded w n = replicate (w - length (hex_number n)) 48 @ hex_number n"

definition time_text :: "environment \<Rightarrow> byte list" where
  "time_text env =
     [32] @ zero_padded 2 (tm_hour env) @ [58] @ zero_padded 2 (tm_min env) @ [58] @
     zero_padded 2 (tm_sec env) @ [58] @ zero_padded 6 (tm_usec env) @ [32]"

subsection \<open>The buffer\<close>

text \<open>\<open>passed\<close> are the bytes behind \<open>buff_ptr_\<close>, \<open>room\<close> is \<open>size_\<close>.\<close>

record format_buffer =
  passed :: "byte option list"
  room :: int

definition buffer_new :: "nat \<Rightarrow> format_buffer" where
  "buffer_new n = \<lparr>passed = [], room = s32 (int n)\<rparr>"

definition advance :: "format_buffer \<Rightarrow> byte option list \<Rightarrow> format_buffer" where
  "advance fb bytes =
     (if room fb > 0 then fb\<lparr>passed := passed fb @ bytes, room := room fb - int (length bytes)\<rparr> else fb)"

text \<open>\<open>snprintf\<close> of a text, then \<open>advance()\<close> over what it wrote, or \<open>advance(17)\<close> for the time.\<close>

definition printed :: "format_buffer \<Rightarrow> byte list \<Rightarrow> byte option list" where
  "printed fb txt = map Some (take (nat (room fb) - 1) txt)"

definition print_into :: "format_buffer \<Rightarrow> byte list \<Rightarrow> format_buffer outcome" where
  "print_into fb txt =
     (if room fb < 0 then Inl Null_Dereference
      else if room fb = 0 then Inr fb
      else Inr (advance fb (printed fb txt)))"

definition print_time_of_day :: "format_buffer \<Rightarrow> byte list \<Rightarrow> format_buffer outcome" where
  "print_time_of_day fb txt =
     (if room fb < 0 then Inl Null_Dereference
      else if room fb = 0 then Inr fb
      else Inr (advance fb (take 17 (printed fb txt @ [Some 0] @ replicate 17 None))))"

text \<open>\<open>strftime\<close> writes nothing when its text and the zero do not fit.\<close>

definition print_date :: "format_buffer \<Rightarrow> byte list \<Rightarrow> format_buffer outcome" where
  "print_date fb txt =
     (if room fb < 0 then Inl Null_Dereference
      else if room fb = 0 then Inr fb
      else Inr (if int (length txt) < room fb then advance fb (map Some txt) else fb))"

text \<open>\<open>memcpy\<close> of a text of \<open>n\<close> bytes after the assertion that \<open>slack\<close> more fit.\<close>

definition put_checked :: "format_buffer \<Rightarrow> byte list \<Rightarrow> nat \<Rightarrow> format_buffer outcome" where
  "put_checked fb txt needed =
     (if room fb < 0 then Inl Null_Dereference
      else if room fb < int needed then Inl Assertion_Failed
      else Inr (advance fb (map Some txt)))"

subsection \<open>The formatter\<close>

record formatter =
  log_time :: bool
  log_severity :: bool
  log_aspect :: bool
  log_code :: bool
  log_thread_id :: bool
  log_process_id :: bool

definition formatter_default :: formatter where
  "formatter_default = \<lparr>log_time = True, log_severity = True, log_aspect = True, log_code = True,
     log_thread_id = False, log_process_id = False\<rparr>"

definition required_size :: "log_record \<Rightarrow> nat" where
  "required_size r = length (rec_text r) + length (rec_aspect r) + length (rec_code r) + 1024"

definition needed_size :: "formatter \<Rightarrow> log_record \<Rightarrow> nat" where
  "needed_size f r = length (rec_text r) + (if log_aspect f then length (rec_aspect r) else 0) +
     (if log_code f then length (rec_code r) else 0) + 1024"

definition format_time :: "formatter \<Rightarrow> environment \<Rightarrow> format_buffer \<Rightarrow> format_buffer outcome" where
  "format_time f env fb =
     (if log_time f then
        bind_sum (print_date fb (date_text env)) (\<lambda>fb1. print_time_of_day fb1 (time_text env))
      else Inr fb)"

definition format_code :: "formatter \<Rightarrow> log_record \<Rightarrow> format_buffer \<Rightarrow> format_buffer outcome" where
  "format_code f r fb =
     (if log_code f then put_checked fb ([91] @ rec_code r @ [93, 32]) (length (rec_code r) + 3) else Inr fb)"

definition format_severity :: "formatter \<Rightarrow> log_record \<Rightarrow> format_buffer \<Rightarrow> format_buffer outcome" where
  "format_severity f r fb =
     (if log_severity f then
        let severities = length SEVERITY_LABLES;
            label = SEVERITY_LABLES ! (if rec_severity r < severities then rec_severity r else severities - 1)
        in if rec_severity r \<ge> severities - 1 then
             bind_sum (put_checked fb ([91] @ label) (length label + 4 + 20)) (\<lambda>fb1.
               print_into fb1 ([32] @ number_text (int (rec_severity r - (severities - 1))) @ [93, 32]))
           else put_checked fb ([91] @ label @ [93, 32]) (length label + 4 + 20)
      else Inr fb)"

definition format_aspect :: "formatter \<Rightarrow> log_record \<Rightarrow> format_buffer \<Rightarrow> format_buffer outcome" where
  "format_aspect f r fb =
     (if log_aspect f then put_checked fb ([91] @ rec_aspect r @ [93, 32]) (length (rec_aspect r) + 3)
      else Inr fb)"

definition format_ids :: "formatter \<Rightarrow> environment \<Rightarrow> format_buffer \<Rightarrow> format_buffer outcome" where
  "format_ids f env fb =
     bind_sum (if log_process_id f then print_into fb ([40] @ number_text (int (pid env)) @ [41, 32])
               else Inr fb) (\<lambda>fb1.
       if log_thread_id f then print_into fb1 ([91] @ hex_padded 8 (tid env) @ [93, 32]) else Inr fb1)"

definition format_separator :: "formatter \<Rightarrow> format_buffer \<Rightarrow> format_buffer outcome" where
  "format_separator f fb =
     (if log_time f \<or> log_severity f \<or> log_aspect f \<or> log_thread_id f \<or> log_process_id f
      then put_checked fb [58, 32] 2 else Inr fb)"

text \<open>The whole of \<open>Formatter::format\<close>: \<open>None\<close> for \<open>false\<close>, or the bytes of the buffer up to the zero.\<close>

definition format_record ::
  "formatter \<Rightarrow> environment \<Rightarrow> log_record \<Rightarrow> nat \<Rightarrow> byte option list option outcome" where
  "format_record f env r sz =
     (if needed_size f r > sz then Inr None
      else
        bind_sum (format_time f env (buffer_new sz)) (\<lambda>fb1.
        bind_sum (format_code f r fb1) (\<lambda>fb2.
        bind_sum (format_severity f r fb2) (\<lambda>fb3.
        bind_sum (format_aspect f r fb3) (\<lambda>fb4.
        bind_sum (format_ids f env fb4) (\<lambda>fb5.
        bind_sum (format_separator f fb5) (\<lambda>fb6.
        bind_sum (put_checked fb6 (rec_text r) (length (rec_text r) + 2)) (\<lambda>fb7.
          Inr (Some (passed fb7 @ [Some 10, Some 0]))))))))))"

text \<open>\<open>FormatWrapper\<close>: \<open>allocated\<close> is the size given to the constructor, 0 for a buffer per record; then the
  base class asks for \<open>required_size\<close> and asserts the success. \<open>None\<close> is the null pointer.\<close>

definition format_allocated ::
  "formatter \<Rightarrow> environment \<Rightarrow> log_record \<Rightarrow> byte option list option outcome" where
  "format_allocated f env r =
     bind_sum (format_record f env r (required_size r)) (\<lambda>res.
       case res of None \<Rightarrow> Inl Assertion_Failed | Some line \<Rightarrow> Inr (Some line))"

definition wrapper_format ::
  "formatter \<Rightarrow> nat \<Rightarrow> environment \<Rightarrow> log_record \<Rightarrow> byte option list option outcome" where
  "wrapper_format f allocated env r =
     (if allocated = 0 then format_allocated f env r else format_record f env r allocated)"

subsection \<open>A buffer of the required size is enough\<close>

definition severity_text :: "nat \<Rightarrow> byte list" where
  "severity_text sev =
     (if sev < 8 then [91] @ SEVERITY_LABLES ! sev @ [93, 32]
      else [91] @ SEVERITY_LABLES ! 8 @ [32] @ number_text (int (sev - 8)) @ [93, 32])"

text \<open>The parts of a line in their order.\<close>

definition line_text :: "formatter \<Rightarrow> environment \<Rightarrow> log_record \<Rightarrow> byte list" where
  "line_text f env r =
     (if log_time f then date_text env @ time_text env else []) @
     (if log_code f then [91] @ rec_code r @ [93, 32] else []) @
     (if log_severity f then severity_text (rec_severity r) else []) @
     (if log_aspect f then [91] @ rec_aspect r @ [93, 32] else []) @
     (if log_process_id f then [40] @ number_text (int (pid env)) @ [41, 32] else []) @
     (if log_thread_id f then [91] @ hex_padded 8 (tid env) @ [93, 32] else []) @
     (if log_time f \<or> log_severity f \<or> log_aspect f \<or> log_thread_id f \<or> log_process_id f
      then [58, 32] else []) @
     rec_text r"

definition environment_ok :: "environment \<Rightarrow> bool" where
  "environment_ok env \<longleftrightarrow> length (date_text env) \<le> 256 \<and>
     0 \<le> tm_hour env \<and> tm_hour env < 24 \<and> 0 \<le> tm_min env \<and> tm_min env < 60 \<and>
     0 \<le> tm_sec env \<and> tm_sec env \<le> 60 \<and> 0 \<le> tm_usec env \<and> tm_usec env < 10 ^ 6 \<and>
     pid env < 2 ^ 32 \<and> tid env < 2 ^ 64"

definition adv :: "format_buffer \<Rightarrow> byte list \<Rightarrow> format_buffer" where
  "adv fb t = fb\<lparr>passed := passed fb @ map Some t, room := room fb - int (length t)\<rparr>"

lemma room_adv [simp]: "room (adv fb t) = room fb - int (length t)"
  and passed_adv [simp]: "passed (adv fb t) = passed fb @ map Some t"
  by (simp_all add: adv_def)

lemma adv_adv [simp]: "adv (adv fb s) t = adv fb (s @ t)"
  by (simp add: adv_def)

lemma adv_Nil [simp]: "adv fb [] = fb"
  by (simp add: adv_def)

lemma put_checked_ok:
  "0 < n \<Longrightarrow> int n \<le> room fb \<Longrightarrow> put_checked fb t n = Inr (adv fb t)"
  by (simp add: put_checked_def advance_def adv_def)

lemma print_into_ok: "int (length t) < room fb \<Longrightarrow> print_into fb t = Inr (adv fb t)"
  by (simp add: print_into_def printed_def advance_def adv_def)

lemma print_date_ok: "int (length t) < room fb \<Longrightarrow> print_date fb t = Inr (adv fb t)"
  by (simp add: print_date_def advance_def adv_def)

lemma print_time_of_day_ok: "length t = 17 \<Longrightarrow> 17 < room fb \<Longrightarrow> print_time_of_day fb t = Inr (adv fb t)"
  by (simp add: print_time_of_day_def printed_def advance_def adv_def)

lemma number_text_nonneg: "0 \<le> v \<Longrightarrow> v < 10 ^ Suc n \<Longrightarrow> length (number_text v) \<le> Suc n"
  using digits_length [of v n] by (simp add: number_text_def)

lemma zero_padded_length: "0 \<le> v \<Longrightarrow> v < 10 ^ Suc n \<Longrightarrow> length (zero_padded (Suc n) v) = Suc n"
  using number_text_nonneg [of v n] by (simp add: zero_padded_def)

lemma zero_padded_2: "0 \<le> v \<Longrightarrow> v < 100 \<Longrightarrow> length (zero_padded 2 v) = 2"
proof -
  assume v: "0 \<le> v" "v < 100"
  have two: "Suc 1 = 2" by simp
  show ?thesis using zero_padded_length [of v 1, unfolded two] v by simp
qed

lemma zero_padded_6: "0 \<le> v \<Longrightarrow> v < 1000000 \<Longrightarrow> length (zero_padded 6 v) = 6"
proof -
  assume v: "0 \<le> v" "v < 1000000"
  have six: "Suc 5 = 6" by simp
  show ?thesis using zero_padded_length [of v 5, unfolded six] v by simp
qed

lemma time_text_length: "environment_ok env \<Longrightarrow> length (time_text env) = 17"
  using zero_padded_2 [of "tm_hour env"] zero_padded_2 [of "tm_min env"]
    zero_padded_2 [of "tm_sec env"] zero_padded_6 [of "tm_usec env"]
  by (simp add: environment_ok_def time_text_def)

lemma hex_number_length: "n < 16 ^ Suc k \<Longrightarrow> length (hex_number n) \<le> Suc k"
proof (induction k arbitrary: n)
  case 0
  then show ?case by (subst hex_number.simps) simp
next
  case (Suc k)
  have "n div 16 < 16 ^ Suc k" using Suc.prems by (simp add: div_less_iff_less_mult)
  then show ?case using Suc.IH [of "n div 16"] by (subst hex_number.simps) (simp del: power_Suc)
qed

lemma hex_padded_length: "n < 2 ^ 64 \<Longrightarrow> length (hex_padded 8 n) \<le> 16"
  using hex_number_length [of n 15] by (simp add: hex_padded_def)

lemma labels: "length SEVERITY_LABLES = 9" "i < 9 \<Longrightarrow> length (SEVERITY_LABLES ! i) \<le> 9"
proof -
  show "length SEVERITY_LABLES = 9" by (simp add: SEVERITY_LABLES_def)
  have "list_all (\<lambda>l. length l \<le> 9) SEVERITY_LABLES" by (simp add: SEVERITY_LABLES_def ascii_def)
  moreover assume "i < 9"
  ultimately show "length (SEVERITY_LABLES ! i) \<le> 9"
    using \<open>length SEVERITY_LABLES = 9\<close> by (simp add: list_all_length)
qed

lemma format_severity_ok:
  assumes "rec_severity r < 2 ^ 64" and "64 \<le> room fb"
  shows "format_severity f r fb = Inr (adv fb (if log_severity f then severity_text (rec_severity r) else []))"
    and "length (severity_text (rec_severity r)) \<le> 33"
proof -
  have num: "length (number_text (int (rec_severity r - 8))) \<le> 20"
    using number_text_nonneg [of "int (rec_severity r - 8)" 19] assms(1) by simp
  show "format_severity f r fb = Inr (adv fb (if log_severity f then severity_text (rec_severity r) else []))"
  proof (cases "rec_severity r < 8")
    case True
    then show ?thesis
      using labels(2) [of "rec_severity r"] assms(2)
      by (simp add: format_severity_def labels(1) severity_text_def put_checked_ok)
  next
    case False
    then have "rec_severity r = 8 \<or> \<not> rec_severity r < 9" by auto
    then show ?thesis
      using False labels(2) [of 8] assms(2) num
      by (elim disjE) (simp_all add: format_severity_def labels(1) severity_text_def put_checked_ok print_into_ok)
  qed
  show "length (severity_text (rec_severity r)) \<le> 33"
    using labels(2) [of "rec_severity r"] labels(2) [of 8] num by (auto simp: severity_text_def)
qed

lemma line_parts_lengths:
  assumes "environment_ok env"
  shows "length (date_text env) \<le> 256" "length (time_text env) = 17"
    "length (number_text (int (pid env))) \<le> 10" "length (hex_padded 8 (tid env)) \<le> 16"
  using assms time_text_length [OF assms] number_text_nonneg [of "int (pid env)" 9]
    hex_padded_length [of "tid env"]
  by (auto simp: environment_ok_def)

lemma format_record_line:
  assumes "environment_ok env" and "rec_severity r < 2 ^ 64" and "needed_size f r \<le> n" and "n < 2 ^ 31"
  shows "format_record f env r n = Inr (Some (map Some (line_text f env r @ [10, 0])))"
proof -
  note lens = line_parts_lengths [OF assms(1)]
  define fb0 where "fb0 = buffer_new n"
  have r0: "room fb0 = int n" "passed fb0 = []" using assms(4) by (simp_all add: fb0_def buffer_new_def s32_id)
  define t1 where "t1 = (if log_time f then date_text env @ time_text env else [])"
  define t2 where "t2 = (if log_code f then [91] @ rec_code r @ [93, 32] else [])"
  define t3 where "t3 = (if log_severity f then severity_text (rec_severity r) else [])"
  define t4 where "t4 = (if log_aspect f then [91] @ rec_aspect r @ [93, 32] else [])"
  define t5 where "t5 = (if log_process_id f then [40] @ number_text (int (pid env)) @ [41, 32] else []) @
    (if log_thread_id f then [91] @ hex_padded 8 (tid env) @ [93, 32] else [])"
  define t6 :: "byte list" where "t6 = (if log_time f \<or> log_severity f \<or> log_aspect f \<or> log_thread_id f \<or>
    log_process_id f then [58, 32] else [])"
  define code where "code = (if log_code f then length (rec_code r) else 0)"
  define asp where "asp = (if log_aspect f then length (rec_aspect r) else 0)"
  have sizes: "length t1 \<le> 273" "length t2 \<le> code + 3" "length t3 \<le> 33" "length t4 \<le> asp + 3"
    "length t5 \<le> 32" "length t6 \<le> 2"
    using lens format_severity_ok(2) [OF assms(2), of "fb0\<lparr>room := 64\<rparr>"]
    by (auto simp: t1_def t2_def t3_def t4_def t5_def t6_def code_def asp_def)
  have big: "length (rec_text r) + code + asp + 1024 \<le> n"
    using assms(3) by (simp add: needed_size_def code_def asp_def)
  have 1: "format_time f env fb0 = Inr (adv fb0 t1)"
    using lens big r0 by (simp add: format_time_def t1_def print_date_ok print_time_of_day_ok)
  have 2: "format_code f r (adv fb0 t1) = Inr (adv fb0 (t1 @ t2))"
    using big r0 sizes(1) by (auto simp: format_code_def t2_def put_checked_ok code_def split: if_splits)
  have 3: "format_severity f r (adv fb0 (t1 @ t2)) = Inr (adv fb0 (t1 @ t2 @ t3))"
    using big r0 sizes by (subst format_severity_ok(1) [OF assms(2)]) (auto simp: t3_def)
  have 4: "format_aspect f r (adv fb0 (t1 @ t2 @ t3)) = Inr (adv fb0 (t1 @ t2 @ t3 @ t4))"
    using big r0 sizes by (auto simp: format_aspect_def t4_def put_checked_ok asp_def split: if_splits)
  have 5: "format_ids f env (adv fb0 (t1 @ t2 @ t3 @ t4)) = Inr (adv fb0 (t1 @ t2 @ t3 @ t4 @ t5))"
    using big r0 sizes lens by (auto simp: format_ids_def t5_def print_into_ok)
  have 6: "format_separator f (adv fb0 (t1 @ t2 @ t3 @ t4 @ t5)) = Inr (adv fb0 (t1 @ t2 @ t3 @ t4 @ t5 @ t6))"
    using big r0 sizes by (auto simp: format_separator_def t6_def put_checked_ok)
  have 7: "put_checked (adv fb0 (t1 @ t2 @ t3 @ t4 @ t5 @ t6)) (rec_text r) (length (rec_text r) + 2) =
      Inr (adv fb0 (t1 @ t2 @ t3 @ t4 @ t5 @ t6 @ rec_text r))"
    using big r0 sizes by (simp add: put_checked_ok)
  have "line_text f env r = t1 @ t2 @ t3 @ t4 @ t5 @ t6 @ rec_text r"
    by (simp add: line_text_def t1_def t2_def t3_def t4_def t5_def t6_def)
  then show ?thesis
    using assms(3) 1 2 3 4 5 6 7 r0 by (simp add: format_record_def fb0_def [symmetric] not_less)
qed

lemma needed_below_required: "needed_size f r \<le> required_size r"
  by (simp add: needed_size_def required_size_def)

lemma wrapper_format_line:
  assumes "environment_ok env" and "rec_severity r < 2 ^ 64" and "required_size r < 2 ^ 31"
  shows "wrapper_format f 0 env r = Inr (Some (map Some (line_text f env r @ [10, 0])))"
  using format_record_line [OF assms(1,2) needed_below_required assms(3)]
  by (simp add: wrapper_format_def format_allocated_def)

text \<open>C30: A buffer of the needed size (below 2 to the 31 bytes) is enough for the line: no assertion of the
  formatter fails, and it writes the line, an end of line and a zero; with a smaller buffer it writes nothing
  and returns \<open>false\<close>. The wrapper that allocates a buffer per record never fails.\<close>

theorem format_fits_required_size:
  assumes "environment_ok env" and "rec_severity r < 2 ^ 64" and "sz < 2 ^ 31" and "required_size r < 2 ^ 31"
  shows "format_record f env r sz =
      Inr (if needed_size f r \<le> sz then Some (map Some (line_text f env r @ [10, 0])) else None) \<and>
    length (line_text f env r) + 2 \<le> needed_size f r \<and>
    wrapper_format f 0 env r = Inr (Some (map Some (line_text f env r @ [10, 0])))"
proof -
  have "length (line_text f env r) + 2 \<le> needed_size f r"
    using line_parts_lengths [OF assms(1)] format_severity_ok(2) [OF assms(2), of "\<lparr>passed = [], room = 64\<rparr>"]
    by (auto simp: line_text_def needed_size_def)
  then show ?thesis
    using format_record_line [OF assms(1,2), of f sz] wrapper_format_line [OF assms(1,2,4), of f] assms(3)
    by (simp add: format_record_def not_less)
qed

theorem format_fits_required_size_witness:
  "let r = \<lparr>rec_text = ascii ''text'', rec_severity = 9, rec_aspect = ascii ''A'', rec_code = ascii ''7''\<rparr>;
       env = \<lparr>date_text = ascii ''Mon 01 Jan 2024'', tm_hour = 1, tm_min = 2, tm_sec = 3, tm_usec = 4,
              pid = 5, tid = 6\<rparr>
   in wrapper_format formatter_default 0 env r =
        Inr (Some (map Some (ascii ''Mon 01 Jan 2024 01:02:03:000004 [7] [TRACE 1] [A] : text'' @ [10, 0]))) \<and>
      format_record formatter_default env r 1029 = Inr None"
proof -
  let ?r = "\<lparr>rec_text = ascii ''text'', rec_severity = 9, rec_aspect = ascii ''A'', rec_code = ascii ''7''\<rparr>"
  let ?env = "\<lparr>date_text = ascii ''Mon 01 Jan 2024'', tm_hour = 1, tm_min = 2, tm_sec = 3, tm_usec = 4,
    pid = 5, tid = 6\<rparr>"
  have "environment_ok ?env" by (simp add: environment_ok_def ascii_def)
  note facts = format_fits_required_size [of ?env ?r 1029 formatter_default, OF this]
  have line: "line_text formatter_default ?env ?r =
      ascii ''Mon 01 Jan 2024 01:02:03:000004 [7] [TRACE 1] [A] : text''"
    by code_simp
  have sizes: "needed_size formatter_default ?r = 1030" "required_size ?r = 1030"
    by (simp_all add: needed_size_def required_size_def formatter_default_def ascii_def)
  show ?thesis using facts line sizes by (simp add: Let_def)
qed

end
