(* ===== verification/MemoryStreams.thy ===== *)
theory MemoryStreams
  imports Prelude
begin

section \<open>Memory streams and their allocators (gears/Allocator, OutputMemoryStream, InputMemoryStream)\<close>

text \<open>
  The output buffer grows by powers of two from 4096 with the heap allocator, and never with the
  allocators that hand out one fixed block (\<open>OutputBufferStream\<close>, \<open>OutputStackStream\<close>, \<open>ErrorStream\<close>).
  A byte of fresh heap memory is indeterminate: a memory block is a list of optional bytes. \<open>pptr\<close> is
  the put pointer as an offset from the start of the block; \<open>pbump\<close> takes an \<open>int\<close>.

  What \<open>std::streambuf\<close> and \<open>std::ostream\<close> do with the buffer is in \<open>sputc\<close>, \<open>sputn\<close> and \<open>put_text\<close>.
  The theorems: a heap stream holds all that was written, a fixed one the part that fits, and the
  buffer of an \<open>OutputBufferStream\<close> ends in a zero whatever was written; seeking in an input buffer does not
  move it; a heap stream breaks at 2 to the 31 bytes.
\<close>

type_synonym block = "byte option list"

subsection \<open>Allocators\<close>

text \<open>
  \<open>BasicFixedBufferAllocator\<close>: its storage of \<open>SIZE\<close> bytes and whether it is handed out. \<open>std::allocator\<close>
  is \<open>Heap\<close>.
\<close>

datatype allocator = Heap | Fixed "block" bool

definition fixed_allocator :: "block \<Rightarrow> allocator" where
  "fixed_allocator storage = Fixed (storage[length storage - 1 := Some 0]) False"

fun allocate :: "allocator \<Rightarrow> nat \<Rightarrow> allocator \<times> block option" where
  "allocate Heap n = (Heap, Some (replicate n None))"
| "allocate (Fixed storage allocated) n =
     (if allocated \<or> n \<ge> length storage then (Fixed storage allocated, None)
      else (Fixed storage True, Some storage))"

text \<open>The block comes back with what was written to it; \<open>own\<close> is whether it is the allocator's buffer.\<close>

fun deallocate :: "allocator \<Rightarrow> bool \<Rightarrow> block \<Rightarrow> nat \<Rightarrow> allocator" where
  "deallocate Heap own mem n = Heap"
| "deallocate (Fixed storage allocated) own mem n =
     (if \<not> allocated \<or> \<not> own \<or> n \<ge> length storage then Fixed storage allocated
      else Fixed mem False)"

subsection \<open>The output buffer\<close>

text \<open>\<open>pbase\<close> is null (\<open>None\<close>) or the block; \<open>epptr\<close> the offset of the end of the put area. The get area is
  kept as the offsets of its next position and its end.\<close>

record out_buffer =
  allocator_ptr :: allocator
  pbase :: "block option"
  epptr :: nat
  pptr :: int
  gptr :: int
  egptr :: int
  max_offset :: int

definition out_buffer_new :: "nat \<Rightarrow> allocator \<Rightarrow> out_buffer" where
  "out_buffer_new initial_size alloc =
     (case (if initial_size > 0 then allocate alloc initial_size else (alloc, None)) of
        (alloc', p) \<Rightarrow>
          \<lparr>allocator_ptr = alloc', pbase = p, epptr = initial_size, pptr = 0, gptr = 0, egptr = 0,
            max_offset = 0\<rparr>)"

definition out_size :: "out_buffer \<Rightarrow> int" where
  "out_size b = pptr b"

definition out_data :: "out_buffer \<Rightarrow> block option" where
  "out_data b = pbase b"

text \<open>The doubling loop, over the exponent of \<open>new_size\<close>; shifting out of \<open>size_t\<close> gives 0.\<close>

function grow :: "nat \<Rightarrow> nat \<Rightarrow> nat option" where
  "grow k old_size =
     (if 2 ^ k \<le> old_size then (if k + 1 \<ge> 64 then None else grow (k + 1) old_size) else Some (2 ^ k))"
  by auto
termination by (relation "measure (\<lambda>(k, old). 64 - k)") auto

declare grow.simps [simp del]

definition block_of :: "block option \<Rightarrow> block" where
  "block_of p = (case p of None \<Rightarrow> [] | Some mem \<Rightarrow> mem)"

definition extend_buffer :: "out_buffer \<Rightarrow> out_buffer \<times> bool" where
  "extend_buffer b =
     (let old_size = epptr b; offset = pptr b in
      case grow 12 old_size of
        None \<Rightarrow> (b, False)
      | Some new_size \<Rightarrow>
          (case allocate (allocator_ptr b) new_size of
             (alloc, None) \<Rightarrow> (b\<lparr>allocator_ptr := alloc\<rparr>, False)
           | (alloc, Some mem) \<Rightarrow>
               let mem' = (if old_size > 0 then take old_size (block_of (pbase b)) @ drop old_size mem else mem);
                   alloc' = (if old_size > 0 then deallocate alloc True (block_of (pbase b)) old_size else alloc)
               in (b\<lparr>allocator_ptr := alloc', pbase := Some mem', epptr := new_size, pptr := s32 offset\<rparr>,
                   True)))"

text \<open>Storing through the put pointer; outside the block is a fault.\<close>

definition store_next :: "out_buffer \<Rightarrow> int \<Rightarrow> out_buffer outcome" where
  "store_next b c =
     (case pbase b of
        None \<Rightarrow> Inl Null_Dereference
      | Some mem \<Rightarrow>
          if 0 \<le> pptr b \<and> pptr b < int (length mem)
          then Inr (b\<lparr>pbase := Some (mem[nat (pptr b) := Some (word_of_int c)]), pptr := pptr b + 1\<rparr>)
          else Inl Out_Of_Bounds)"

text \<open>\<open>None\<close> is \<open>Traits::eof()\<close>.\<close>

definition overflow :: "out_buffer \<Rightarrow> int \<Rightarrow> (out_buffer \<times> int option) outcome" where
  "overflow b c =
     (let gpos = gptr b in
      case extend_buffer b of
        (b1, False) \<Rightarrow> Inr (b1, None)
      | (b1, True) \<Rightarrow>
          bind_sum (store_next b1 c) (\<lambda>b2.
            Inr (b2\<lparr>gptr := gpos, egptr := pptr b2\<rparr>, Some (if c = - 1 then 0 else c))))"

datatype seek_dir = Beg | Cur | End_Dir | Other_Dir

definition seekpos :: "out_buffer \<Rightarrow> int \<Rightarrow> bool \<Rightarrow> out_buffer \<times> int" where
  "seekpos b pos which_out =
     (if \<not> which_out then (b, - 1)
      else
        let current = pptr b;
            b1 = (if current > max_offset b then b\<lparr>max_offset := current\<rparr> else b)
        in if pos < 0 \<or> pos > max_offset b1 then (b1, - 1)
           else (b1\<lparr>pptr := s32 pos\<rparr>, pos))"

definition seekoff :: "out_buffer \<Rightarrow> int \<Rightarrow> seek_dir \<Rightarrow> bool \<Rightarrow> out_buffer \<times> int" where
  "seekoff b off way which_out =
     (if \<not> which_out then (b, - 1)
      else
        let current = pptr b;
            b1 = (if current > max_offset b then b\<lparr>max_offset := current\<rparr> else b)
        in case way of
             Beg \<Rightarrow> seekpos b1 off which_out
           | Cur \<Rightarrow> seekpos b1 (off + current) which_out
           | End_Dir \<Rightarrow> seekpos b1 (max_offset b1 + off) which_out
           | Other_Dir \<Rightarrow> (b1, - 1))"

text \<open>The destructor: what is left is the allocator.\<close>

definition out_buffer_destroy :: "out_buffer \<Rightarrow> allocator" where
  "out_buffer_destroy b = deallocate (allocator_ptr b) (pbase b \<noteq> None) (block_of (pbase b)) (epptr b)"

text \<open>\<open>MemoryBufferHolder::str\<close>: the bytes before the put pointer.\<close>

definition holder_str :: "out_buffer \<Rightarrow> block" where
  "holder_str b = take (nat (out_size b)) (block_of (out_data b))"

subsection \<open>What the standard streams do with the buffer\<close>

definition sputc :: "out_buffer \<Rightarrow> byte \<Rightarrow> (out_buffer \<times> bool) outcome" where
  "sputc b c =
     (if pptr b < int (epptr b) then bind_sum (store_next b (uint c)) (\<lambda>b'. Inr (b', True))
      else bind_sum (overflow b (uint c)) (\<lambda>(b', r). Inr (b', r \<noteq> None)))"

fun sputn :: "out_buffer \<Rightarrow> byte list \<Rightarrow> (out_buffer \<times> bool) outcome" where
  "sputn b [] = Inr (b, True)"
| "sputn b (c # cs) =
     bind_sum (sputc b c) (\<lambda>(b', ok). if ok then sputn b' cs else Inr (b', False))"

text \<open>An output stream: its buffer and whether \<open>badbit\<close> is set; then nothing more is written.\<close>

definition put_text :: "out_buffer \<times> bool \<Rightarrow> byte list \<Rightarrow> (out_buffer \<times> bool) outcome" where
  "put_text s txt =
     (case s of (b, bad) \<Rightarrow>
        if bad then Inr (b, bad) else bind_sum (sputn b txt) (\<lambda>(b', ok). Inr (b', \<not> ok)))"

fun put_texts :: "out_buffer \<times> bool \<Rightarrow> byte list list \<Rightarrow> (out_buffer \<times> bool) outcome" where
  "put_texts s [] = Inr s"
| "put_texts s (t # ts) = bind_sum (put_text s t) (\<lambda>s'. put_texts s' ts)"

text \<open>\<open>OutputMemoryStream\<close> with the heap; \<open>OutputBufferStream<SIZE>\<close> over an external buffer of \<open>SIZE\<close> bytes,
  whose destructor writes a zero first; \<open>OutputStackStream<SIZE>\<close> over \<open>SIZE + 1\<close> bytes of its own.\<close>

definition output_memory_stream :: "nat \<Rightarrow> out_buffer \<times> bool" where
  "output_memory_stream initial_size = (out_buffer_new initial_size Heap, False)"

definition output_buffer_stream :: "block \<Rightarrow> out_buffer \<times> bool" where
  "output_buffer_stream buffer =
     (out_buffer_new (length buffer - 1) (fixed_allocator buffer), False)"

definition output_buffer_stream_destroy :: "out_buffer \<times> bool \<Rightarrow> allocator outcome" where
  "output_buffer_stream_destroy s =
     bind_sum (put_text s [0]) (\<lambda>(b, bad). Inr (out_buffer_destroy b))"

definition output_stack_stream :: "nat \<Rightarrow> out_buffer \<times> bool" where
  "output_stack_stream n = (out_buffer_new n (fixed_allocator (replicate (n + 1) None)), False)"

subsection \<open>The input buffer\<close>

record in_buffer =
  get_area :: "byte list"
  get_pos :: nat

definition in_buffer_new :: "byte list \<Rightarrow> in_buffer" where
  "in_buffer_new region = \<lparr>get_area = region, get_pos = 0\<rparr>"

definition in_data :: "in_buffer \<Rightarrow> byte list" where
  "in_data b = drop (get_pos b) (get_area b)"

definition in_size :: "in_buffer \<Rightarrow> nat" where
  "in_size b = length (get_area b) - get_pos b"

definition in_seekpos :: "in_buffer \<Rightarrow> int \<Rightarrow> bool \<Rightarrow> in_buffer \<times> int" where
  "in_seekpos b pos which_in =
     (if \<not> which_in then (b, - 1)
      else if pos < 0 \<or> pos > int (length (get_area b)) then (b, - 1)
      else (b, pos))"

definition in_seekoff :: "in_buffer \<Rightarrow> int \<Rightarrow> seek_dir \<Rightarrow> bool \<Rightarrow> in_buffer \<times> int" where
  "in_seekoff b off way which_in =
     (if \<not> which_in then (b, - 1)
      else case way of
          Beg \<Rightarrow> in_seekpos b off which_in
        | Cur \<Rightarrow> in_seekpos b (off + int (get_pos b)) which_in
        | End_Dir \<Rightarrow> in_seekpos b (int (length (get_area b)) + off) which_in
        | Other_Dir \<Rightarrow> (b, - 1))"

text \<open>\<open>underflow\<close> returns the \<open>char\<close> converted to \<open>int\<close>, and \<open>eof\<close>, which is -1, at the end.\<close>

definition underflow :: "in_buffer \<Rightarrow> int" where
  "underflow b = (if get_pos b < length (get_area b) then sint (get_area b ! get_pos b) else - 1)"

subsection \<open>What the streams hold\<close>

definition holds :: "out_buffer \<Rightarrow> byte list \<Rightarrow> bool" where
  "holds b w \<longleftrightarrow> pptr b = int (length w) \<and> length w \<le> epptr b \<and>
     epptr b \<le> length (block_of (pbase b)) \<and> take (length w) (block_of (pbase b)) = map Some w \<and>
     (pbase b = None \<longrightarrow> epptr b = 0)"

lemma grow_result:
  assumes "old_size < 2 ^ 63" and "k \<le> 63"
  shows "\<exists>n. grow k old_size = Some n \<and> old_size < n \<and> n \<le> max (2 ^ k) (2 * old_size)"
  using assms
proof (induction k old_size rule: grow.induct)
  case (1 k old_size)
  show ?case
  proof (cases "2 ^ k \<le> old_size")
    case True
    have "k < 63"
    proof (rule ccontr)
      assume "\<not> k < 63"
      then have "k = 63" using 1(3) by simp
      then show False using True 1(2) by simp
    qed
    then obtain n where n: "grow (k + 1) old_size = Some n" "old_size < n" "n \<le> max (2 ^ (k + 1)) (2 * old_size)"
      using 1 True by auto
    moreover have "max (2 ^ (k + 1)) (2 * old_size) \<le> max (2 ^ k) (2 * old_size)"
      using True by simp
    ultimately have "n \<le> max (2 ^ k) (2 * old_size)" by (rule_tac order_trans)
    then show ?thesis using n(1,2) True \<open>k < 63\<close> by (subst grow.simps) simp
  next
    case False
    then show ?thesis by (subst grow.simps) simp
  qed
qed

lemma store_next_holds:
  assumes "holds b w" and "length w < epptr b"
  shows "\<exists>mem. store_next b (uint c) = Inr (b\<lparr>pbase := Some mem, pptr := pptr b + 1\<rparr>) \<and>
    length mem = length (block_of (pbase b)) \<and>
    drop (length w + 1) mem = drop (length w + 1) (block_of (pbase b)) \<and>
    holds (b\<lparr>pbase := Some mem, pptr := pptr b + 1\<rparr>) (w @ [c])"
proof -
  obtain m where m: "pbase b = Some m" using assms by (cases "pbase b") (auto simp: holds_def)
  then have len: "length w < length m" and w: "take (length w) m = map Some w" and p: "pptr b = int (length w)"
    using assms by (auto simp: holds_def block_of_def)
  define mem where "mem = m[length w := Some c]"
  have "take (length w + 1) mem = map Some (w @ [c])"
    using len w by (simp add: mem_def take_Suc_conv_app_nth)
  moreover have "store_next b (uint c) = Inr (b\<lparr>pbase := Some mem, pptr := pptr b + 1\<rparr>)"
    using len p m by (simp add: store_next_def mem_def)
  moreover have "drop (length w + 1) mem = drop (length w + 1) m"
    by (simp add: mem_def)
  ultimately show ?thesis
    using assms m p by (intro exI [of _ mem]) (auto simp: holds_def block_of_def mem_def)
qed

text \<open>The heap stream: it extends when it is full.\<close>

lemma extend_heap:
  assumes "holds b w" and "allocator_ptr b = Heap" and "length w = epptr b" and "length w < 2 ^ 31"
  shows "\<exists>b'. extend_buffer b = (b', True) \<and> holds b' w \<and> allocator_ptr b' = Heap \<and>
    epptr b < epptr b' \<and> epptr b' < 2 ^ 63"
proof -
  obtain n where n: "grow 12 (epptr b) = Some n" "epptr b < n" "n \<le> max (2 ^ 12) (2 * epptr b)"
    using grow_result [of "epptr b" 12] assms(3,4) by auto
  then have "n < 2 ^ 63" using assms(3,4) by (auto simp: max_def split: if_splits)
  have "s32 (pptr b) = pptr b" using assms(1,4) by (intro s32_id) (auto simp: holds_def)
  define old where "old = block_of (pbase b)"
  define mem where "mem = (if epptr b > 0 then take (epptr b) old @ drop (epptr b) (replicate n None)
      else replicate n None)"
  have "extend_buffer b = (b\<lparr>allocator_ptr := Heap, pbase := Some mem, epptr := n, pptr := pptr b\<rparr>, True)"
    using n(1) assms(2) \<open>s32 (pptr b) = pptr b\<close> by (simp add: extend_buffer_def mem_def old_def Let_def)
  moreover have "length mem = n" and "take (length w) mem = map Some w"
    using n(2) assms(1,3) by (auto simp: mem_def old_def holds_def)
  ultimately show ?thesis
    using n(2) \<open>n < 2 ^ 63\<close> assms(1,3) by (auto simp: holds_def block_of_def)
qed

lemma holds_get_area [simp]: "holds (b\<lparr>gptr := x, egptr := y\<rparr>) w \<longleftrightarrow> holds b w"
  by (simp add: holds_def)

lemma sputc_heap:
  assumes "holds b w" and "allocator_ptr b = Heap" and "epptr b < 2 ^ 63" and "length w < 2 ^ 31"
  shows "\<exists>b'. sputc b c = Inr (b', True) \<and> holds b' (w @ [c]) \<and> allocator_ptr b' = Heap \<and> epptr b' < 2 ^ 63"
proof (cases "length w < epptr b")
  case True
  then show ?thesis
    using store_next_holds [OF assms(1) True, of c] assms(1,2,3)
    by (auto simp: sputc_def holds_def)
next
  case False
  then have "length w = epptr b" using assms(1) by (simp add: holds_def)
  then obtain b1 where b1: "extend_buffer b = (b1, True)" "holds b1 w" "allocator_ptr b1 = Heap"
    "epptr b < epptr b1" "epptr b1 < 2 ^ 63"
    using extend_heap [OF assms(1,2) _ assms(4)] by blast
  then have "length w < epptr b1" using assms(1) False by (simp add: holds_def)
  then obtain mem where "store_next b1 (uint c) = Inr (b1\<lparr>pbase := Some mem, pptr := pptr b1 + 1\<rparr>)"
    "holds (b1\<lparr>pbase := Some mem, pptr := pptr b1 + 1\<rparr>) (w @ [c])"
    using store_next_holds [OF b1(2)] by blast
  then show ?thesis
    using False assms(1) b1(1,3,5) by (auto simp: sputc_def overflow_def holds_def)
qed

lemma sputn_heap:
  "holds b w \<Longrightarrow> allocator_ptr b = Heap \<Longrightarrow> epptr b < 2 ^ 63 \<Longrightarrow> length w + length cs \<le> 2 ^ 31 \<Longrightarrow>
   \<exists>b'. sputn b cs = Inr (b', True) \<and> holds b' (w @ cs) \<and> allocator_ptr b' = Heap \<and> epptr b' < 2 ^ 63"
proof (induction cs arbitrary: b w)
  case (Cons c cs)
  then obtain b1 where "sputc b c = Inr (b1, True)" "holds b1 (w @ [c])" "allocator_ptr b1 = Heap"
    "epptr b1 < 2 ^ 63"
    using sputc_heap [OF Cons.prems(1-3), of c] by auto
  then show ?case using Cons.IH [of b1 "w @ [c]"] Cons.prems(4) by auto
qed auto

lemma put_texts_heap:
  "holds b w \<Longrightarrow> allocator_ptr b = Heap \<Longrightarrow> epptr b < 2 ^ 63 \<Longrightarrow>
   length w + length (concat ts) \<le> 2 ^ 31 \<Longrightarrow>
   \<exists>b'. put_texts (b, False) ts = Inr (b', False) \<and> holds b' (w @ concat ts)"
proof (induction ts arbitrary: b w)
  case (Cons t ts)
  then obtain b1 where "sputn b t = Inr (b1, True)" "holds b1 (w @ t)" "allocator_ptr b1 = Heap"
    "epptr b1 < 2 ^ 63"
    using sputn_heap [OF Cons.prems(1-3), of t] by auto
  then show ?case using Cons.IH [of b1 "w @ t"] Cons.prems(4) by (auto simp: put_text_def)
qed auto

lemma holds_str: "holds b w \<Longrightarrow> holder_str b = map Some w"
  by (simp add: holds_def holder_str_def out_size_def out_data_def)

text \<open>A memory stream on the heap holds everything written to it, whatever its initial size and however
  the writes were cut, up to 2 to the 31 bytes: each extension keeps the bytes already there.\<close>

theorem memory_stream_holds_all:
  assumes "initial_size < 2 ^ 63" and "length (concat ts) \<le> 2 ^ 31"
  shows "\<exists>b. put_texts (output_memory_stream initial_size) ts = Inr (b, False) \<and>
    holder_str b = map Some (concat ts)"
proof -
  define b0 where "b0 = out_buffer_new initial_size Heap"
  have "holds b0 []" "allocator_ptr b0 = Heap" "epptr b0 < 2 ^ 63"
    using assms(1) by (auto simp: b0_def out_buffer_new_def holds_def block_of_def split: option.splits)
  then obtain b where "put_texts (b0, False) ts = Inr (b, False)" "holds b ([] @ concat ts)"
    using put_texts_heap [of b0 "[]" ts] assms(2) by auto
  then show ?thesis
    using holds_str by (intro exI [of _ b]) (auto simp: output_memory_stream_def b0_def)
qed

theorem memory_stream_holds_all_witness:
  "\<exists>b. put_texts (output_memory_stream 0) [[97, 98], [99]] = Inr (b, False) \<and>
    holder_str b = map Some [97, 98, 99]"
  using memory_stream_holds_all [of 0 "[[97, 98], [99]]"] by simp

text \<open>A heap stream that has filled a buffer of 2 to the 31 bytes breaks at the next one: \<open>pbump\<close> takes an
  \<open>int\<close>, the offset is cut to -2147483648, and the byte is stored outside the buffer
  (OutputMemoryStream.tpp line 164).\<close>

theorem memory_stream_breaks_at_2G:
  assumes "allocator_ptr b = Heap" and "pptr b = 2 ^ 31" and "epptr b = 2 ^ 31"
  shows "sputc b c = Inl Out_Of_Bounds"
proof -
  have "s32 (2 ^ 31) = - (2 ^ 31)" by (simp add: s32_def)
  moreover obtain n where "grow 12 (2 ^ 31) = Some n" using grow_result [of "2 ^ 31" 12] by auto
  ultimately show ?thesis
    using assms by (simp add: sputc_def overflow_def extend_buffer_def store_next_def Let_def)
qed

theorem memory_stream_breaks_at_2G_witness:
  "sputc \<lparr>allocator_ptr = Heap, pbase = Some (replicate (2 ^ 31) (Some 97)), epptr = 2 ^ 31, pptr = 2 ^ 31,
     gptr = 0, egptr = 0, max_offset = 0\<rparr> 98 = Inl Out_Of_Bounds"
  by (rule memory_stream_breaks_at_2G) simp_all

subsection \<open>Fixed buffers\<close>

text \<open>The state of a stream over a fixed buffer: handed out, one byte shorter than the storage, whose last
  byte is zero; or, when there is only room for that zero, never handed out.\<close>

definition fixed_stream :: "nat \<Rightarrow> out_buffer \<Rightarrow> byte list \<Rightarrow> bool" where
  "fixed_stream n b w \<longleftrightarrow> holds b w \<and> epptr b = n \<and>
     (\<exists>st. length st = n + 1 \<and>
        (case pbase b of
           None \<Rightarrow> n = 0 \<and> allocator_ptr b = Fixed st False \<and> st ! 0 = Some 0
         | Some mem \<Rightarrow> allocator_ptr b = Fixed st True \<and> length mem = n + 1 \<and> mem ! n = Some 0))"

lemma grow_greater: "grow k old_size = Some n \<Longrightarrow> old_size < n"
proof (induction k old_size rule: grow.induct)
  case (1 k old_size)
  then show ?case using grow.simps [of k old_size] by (auto split: if_splits)
qed

lemma extend_fixed:
  assumes "fixed_stream n b w"
  shows "extend_buffer b = (b, False)"
  using assms grow_greater [of 12 n]
  by (auto simp: fixed_stream_def extend_buffer_def Let_def split: option.splits)

lemma sputc_fixed:
  assumes "fixed_stream n b w"
  shows "if length w < n then \<exists>b'. sputc b c = Inr (b', True) \<and> fixed_stream n b' (w @ [c])
    else sputc b c = Inr (b, False)"
proof (cases "length w < n")
  case True
  have h: "holds b w" and e: "epptr b = n" using assms by (simp_all add: fixed_stream_def)
  then obtain mem where mem: "store_next b (uint c) = Inr (b\<lparr>pbase := Some mem, pptr := pptr b + 1\<rparr>)"
    "length mem = length (block_of (pbase b))"
    "drop (length w + 1) mem = drop (length w + 1) (block_of (pbase b))"
    "holds (b\<lparr>pbase := Some mem, pptr := pptr b + 1\<rparr>) (w @ [c])"
    using store_next_holds [OF h] True by blast
  obtain m where m: "pbase b = Some m" using True h e by (cases "pbase b") (auto simp: holds_def)
  then have len: "length m = n + 1" "m ! n = Some 0" using assms by (auto simp: fixed_stream_def)
  then have "mem ! n = m ! n"
    using mem(2,3) m True
    by (metis Suc_eq_plus1 Suc_leI block_of_def nth_drop le_add_diff_inverse option.simps(5) le_eq_less_or_eq add_le_mono1)
  then have "fixed_stream n (b\<lparr>pbase := Some mem, pptr := pptr b + 1\<rparr>) (w @ [c])"
    using assms mem(2,4) m len by (auto simp: fixed_stream_def block_of_def)
  then show ?thesis
    using True mem(1) h e by (auto simp: sputc_def holds_def)
next
  case False
  then have "\<not> pptr b < int (epptr b)" using assms by (auto simp: fixed_stream_def holds_def)
  then show ?thesis
    using False extend_fixed [OF assms] by (simp add: sputc_def overflow_def)
qed

lemma sputn_fixed:
  "fixed_stream n b w \<Longrightarrow>
   \<exists>b'. sputn b cs = Inr (b', length w + length cs \<le> n) \<and> fixed_stream n b' (take n (w @ cs))"
proof (induction cs arbitrary: b w)
  case Nil
  then have "length w \<le> n" by (auto simp: fixed_stream_def holds_def)
  then show ?case using Nil by simp
next
  case (Cons c cs)
  show ?case
  proof (cases "length w < n")
    case True
    then obtain b1 where "sputc b c = Inr (b1, True)" "fixed_stream n b1 (w @ [c])"
      using sputc_fixed [OF Cons.prems, of c] by auto
    then show ?thesis using Cons.IH [of b1 "w @ [c]"] by auto
  next
    case False
    then have "length w = n" using Cons.prems by (auto simp: fixed_stream_def holds_def)
    then show ?thesis
      using False sputc_fixed [OF Cons.prems, of c] Cons.prems by simp
  qed
qed

lemma take_take_append: "take n (take n x @ y) = take n (x @ y)"
  by (cases "length x \<le> n") simp_all

lemma put_texts_fixed:
  "fixed_stream n b w \<Longrightarrow> (bad \<Longrightarrow> length w = n) \<Longrightarrow>
   \<exists>b' bad'. put_texts (b, bad) ts = Inr (b', bad') \<and> fixed_stream n b' (take n (w @ concat ts)) \<and>
     (bad' \<longrightarrow> length (take n (w @ concat ts)) = n)"
proof (induction ts arbitrary: b w bad)
  case Nil
  then have "length w \<le> n" by (auto simp: fixed_stream_def holds_def)
  then show ?case using Nil by auto
next
  case (Cons t ts)
  show ?case
  proof (cases bad)
    case True
    then show ?thesis using Cons.IH [of b w True] Cons.prems by (auto simp: put_text_def)
  next
    case False
    obtain b1 where b1: "sputn b t = Inr (b1, length w + length t \<le> n)"
      "fixed_stream n b1 (take n (w @ t))"
      using sputn_fixed [OF Cons.prems(1), of t] by blast
    have eq: "take n (take n (w @ t) @ concat ts) = take n (w @ concat (t # ts))"
      using take_take_append [of n "w @ t" "concat ts"] by simp
    have full: "\<not> length w + length t \<le> n \<Longrightarrow> length (take n (w @ t)) = n" by simp
    show ?thesis
      using Cons.IH [OF b1(2), of "\<not> length w + length t \<le> n", unfolded eq, OF full] b1(1) False
      by (simp add: put_text_def)
  qed
qed

lemma fixed_stream_new:
  assumes "buffer \<noteq> []"
  shows "fixed_stream (length buffer - 1) (out_buffer_new (length buffer - 1) (fixed_allocator buffer)) []"
proof (cases "length buffer = 1")
  case True
  then show ?thesis
    by (auto simp: fixed_stream_def out_buffer_new_def fixed_allocator_def holds_def block_of_def)
next
  case False
  then show ?thesis
    using assms
    by (auto simp: fixed_stream_def out_buffer_new_def fixed_allocator_def holds_def block_of_def
        neq_Nil_conv)
qed

lemma fixed_stream_str: "fixed_stream n b w \<Longrightarrow> holder_str b = map Some w"
  by (simp add: fixed_stream_def holds_str)

text \<open>An \<open>OutputBufferStream\<close> over a buffer of at least one byte writes at most all but one of its bytes,
  the first ones written to it, and when it is destroyed the buffer holds them followed by a zero,
  whatever was written and whether or not it was cut. \<open>OutputStackStream\<close> and \<open>ErrorStream\<close> hold the part
  that fits.\<close>

theorem buffer_stream_zero_terminated:
  assumes "buffer \<noteq> []"
  shows "(\<exists>s st. put_texts (output_buffer_stream buffer) ts = Inr s \<and>
      output_buffer_stream_destroy s = Inr (Fixed st False) \<and> length st = length buffer \<and>
      take (length (take (length buffer - 1) (concat ts)) + 1) st =
        map Some (take (length buffer - 1) (concat ts) @ [0])) \<and>
    (\<exists>b bad. put_texts (output_stack_stream m) ts = Inr (b, bad) \<and>
      holder_str b = map Some (take m (concat ts)))"
proof
  show "\<exists>b bad. put_texts (output_stack_stream m) ts = Inr (b, bad) \<and>
      holder_str b = map Some (take m (concat ts))"
    using put_texts_fixed [OF fixed_stream_new [of "replicate (m + 1) None"], of False ts] fixed_stream_str
    by (fastforce simp: output_stack_stream_def)
  define n where "n = length buffer - 1"
  define w where "w = take n (concat ts)"
  obtain b bad where run: "put_texts (output_buffer_stream buffer) ts = Inr (b, bad)"
    "fixed_stream n b w" "bad \<longrightarrow> length w = n"
    using put_texts_fixed [OF fixed_stream_new [OF assms], of False ts]
    by (auto simp: output_buffer_stream_def n_def w_def)
  obtain b2 bad2 where zero: "put_text (b, bad) [0] = Inr (b2, bad2)" "fixed_stream n b2 (take n (w @ [0]))"
    using put_texts_fixed [OF run(2), of bad "[[0]]"] run(3)
    by (auto simp: bind_sum_Inr_iff)
  have len: "length w \<le> n" by (simp add: w_def)
  define st where "st = (case pbase b2 of None \<Rightarrow> (case allocator_ptr b2 of Fixed st _ \<Rightarrow> st) | Some mem \<Rightarrow> mem)"
  have destroy: "out_buffer_destroy b2 = Fixed st False" "length st = n + 1" "st ! n = Some 0"
    using zero(2)
    by (auto simp: out_buffer_destroy_def st_def fixed_stream_def block_of_def split: option.splits)
  have written: "take (length (take n (w @ [0]))) st = map Some (take n (w @ [0]))"
    using zero(2) by (auto simp: fixed_stream_def holds_def st_def block_of_def split: option.splits)
  have "take (length w + 1) st = map Some (w @ [0])"
  proof (cases "length w < n")
    case True
    then show ?thesis using written by simp
  next
    case False
    then have "length w = n" using len by simp
    moreover have "take (Suc n) st = take n st @ [st ! n]"
      using destroy(2) by (intro take_Suc_conv_app_nth) simp
    ultimately show ?thesis using written destroy(2,3) by simp
  qed
  then show "\<exists>s st. put_texts (output_buffer_stream buffer) ts = Inr s \<and>
      output_buffer_stream_destroy s = Inr (Fixed st False) \<and> length st = length buffer \<and>
      take (length (take (length buffer - 1) (concat ts)) + 1) st =
        map Some (take (length buffer - 1) (concat ts) @ [0])"
    using run(1) zero(1) destroy(1,2) assms
    by (intro exI [of _ "(b, bad)"] exI [of _ st])
      (auto simp: output_buffer_stream_destroy_def n_def w_def)
qed

theorem buffer_stream_zero_terminated_witness:
  "(\<exists>s st. put_texts (output_buffer_stream [None, None, None]) [[97, 98], [99, 100]] = Inr s \<and>
      output_buffer_stream_destroy s = Inr (Fixed st False) \<and> length st = 3 \<and>
      take 3 st = [Some 97, Some 98, Some 0])"
  using buffer_stream_zero_terminated [of "[None, None, None]" "[[97, 98], [99, 100]]" 0]
  by (simp add: numeral_3_eq_3 numeral_2_eq_2)

subsection \<open>Seeking\<close>

text \<open>Seeking in an output buffer stays within what was written: the text of the stream ends at the new
  position, and the end can be found again, as the greatest offset is kept.\<close>

theorem output_seek_round_trip:
  assumes "holds b w" and "max_offset b \<le> int (length w)" and "length w < 2 ^ 31"
    and "0 \<le> pos" and "pos \<le> int (length w)"
  shows "\<exists>b1 b2. seekpos b pos True = (b1, pos) \<and> holder_str b1 = map Some (take (nat pos) w) \<and>
    seekoff b1 0 End_Dir True = (b2, int (length w)) \<and> holder_str b2 = map Some w"
proof -
  have p: "pptr b = int (length w)" using assms(1) by (simp add: holds_def)
  have s: "s32 pos = pos" "s32 (int (length w)) = int (length w)" using assms by (auto intro!: s32_id)
  define b1 where "b1 = b\<lparr>max_offset := int (length w), pptr := pos\<rparr>"
  define b2 where "b2 = b1\<lparr>pptr := int (length w)\<rparr>"
  have "seekpos b pos True = (b1, pos)"
    using assms p s by (cases "max_offset b = int (length w)") (auto simp: seekpos_def b1_def Let_def)
  moreover have "seekoff b1 0 End_Dir True = (b2, int (length w))"
    using assms s by (auto simp: seekoff_def seekpos_def b1_def b2_def Let_def)
  moreover have "holder_str b1 = map Some (take (nat pos) w)"
  proof -
    have "take (nat pos) (take (length w) (block_of (pbase b))) = take (nat pos) (map Some w)"
      using assms(1) by (simp add: holds_def)
    then show ?thesis
      using assms(5) by (simp add: holder_str_def out_size_def out_data_def b1_def take_map min_absorb1)
  qed
  moreover have "holder_str b2 = map Some w"
    using assms(1) by (simp add: holder_str_def out_size_def out_data_def b1_def b2_def holds_def)
  ultimately show ?thesis by blast
qed

theorem output_seek_round_trip_witness:
  "\<exists>b1 b2. seekpos \<lparr>allocator_ptr = Heap, pbase = Some [Some 97, Some 98], epptr = 2, pptr = 2, gptr = 0,
      egptr = 0, max_offset = 0\<rparr> 1 True = (b1, 1) \<and> holder_str b1 = [Some 97] \<and>
    seekoff b1 0 End_Dir True = (b2, 2) \<and> holder_str b2 = [Some 97, Some 98]"
  using output_seek_round_trip [of "\<lparr>allocator_ptr = Heap, pbase = Some [Some 97, Some 98], epptr = 2,
      pptr = 2, gptr = 0, egptr = 0, max_offset = 0\<rparr>" "[97, 98]" 1]
  by (simp add: holds_def block_of_def)

text \<open>Seeking in an input buffer reports success for the positions of its text, and moves nothing: what is
  read next is what would have been read without it (InputMemoryStream.tpp lines 62 to 81); and a byte of
  255 read through \<open>underflow\<close> looks like the end.\<close>

theorem input_seek_moves_nothing:
  "in_data (fst (in_seekoff b off way which_in)) = in_data b \<and>
   in_size (fst (in_seekpos b pos which_in)) = in_size b \<and>
   snd (in_seekpos b pos True) = (if 0 \<le> pos \<and> pos \<le> int (length (get_area b)) then pos else - 1) \<and>
   underflow (in_buffer_new [255]) = underflow (in_buffer_new [])"
proof -
  have "sint (255 :: byte) = - 1" by code_simp
  then have "underflow (in_buffer_new [255]) = underflow (in_buffer_new [])"
    by (simp add: underflow_def in_buffer_new_def)
  then show ?thesis
    by (cases way) (auto simp: in_seekoff_def in_seekpos_def)
qed

end
