(* ===== verification/Logging.thy ===== *)
theory Logging
  imports LogFormat MemoryStreams GearsExceptions
begin

section \<open>Loggers and the callback of active objects (gears/Logger, SimpleLogger, StreamLogger, ActiveObjectCallback)\<close>

text \<open>
  \<open>BaseLogger\<close> is the locale \<open>leveled_logger\<close>: a logger has a level, drops the records above it, and keeps it
  while it logs. The model's loggers are a datatype: the null logger, \<open>Simple::Logger\<close> over the handler that
  formats to an output stream, and the three holders, which contain another logger. The level is a
  \<open>sig_atomic_t\<close>, that is an \<open>int\<close>, which every logger converts from and to \<open>unsigned long\<close>.
  \<open>StreamLogger::Wrapper\<close> collects a record in a memory stream and logs it when it is destroyed;
  \<open>ActiveObjectCallbackImpl\<close> turns reports of active objects into records.

  The interpretation says that holders over any logger are transparent: a run of logging and setting levels
  through a holder gives what the logger gives itself.
\<close>

subsection \<open>Severities and levels\<close>

datatype severity = EMERGENCY | ALERT | CRITICAL | ERROR | WARNING | NOTICE | INFO | DEBUG | TRACE

fun severity_value :: "severity \<Rightarrow> nat" where
  "severity_value EMERGENCY = 0"
| "severity_value ALERT = 1"
| "severity_value CRITICAL = 2"
| "severity_value ERROR = 3"
| "severity_value WARNING = 4"
| "severity_value NOTICE = 5"
| "severity_value INFO = 6"
| "severity_value DEBUG = 7"
| "severity_value TRACE = 8"

text \<open>The conversions between \<open>unsigned long\<close> and \<open>sig_atomic_t\<close>.\<close>

definition to_atomic :: "nat \<Rightarrow> int" where
  "to_atomic v = s32 (int v)"

definition of_atomic :: "int \<Rightarrow> nat" where
  "of_atomic l = nat (u64 l)"

subsection \<open>The handler that writes to a stream\<close>

text \<open>An output stream of the standard library: what it has written, how much its device still takes, and
  \<open>good()\<close>; once it is not good it writes nothing.\<close>

record text_stream =
  written :: "byte list"
  capacity :: nat
  good :: bool

definition stream_put :: "text_stream \<Rightarrow> byte list \<Rightarrow> text_stream" where
  "stream_put s txt =
     (if \<not> good s then s
      else s\<lparr>written := written s @ take (capacity s) txt, capacity := capacity s - length txt,
             good := length txt \<le> capacity s\<rparr>)"

record stream_handler =
  ostr :: text_stream
  used_formatter :: formatter
  allocated :: nat

definition stream_handler_new :: "text_stream \<Rightarrow> formatter option \<Rightarrow> nat \<Rightarrow> stream_handler" where
  "stream_handler_new s f n =
     \<lparr>ostr = s, used_formatter = (case f of None \<Rightarrow> formatter_default | Some f' \<Rightarrow> f'), allocated = n\<rparr>"

text \<open>\<open>publish\<close>: the new state, and the text of the exception it throws if it does.\<close>

definition publish ::
  "environment \<Rightarrow> log_record \<Rightarrow> stream_handler \<Rightarrow> (stream_handler \<times> byte list option) outcome" where
  "publish env r h =
     bind_sum (wrapper_format (used_formatter h) (allocated h) env r) (\<lambda>line.
       case line of
         None \<Rightarrow> Inr (h, Some (ascii ''OStream::Handler::publish(): failed to format message''))
       | Some l \<Rightarrow>
           bind_sum (c_text l) (\<lambda>txt.
             let s = stream_put (ostr h) txt in
             Inr (h\<lparr>ostr := s\<rparr>,
               if good s then None else Some (ascii ''OStream::Handler::publish(): stream is dead''))))"

subsection \<open>The simple logger\<close>

record simple_logger =
  log_handler :: "stream_handler option"
  simple_level :: int
  error_stream :: "text_stream option"

definition simple_logger_new :: "stream_handler option \<Rightarrow> nat \<Rightarrow> text_stream option \<Rightarrow> simple_logger" where
  "simple_logger_new h level err = \<lparr>log_handler = h, simple_level = to_atomic level, error_stream = err\<rparr>"

definition simple_failure :: "simple_logger \<Rightarrow> byte list \<Rightarrow> simple_logger" where
  "simple_failure l msg =
     (case error_stream l of
        None \<Rightarrow> l
      | Some s \<Rightarrow> l\<lparr>error_stream := Some (stream_put s (ascii ''Logger::log(): Gears::Exception caught:'' @ msg))\<rparr>)"

definition text_or_empty :: "byte list option \<Rightarrow> byte list" where
  "text_or_empty s = (case s of None \<Rightarrow> [] | Some txt \<Rightarrow> txt)"

definition simple_log ::
  "environment \<Rightarrow> byte list \<Rightarrow> nat \<Rightarrow> byte list option \<Rightarrow> byte list option \<Rightarrow> simple_logger \<Rightarrow>
   (bool \<times> simple_logger) outcome" where
  "simple_log env txt sev aspect code l =
     (if sev > of_atomic (simple_level l) then Inr (True, l)
      else case log_handler l of
          None \<Rightarrow> Inr (False, simple_failure l (ascii ''Logger::log(): handler is undefined''))
        | Some h \<Rightarrow>
            bind_sum (publish env \<lparr>rec_text = txt, rec_severity = sev, rec_aspect = text_or_empty aspect,
                rec_code = text_or_empty code\<rparr> h) (\<lambda>(h', e).
              case e of
                None \<Rightarrow> Inr (True, l\<lparr>log_handler := Some h'\<rparr>)
              | Some msg \<Rightarrow> Inr (False, simple_failure (l\<lparr>log_handler := Some h'\<rparr>) msg)))"

subsection \<open>Loggers\<close>

text \<open>A holder has the logger it holds, \<open>None\<close> for a null pointer, and \<open>LoggerHolder\<close> a level of its own.\<close>

datatype logger =
    Null_Logger
  | Simple_Logger simple_logger
  | Simple_Holder "logger option"
  | Logger_Holder "logger option" int
  | Default_Holder "logger option" int "byte list" "byte list"

fun get_level :: "logger \<Rightarrow> nat outcome" where
  "get_level Null_Logger = Inr 0"
| "get_level (Simple_Logger l) = Inr (of_atomic (simple_level l))"
| "get_level (Simple_Holder None) = Inl Null_Dereference"
| "get_level (Simple_Holder (Some l)) = get_level l"
| "get_level (Logger_Holder l c) = Inr (of_atomic c)"
| "get_level (Default_Holder l c a d) = Inr (of_atomic c)"

fun set_level :: "nat \<Rightarrow> logger \<Rightarrow> logger outcome" where
  "set_level v Null_Logger = Inr Null_Logger"
| "set_level v (Simple_Logger l) = Inr (Simple_Logger (l\<lparr>simple_level := to_atomic v\<rparr>))"
| "set_level v (Simple_Holder None) = Inl Null_Dereference"
| "set_level v (Simple_Holder (Some l)) = bind_sum (set_level v l) (\<lambda>l'. Inr (Simple_Holder (Some l')))"
| "set_level v (Logger_Holder None c) = Inr (Logger_Holder None c)"
| "set_level v (Logger_Holder (Some l) c) =
     bind_sum (set_level v l) (\<lambda>l'. Inr (Logger_Holder (Some l') (to_atomic v)))"
| "set_level v (Default_Holder None c a d) = Inr (Default_Holder None c a d)"
| "set_level v (Default_Holder (Some l) c a d) =
     bind_sum (set_level v l) (\<lambda>l'. Inr (Default_Holder (Some l') (to_atomic v) a d))"

fun log_text ::
  "environment \<Rightarrow> byte list \<Rightarrow> nat \<Rightarrow> byte list option \<Rightarrow> byte list option \<Rightarrow> logger \<Rightarrow>
   (bool \<times> logger) outcome" where
  "log_text env txt sev aspect code Null_Logger = Inr (True, Null_Logger)"
| "log_text env txt sev aspect code (Simple_Logger l) =
     bind_sum (simple_log env txt sev aspect code l) (\<lambda>(ok, l'). Inr (ok, Simple_Logger l'))"
| "log_text env txt sev aspect code (Simple_Holder None) = Inl Null_Dereference"
| "log_text env txt sev aspect code (Simple_Holder (Some l)) =
     bind_sum (log_text env txt sev aspect code l) (\<lambda>(ok, l'). Inr (ok, Simple_Holder (Some l')))"
| "log_text env txt sev aspect code (Logger_Holder None c) = Inr (sev > of_atomic c, Logger_Holder None c)"
| "log_text env txt sev aspect code (Logger_Holder (Some l) c) =
     (if sev > of_atomic c then Inr (True, Logger_Holder (Some l) c)
      else bind_sum (log_text env txt sev aspect code l) (\<lambda>(ok, l'). Inr (ok, Logger_Holder (Some l') c)))"
| "log_text env txt sev aspect code (Default_Holder None c a d) =
     Inr (sev > of_atomic c, Default_Holder None c a d)"
| "log_text env txt sev aspect code (Default_Holder (Some l) c a d) =
     (if sev > of_atomic c then Inr (True, Default_Holder (Some l) c a d)
      else bind_sum (log_text env txt sev (Some (case aspect of None \<Rightarrow> a | Some a' \<Rightarrow> a'))
          (Some (case code of None \<Rightarrow> d | Some d' \<Rightarrow> d')) l)
        (\<lambda>(ok, l'). Inr (ok, Default_Holder (Some l') c a d)))"

text \<open>The constructors of the holders, and \<open>LoggerHolder::logger\<close>, which replaces what is held.\<close>

definition cached_level :: "logger option \<Rightarrow> int outcome" where
  "cached_level l = (case l of None \<Rightarrow> Inr 0 | Some l' \<Rightarrow> bind_sum (get_level l') (\<lambda>v. Inr (to_atomic v)))"

definition logger_holder_new :: "logger option \<Rightarrow> logger outcome" where
  "logger_holder_new l = bind_sum (cached_level l) (\<lambda>c. Inr (Logger_Holder l c))"

definition default_holder_new ::
  "logger option \<Rightarrow> byte list option \<Rightarrow> byte list option \<Rightarrow> logger outcome" where
  "default_holder_new l aspect code =
     bind_sum (cached_level l) (\<lambda>c. Inr (Default_Holder l c (text_or_empty aspect) (text_or_empty code)))"

fun replace_logger :: "logger option \<Rightarrow> logger \<Rightarrow> logger outcome" where
  "replace_logger new (Logger_Holder l c) = bind_sum (cached_level new) (\<lambda>c'. Inr (Logger_Holder new c'))"
| "replace_logger new (Default_Holder l c a d) =
     bind_sum (cached_level new) (\<lambda>c'. Inr (Default_Holder new c' a d))"
| "replace_logger new l = Inr l"

subsection \<open>Levels\<close>

lemma mod_64_32: "(i mod 2 ^ 64) mod 2 ^ 32 = i mod (2 ^ 32 :: int)"
  by (rule mod_mod_cancel) simp

lemma s32_u64 [simp]: "s32 (u64 i) = s32 i"
proof -
  have "(u64 i + 2 ^ 31) mod 2 ^ 32 = (u64 i mod 2 ^ 32 + 2 ^ 31) mod 2 ^ 32" by (rule mod_add_left_eq [symmetric])
  also have "\<dots> = (i mod 2 ^ 32 + 2 ^ 31) mod 2 ^ 32" by (simp only: u64_def mod_64_32)
  also have "\<dots> = (i + 2 ^ 31) mod 2 ^ 32" by (rule mod_add_left_eq)
  finally show ?thesis by (simp add: s32_def)
qed

lemma to_of_atomic: "to_atomic (of_atomic i) = s32 i"
  by (simp add: to_atomic_def of_atomic_def)

lemma to_of_to_atomic [simp]: "to_atomic (of_atomic (to_atomic v)) = to_atomic v"
  by (simp add: to_of_atomic) (simp add: to_atomic_def)

lemma of_to_atomic_small: "v < 2 ^ 31 \<Longrightarrow> of_atomic (to_atomic v) = v"
  by (simp add: to_atomic_def of_atomic_def s32_id u64_id)

lemma of_to_atomic_mod:
  "of_atomic (to_atomic v) = (if v mod 2 ^ 32 < 2 ^ 31 then v mod 2 ^ 32 else v mod 2 ^ 32 + (2 ^ 64 - 2 ^ 32))"
proof -
  define m where "m = v mod 2 ^ 32"
  have m: "m < 2 ^ 32" by (simp add: m_def)
  have vm: "v mod 4294967296 = m" by (simp add: m_def)
  have "int v mod 2 ^ 32 = int m" by (simp add: m_def zmod_int)
  then have "(int v + 2 ^ 31) mod 2 ^ 32 = (int m + 2 ^ 31) mod 2 ^ 32" by (metis mod_add_left_eq)
  also have "\<dots> = (if m < 2 ^ 31 then int m + 2 ^ 31 else int m - 2 ^ 31)"
  proof (cases "m < 2 ^ 31")
    case True
    then show ?thesis by simp
  next
    case False
    have "(int m + 2 ^ 31) mod 2 ^ 32 = ((int m - 2 ^ 31) + 2 ^ 32) mod 2 ^ 32" by (simp add: algebra_simps)
    also have "\<dots> = int m - 2 ^ 31" using False m by (simp only: mod_add_self2) simp
    finally show ?thesis using False by simp
  qed
  finally have "to_atomic v = (if m < 2 ^ 31 then int m else int m - 2 ^ 32)"
    by (simp add: to_atomic_def s32_def)
  moreover have "(int m - 2 ^ 32) mod 2 ^ 64 = int m + (2 ^ 64 - 2 ^ 32)" if "\<not> m < 2 ^ 31"
  proof -
    have "(int m - 2 ^ 32) mod 2 ^ 64 = (int m - 2 ^ 32 + 2 ^ 64) mod 2 ^ 64" by (simp only: mod_add_self2)
    also have "\<dots> = int m + (2 ^ 64 - 2 ^ 32)" using m by simp
    finally show ?thesis .
  qed
  moreover have "nat (int m + (2 ^ 64 - 2 ^ 32)) = m + (2 ^ 64 - 2 ^ 32)" by simp
  ultimately show ?thesis
    using m by (auto simp: of_atomic_def u64_def vm)
qed

text \<open>A level below 2 to the 31 is kept by a logger and by a holder over it, and decides what is dropped; a
  larger one is cut to its low 32 bits: 2 to the 32 sets level 0, at which everything but emergencies is
  dropped, and one whose bit 31 is set, as \<open>ULONG_MAX\<close>, lets every record pass (SimpleLogger.hpp
  \<open>log_level\<close>, Logger.cpp lines 71 to 89).\<close>

theorem level_is_32_bits:
  "bind_sum (set_level v (Simple_Logger l)) get_level =
     Inr (if v mod 2 ^ 32 < 2 ^ 31 then v mod 2 ^ 32 else v mod 2 ^ 32 + (2 ^ 64 - 2 ^ 32)) \<and>
   bind_sum (bind_sum (logger_holder_new (Some (Simple_Logger l))) (set_level v)) get_level =
     bind_sum (set_level v (Simple_Logger l)) get_level \<and>
   bind_sum (set_level (2 ^ 32) (Simple_Logger l)) get_level = Inr 0"
  by (simp add: of_to_atomic_mod logger_holder_new_def cached_level_def)

subsection \<open>The interface\<close>

text \<open>What a holder relies on: a level between the conversions, a setter that reaches it or stays below, no
  effect above it, and a level that logging does not change.\<close>

locale leveled_logger =
  fixes level :: "'l \<Rightarrow> nat outcome"
    and set_lv :: "nat \<Rightarrow> 'l \<Rightarrow> 'l outcome"
    and record_text :: "environment \<Rightarrow> byte list \<Rightarrow> nat \<Rightarrow> byte list option \<Rightarrow> byte list option \<Rightarrow> 'l \<Rightarrow>
      (bool \<times> 'l) outcome"
    and valid :: "'l \<Rightarrow> bool"
  assumes level_atomic: "valid l \<Longrightarrow> \<exists>v. level l = Inr (of_atomic (to_atomic v))"
    and set_returns: "valid l \<Longrightarrow> \<exists>l' n. set_lv v l = Inr l' \<and> valid l' \<and> level l' = Inr n \<and>
      n \<le> of_atomic (to_atomic v)"
    and drops: "valid l \<Longrightarrow> level l = Inr n \<Longrightarrow> n < sev \<Longrightarrow> record_text env txt sev a d l = Inr (True, l)"
    and keeps: "valid l \<Longrightarrow> record_text env txt sev a d l = Inr (ok, l') \<Longrightarrow> valid l' \<and> level l' = level l"
begin

definition covered :: "'l \<Rightarrow> int \<Rightarrow> bool" where
  "covered l c \<longleftrightarrow> valid l \<and> (\<exists>n. level l = Inr n \<and> n \<le> of_atomic c)"

text \<open>A level cached when the holder is made or set through it covers the logger, and filtering by a covering
  level first changes nothing.\<close>

lemma covered_new: "valid l \<Longrightarrow> \<exists>n. level l = Inr n \<and> covered l (to_atomic n)"
  using level_atomic [of l] by (auto simp: covered_def)

lemma covered_set: "covered l c \<Longrightarrow> \<exists>l'. set_lv v l = Inr l' \<and> covered l' (to_atomic v)"
  using set_returns [of l v] by (auto simp: covered_def)

lemma covered_log: "covered l c \<Longrightarrow> record_text env txt sev a d l = Inr (ok, l') \<Longrightarrow> covered l' c"
  using keeps by (fastforce simp: covered_def)

lemma filter_first:
  "covered l c \<Longrightarrow> of_atomic c < sev \<Longrightarrow> record_text env txt sev a d l = Inr (True, l)"
  using drops by (fastforce simp: covered_def)

end

subsection \<open>The model's loggers\<close>

text \<open>No null pointer in a \<open>SimpleLoggerHolder\<close>, levels that are \<open>int\<close> values, and in each \<open>LoggerHolder\<close> a level
  that covers the one below.\<close>

definition atomic_ok :: "int \<Rightarrow> bool" where
  "atomic_ok c \<longleftrightarrow> - (2 ^ 31) \<le> c \<and> c < 2 ^ 31"

definition holder_ok :: "nat outcome \<Rightarrow> int \<Rightarrow> bool" where
  "holder_ok inner c \<longleftrightarrow> atomic_ok c \<and> (case inner of Inl f \<Rightarrow> False | Inr n \<Rightarrow> n \<le> of_atomic c)"

fun valid_logger :: "logger \<Rightarrow> bool" where
  "valid_logger Null_Logger = True"
| "valid_logger (Simple_Logger l) = atomic_ok (simple_level l)"
| "valid_logger (Simple_Holder None) = False"
| "valid_logger (Simple_Holder (Some l)) = valid_logger l"
| "valid_logger (Logger_Holder None c) = (c = 0)"
| "valid_logger (Logger_Holder (Some l) c) = (valid_logger l \<and> holder_ok (get_level l) c)"
| "valid_logger (Default_Holder None c a d) = (c = 0)"
| "valid_logger (Default_Holder (Some l) c a d) = (valid_logger l \<and> holder_ok (get_level l) c)"

lemma atomic_ok_to [simp]: "atomic_ok (to_atomic v)"
  using s32_range [of "int v"] by (simp add: atomic_ok_def to_atomic_def)

lemma atomic_ok_round: "atomic_ok c \<Longrightarrow> c = to_atomic (of_atomic c)"
  by (simp add: to_of_atomic atomic_ok_def s32_id)

lemma of_atomic_0 [simp]: "of_atomic 0 = 0"
  by (simp add: of_atomic_def u64_def)

lemma to_atomic_0 [simp]: "to_atomic 0 = 0"
  by (simp add: to_atomic_def s32_def)

lemma level_of_valid: "valid_logger l \<Longrightarrow> \<exists>v. get_level l = Inr (of_atomic (to_atomic v))"
proof (induction l rule: valid_logger.induct)
  case 1
  then show ?case by (auto intro: exI [of _ 0])
next
  case (2 l)
  then show ?case by (auto dest: atomic_ok_round intro!: exI [of _ "of_atomic (simple_level l)"])
next
  case (5 c)
  then show ?case by (auto intro: exI [of _ 0])
next
  case (6 l c)
  then have "c = to_atomic (of_atomic c)" by (simp add: holder_ok_def atomic_ok_round)
  then show ?case by (metis get_level.simps(5))
next
  case (7 c a d)
  then show ?case by (auto intro: exI [of _ 0])
next
  case (8 l c a d)
  then have "c = to_atomic (of_atomic c)" by (simp add: holder_ok_def atomic_ok_round)
  then show ?case by (metis get_level.simps(6))
qed simp_all

lemma set_level_valid:
  "valid_logger l \<Longrightarrow> \<exists>l' n. set_level v l = Inr l' \<and> valid_logger l' \<and> get_level l' = Inr n \<and>
     n \<le> of_atomic (to_atomic v)"
  by (induction l rule: valid_logger.induct) (force simp: holder_ok_def)+

lemma log_text_drops:
  "valid_logger l \<Longrightarrow> get_level l = Inr n \<Longrightarrow> n < sev \<Longrightarrow> log_text env txt sev a d l = Inr (True, l)"
  by (induction l arbitrary: a d rule: valid_logger.induct) (auto simp: simple_log_def)

lemma simple_failure_level [simp]: "simple_level (simple_failure l msg) = simple_level l"
  by (simp add: simple_failure_def split: option.split)

lemma simple_log_level: "simple_log env txt sev a d l = Inr (ok, l') \<Longrightarrow> simple_level l' = simple_level l"
  by (auto simp: simple_log_def bind_sum_Inr_iff
      split: if_splits option.splits prod.splits)

lemma log_text_keeps:
  "valid_logger l \<Longrightarrow> log_text env txt sev a d l = Inr (ok, l') \<Longrightarrow> valid_logger l' \<and> get_level l' = get_level l"
proof (induction l arbitrary: a d l' ok rule: valid_logger.induct)
  case (2 l)
  then show ?case by (auto simp: bind_sum_Inr_iff dest: simple_log_level)
qed (auto simp: bind_sum_Inr_iff split: if_splits)

interpretation ll: leveled_logger get_level set_level log_text valid_logger
  using level_of_valid set_level_valid log_text_drops log_text_keeps by unfold_locales

subsection \<open>Holders are transparent\<close>

text \<open>What a client does with a logger: the results of the records it logs are collected.\<close>

datatype logger_call =
    Log environment "byte list" nat "byte list option" "byte list option"
  | Set_Level nat

fun run_calls :: "logger_call list \<Rightarrow> logger \<Rightarrow> (bool list \<times> logger) outcome" where
  "run_calls [] l = Inr ([], l)"
| "run_calls (Log env msg sev aspect code # calls) l =
     bind_sum (log_text env msg sev aspect code l) (\<lambda>(ok, l').
       bind_sum (run_calls calls l') (\<lambda>(oks, l''). Inr (ok # oks, l'')))"
| "run_calls (Set_Level v # calls) l = bind_sum (set_level v l) (run_calls calls)"

fun held :: "logger \<Rightarrow> logger option" where
  "held (Simple_Holder l) = l"
| "held (Logger_Holder l c) = l"
| "held (Default_Holder l c a d) = l"
| "held l = None"

definition seen_below :: "(bool list \<times> logger) outcome \<Rightarrow> (bool list \<times> logger option) outcome" where
  "seen_below r = bind_sum r (\<lambda>(oks, l). Inr (oks, held l))"

definition seen :: "(bool list \<times> logger) outcome \<Rightarrow> (bool list \<times> logger option) outcome" where
  "seen r = bind_sum r (\<lambda>(oks, l). Inr (oks, Some l))"

lemma run_calls_holder:
  "ll.covered l c \<Longrightarrow> seen_below (run_calls calls (Logger_Holder (Some l) c)) = seen (run_calls calls l)"
proof (induction calls arbitrary: l c)
  case Nil
  then show ?case by (simp add: seen_below_def seen_def)
next
  case (Cons call calls)
  show ?case
  proof (cases call)
    case (Log env msg sev aspect code)
    have eq: "log_text env msg sev aspect code (Logger_Holder (Some l) c) =
        bind_sum (log_text env msg sev aspect code l) (\<lambda>(ok, l'). Inr (ok, Logger_Holder (Some l') c))"
      using ll.filter_first [OF Cons.prems] by simp
    show ?thesis
    proof (cases "log_text env msg sev aspect code l")
      case (Inl f)
      then show ?thesis unfolding Log run_calls.simps eq by (simp add: seen_below_def seen_def)
    next
      case (Inr r)
      obtain ok l' where r: "r = (ok, l')" by force
      have "ll.covered l' c" using ll.covered_log [OF Cons.prems] Inr r by blast
      from Cons.IH [OF this] show ?thesis
        unfolding Log run_calls.simps eq
        by (cases "run_calls calls l'"; cases "run_calls calls (Logger_Holder (Some l') c)")
          (auto simp: Inr r seen_below_def seen_def)
    qed
  next
    case (Set_Level v)
    obtain l' where "set_level v l = Inr l'" "ll.covered l' (to_atomic v)"
      using ll.covered_set [OF Cons.prems] by blast
    then show ?thesis using Set_Level Cons.IH by simp
  qed
qed

text \<open>A \<open>LoggerHolder\<close> made over any logger is transparent while the logger is used through it alone: whatever
  records are logged and levels set, the same calls succeed, and the logger below ends in the same state, as
  when they are made on it directly, faults included.\<close>

theorem holder_is_transparent:
  assumes "valid_logger l"
  shows "seen_below (bind_sum (logger_holder_new (Some l)) (run_calls calls)) = seen (run_calls calls l)"
proof -
  obtain n where "get_level l = Inr n" "ll.covered l (to_atomic n)"
    using ll.covered_new [OF assms] by blast
  then show ?thesis
    using run_calls_holder by (simp add: logger_holder_new_def cached_level_def)
qed

theorem holder_is_transparent_witness:
  "seen_below (bind_sum (logger_holder_new (Some (Simple_Holder (Some Null_Logger))))
     (run_calls [Set_Level 3, Set_Level 5])) = Inr ([], Some (Simple_Holder (Some Null_Logger)))"
  by (subst holder_is_transparent) (simp_all add: seen_def)

subsection \<open>What reaches the stream\<close>

definition log_failure :: "byte list \<Rightarrow> simple_logger \<Rightarrow> bool \<times> simple_logger" where
  "log_failure msg l = (False, simple_failure l msg)"

text \<open>A simple logger over a stream, with a buffer allocated for each record, logs a record that its level lets
  pass as one line and an end of line, and returns true; a zero in the record ends what is written, the end
  of line included. When the stream does not take all of it, or was not good, the logger returns false and
  tells its error stream; a record above the level is dropped, and that counts as success.\<close>

theorem simple_logger_writes_line:
  assumes "environment_ok env" and "sev < 2 ^ 64"
    and "length msg + length (text_or_empty aspect) + length (text_or_empty code) + 1024 < 2 ^ 31"
    and "log_handler l = Some h" and "allocated h = 0"
  shows "simple_log env msg sev aspect code l =
    (if sev > of_atomic (simple_level l) then Inr (True, l)
     else
       let r = \<lparr>rec_text = msg, rec_severity = sev, rec_aspect = text_or_empty aspect,
             rec_code = text_or_empty code\<rparr>;
           line = takeWhile (\<lambda>c. c \<noteq> 0) (line_text (used_formatter h) env r @ [10]);
           l' = l\<lparr>log_handler := Some (h\<lparr>ostr := stream_put (ostr h) line\<rparr>)\<rparr>
       in if good (ostr h) \<and> length line \<le> capacity (ostr h)
          then Inr (True, l')
          else Inr (log_failure (ascii ''OStream::Handler::publish(): stream is dead'') l'))"
proof -
  define r where "r = \<lparr>rec_text = msg, rec_severity = sev, rec_aspect = text_or_empty aspect,
    rec_code = text_or_empty code\<rparr>"
  have "wrapper_format (used_formatter h) 0 env r =
      Inr (Some (map Some (line_text (used_formatter h) env r @ [10]) @ Some 0 # []))"
    using wrapper_format_line [OF assms(1), of r "used_formatter h"] assms(2,3)
    by (simp add: r_def required_size_def)
  then have "wrapper_format (used_formatter h) (allocated h) env r =
      Inr (Some (map Some (line_text (used_formatter h) env r @ [10]) @ Some 0 # []))"
    by (simp only: assms(5))
  then have "publish env r h =
      (let line = takeWhile (\<lambda>c. c \<noteq> 0) (line_text (used_formatter h) env r @ [10]);
           s = stream_put (ostr h) line
       in Inr (h\<lparr>ostr := s\<rparr>,
            if good s then None else Some (ascii ''OStream::Handler::publish(): stream is dead'')))"
    by (simp only: publish_def bind_sum_simps option.simps c_text_append Let_def)
  then show ?thesis
    using assms(4) by (simp add: simple_log_def r_def [symmetric] Let_def stream_put_def log_failure_def)
qed

theorem simple_logger_writes_line_witness:
  "let env = \<lparr>date_text = ascii ''Mon 01 Jan 2024'', tm_hour = 1, tm_min = 2, tm_sec = 3, tm_usec = 4,
         pid = 5, tid = 6\<rparr>;
       h = stream_handler_new \<lparr>written = [], capacity = 1000, good = True\<rparr> None 0;
       l = simple_logger_new (Some h) 6 None
   in simple_log env (ascii ''started'') 6 None (Some (ascii ''7'')) l =
        Inr (True, l\<lparr>log_handler := Some (h\<lparr>ostr :=
          \<lparr>written = ascii ''Mon 01 Jan 2024 01:02:03:000004 [7] [INFO] [] : started'' @ [10], capacity = 944,
            good = True\<rparr>\<rparr>)\<rparr>)"
proof -
  let ?env = "\<lparr>date_text = ascii ''Mon 01 Jan 2024'', tm_hour = 1, tm_min = 2, tm_sec = 3, tm_usec = 4,
    pid = 5, tid = 6\<rparr>"
  let ?h = "stream_handler_new \<lparr>written = [], capacity = 1000, good = True\<rparr> None 0"
  let ?l = "simple_logger_new (Some ?h) 6 None"
  let ?r = "\<lparr>rec_text = ascii ''started'', rec_severity = 6, rec_aspect = [], rec_code = ascii ''7''\<rparr>"
  let ?line = "ascii ''Mon 01 Jan 2024 01:02:03:000004 [7] [INFO] [] : started'' @ [10]"
  have ok: "environment_ok ?env" "log_handler ?l = Some ?h" "allocated ?h = 0" "used_formatter ?h = formatter_default"
    by (simp_all add: environment_ok_def ascii_def simple_logger_new_def stream_handler_new_def)
  have line: "takeWhile (\<lambda>c. c \<noteq> 0) (line_text formatter_default ?env ?r @ [10]) = ?line" by code_simp
  have len: "length ?line = 56" "\<not> 6 > of_atomic (simple_level ?l)"
    by (simp_all add: ascii_def simple_logger_new_def of_to_atomic_small)
  have "simple_log ?env (ascii ''started'') 6 None (Some (ascii ''7'')) ?l =
      Inr (True, ?l\<lparr>log_handler := Some (?h\<lparr>ostr := stream_put (ostr ?h) ?line\<rparr>)\<rparr>)"
    using simple_logger_writes_line [of ?env 6 "ascii ''started''" None "Some (ascii ''7'')" ?l ?h] ok line len
    by (simp add: text_or_empty_def Let_def ascii_def stream_handler_new_def)
  then show ?thesis
    using len(1) by (simp add: Let_def stream_put_def stream_handler_new_def)
qed

subsection \<open>The interface for callers\<close>

text \<open>\<open>BasicLogger\<close>: a member for each severity, and \<open>trace\<close> above the last, modulo \<open>unsigned long\<close>.\<close>

definition log_emergency where
  "log_emergency env msg aspect code l = log_text env msg (severity_value EMERGENCY) aspect code l"

definition log_alert where
  "log_alert env msg aspect code l = log_text env msg (severity_value ALERT) aspect code l"

definition log_critical where
  "log_critical env msg aspect code l = log_text env msg (severity_value CRITICAL) aspect code l"

definition log_error where
  "log_error env msg aspect code l = log_text env msg (severity_value ERROR) aspect code l"

definition log_warning where
  "log_warning env msg aspect code l = log_text env msg (severity_value WARNING) aspect code l"

definition log_notice where
  "log_notice env msg aspect code l = log_text env msg (severity_value NOTICE) aspect code l"

definition log_info where
  "log_info env msg aspect code l = log_text env msg (severity_value INFO) aspect code l"

definition log_debug where
  "log_debug env msg aspect code l = log_text env msg (severity_value DEBUG) aspect code l"

definition log_trace where
  "log_trace env msg aspect trace_level code l =
     log_text env msg ((severity_value TRACE + trace_level) mod 2 ^ 64) aspect code l"

text \<open>The \<open>printf\<close>-like \<open>log\<close>: \<open>formatted\<close> is what \<open>vasprintf\<close> makes of the format, \<open>None\<close> for its failure.\<close>

definition log_formatted where
  "log_formatted env sev aspect code (format :: byte list) formatted l =
     (case formatted of
        None \<Rightarrow> log_text env format sev aspect code l
      | Some msg \<Rightarrow> log_text env msg sev aspect code l)"

subsection \<open>Records as streams\<close>

text \<open>The text in a memory stream; a byte never written is a fault.\<close>

definition stream_text :: "out_buffer \<times> bool \<Rightarrow> byte list outcome" where
  "stream_text s = (case those (holder_str (fst s)) of None \<Rightarrow> Inl Out_Of_Bounds | Some msg \<Rightarrow> Inr msg)"

text \<open>\<open>Wrapper\<close>: whether its logger is not null, and an initializer that the move constructor leaves
  uninitialized, \<open>None\<close>. \<open>open\<close> is the constructor of its stream.\<close>

record 'i stream_wrapper =
  has_logger :: bool
  w_severity :: nat
  w_aspect :: "byte list option"
  w_code :: "byte list option"
  w_initializer :: "'i option"
  w_ostr :: "out_buffer \<times> bool"

definition wrapper_new ::
  "('i \<Rightarrow> out_buffer \<times> bool) \<Rightarrow> nat \<Rightarrow> byte list option \<Rightarrow> byte list option \<Rightarrow> 'i \<Rightarrow> 'i stream_wrapper" where
  "wrapper_new open sev aspect code i =
     \<lparr>has_logger = True, w_severity = sev, w_aspect = aspect, w_code = code, w_initializer = Some i,
       w_ostr = open i\<rparr>"

text \<open>The move constructor: the new wrapper, and the one moved from.\<close>

definition wrapper_move ::
  "('i \<Rightarrow> out_buffer \<times> bool) \<Rightarrow> 'i stream_wrapper \<Rightarrow> ('i stream_wrapper \<times> 'i stream_wrapper) outcome" where
  "wrapper_move open w =
     (case w_initializer w of
        None \<Rightarrow> Inl Null_Dereference
      | Some i \<Rightarrow>
          Inr (\<lparr>has_logger = has_logger w, w_severity = w_severity w, w_aspect = w_aspect w, w_code = w_code w,
                 w_initializer = None, w_ostr = open i\<rparr>, w\<lparr>has_logger := False\<rparr>))"

definition wrapper_put :: "byte list list \<Rightarrow> 'i stream_wrapper \<Rightarrow> 'i stream_wrapper outcome" where
  "wrapper_put ts w = bind_sum (put_texts (w_ostr w) ts) (\<lambda>s. Inr (w\<lparr>w_ostr := s\<rparr>))"

definition wrapper_destroy :: "environment \<Rightarrow> 'i stream_wrapper \<Rightarrow> logger \<Rightarrow> logger outcome" where
  "wrapper_destroy env w l =
     (if \<not> has_logger w then Inr l
      else bind_sum (stream_text (w_ostr w)) (\<lambda>msg.
        bind_sum (log_text env msg (w_severity w) (w_aspect w) (w_code w) l) (\<lambda>(ok, l'). Inr l')))"

text \<open>\<open>StreamLogger::stream\<close> over a memory stream with an initial size, over a stack stream of \<open>n\<close> bytes (whose
  initializer is not used), over a buffer; \<open>sstream\<close> is the last over the buffer of the thread.\<close>

definition stream_alloc where
  "stream_alloc sev aspect code initial_size = wrapper_new output_memory_stream sev aspect code initial_size"

definition stream_stack where
  "stream_stack n sev aspect code = wrapper_new (\<lambda>_ :: nat. output_stack_stream n) sev aspect code n"

definition stream_buffer where
  "stream_buffer buffer sev aspect code = wrapper_new output_buffer_stream sev aspect code buffer"

lemma those_Some [simp]: "those (map Some xs) = Some xs"
  by (induction xs) simp_all

lemma memory_stream_text:
  assumes "n < 2 ^ 63" and "length (concat ts) \<le> 2 ^ 31"
  shows "bind_sum (put_texts (output_memory_stream n) ts) stream_text = Inr (concat ts)"
proof -
  define b0 where "b0 = out_buffer_new n Heap"
  have "holds b0 []" "allocator_ptr b0 = Heap" "epptr b0 < 2 ^ 63"
    using assms(1) by (auto simp: b0_def out_buffer_new_def holds_def block_of_def split: option.splits)
  then obtain b where "put_texts (b0, False) ts = Inr (b, False)" "holds b ([] @ concat ts)"
    using put_texts_heap [of b0 "[]" ts] assms(2) by auto
  then show ?thesis using holds_str by (simp add: output_memory_stream_def b0_def stream_text_def)
qed

lemma fixed_stream_text:
  assumes "buffer \<noteq> []"
  shows "bind_sum (put_texts (output_buffer_stream buffer) ts) stream_text =
    Inr (take (length buffer - 1) (concat ts))"
proof -
  obtain b bad where "put_texts (output_buffer_stream buffer) ts = Inr (b, bad)"
    "fixed_stream (length buffer - 1) b (take (length buffer - 1) (concat ts))"
    using put_texts_fixed [OF fixed_stream_new [OF assms], of False ts] by (auto simp: output_buffer_stream_def)
  then show ?thesis using fixed_stream_str by (simp add: stream_text_def)
qed

lemma stack_stream_is_buffer_stream:
  "output_stack_stream n = output_buffer_stream (replicate (n + 1) None)"
  by (simp add: output_stack_stream_def output_buffer_stream_def)

lemma stack_stream_text:
  "bind_sum (put_texts (output_stack_stream n) ts) stream_text = Inr (take n (concat ts))"
  using fixed_stream_text [of "replicate (n + 1) None" ts] by (simp add: stack_stream_is_buffer_stream)

lemma wrapper_record:
  assumes "bind_sum (put_texts (w_ostr w) ts) stream_text = Inr msg" and "has_logger w"
  shows "bind_sum (wrapper_put ts w) (\<lambda>w'. wrapper_destroy env w' l) =
    bind_sum (log_text env msg (w_severity w) (w_aspect w) (w_code w) l) (\<lambda>(ok, l'). Inr l')"
  using assms by (cases "put_texts (w_ostr w) ts") (auto simp: wrapper_put_def wrapper_destroy_def)

text \<open>What is streamed into the object that \<open>stream\<close> returns is logged as one record when the object is
  destroyed: all of it over a memory stream, up to 2 to the 31 bytes, and over a stack stream or a buffer of
  the thread the part that fits. A text already streamed is lost when the object is moved, and an object
  that was moved into cannot be moved again: its initializer was never set (Logger.hpp \<open>Wrapper(Wrapper&&)\<close>).\<close>

theorem streamed_record_logged:
  assumes "isz < 2 ^ 63" and "length (concat ts) \<le> 2 ^ 31" and "buffer \<noteq> []"
  shows "bind_sum (wrapper_put ts (stream_alloc sev a c isz)) (\<lambda>w. wrapper_destroy env w l) =
      bind_sum (log_text env (concat ts) sev a c l) (\<lambda>(ok, l'). Inr l') \<and>
    bind_sum (wrapper_put ts (stream_stack n sev a c)) (\<lambda>w. wrapper_destroy env w l) =
      bind_sum (log_text env (take n (concat ts)) sev a c l) (\<lambda>(ok, l'). Inr l') \<and>
    bind_sum (wrapper_put ts (stream_buffer buffer sev a c)) (\<lambda>w. wrapper_destroy env w l) =
      bind_sum (log_text env (take (length buffer - 1) (concat ts)) sev a c l) (\<lambda>(ok, l'). Inr l') \<and>
    bind_sum (wrapper_put ts (stream_alloc sev a c isz)) (\<lambda>w.
      bind_sum (wrapper_move output_memory_stream w) (\<lambda>(w', old). wrapper_destroy env w' l)) =
      bind_sum (log_text env [] sev a c l) (\<lambda>(ok, l'). Inr l') \<and>
    bind_sum (wrapper_move output_memory_stream (stream_alloc sev a c isz)) (\<lambda>(w', old).
      wrapper_move output_memory_stream w') = Inl Null_Dereference"
proof -
  have empty: "stream_text (output_memory_stream isz) = Inr []"
    using memory_stream_text [OF assms(1), of "[]"] by simp
  have "bind_sum (wrapper_put ts (stream_alloc sev a c isz)) (\<lambda>w.
      bind_sum (wrapper_move output_memory_stream w) (\<lambda>(w', old). wrapper_destroy env w' l)) =
      bind_sum (log_text env [] sev a c l) (\<lambda>(ok, l'). Inr l')"
    using memory_stream_text [OF assms(1,2)] empty
    by (cases "put_texts (output_memory_stream isz) ts")
      (simp_all add: wrapper_put_def stream_alloc_def wrapper_new_def wrapper_move_def wrapper_destroy_def)
  then show ?thesis
    using wrapper_record [of "stream_alloc sev a c isz" ts] wrapper_record [of "stream_stack n sev a c" ts]
      wrapper_record [of "stream_buffer buffer sev a c" ts] memory_stream_text [OF assms(1,2)]
      stack_stream_text [of n ts] fixed_stream_text [OF assms(3), of ts]
    by (simp add: stream_alloc_def stream_stack_def stream_buffer_def wrapper_new_def wrapper_move_def)
qed

theorem streamed_record_logged_witness:
  "bind_sum (wrapper_put [[97], [98, 99]] (stream_alloc 6 None None 8192)) (\<lambda>w. wrapper_destroy
      \<lparr>date_text = [], tm_hour = 1, tm_min = 2, tm_sec = 3, tm_usec = 4, pid = 5, tid = 6\<rparr> w Null_Logger) =
     Inr Null_Logger"
  using streamed_record_logged [of 8192 "[[97], [98, 99]]" "[None]" 6 None None
      "\<lparr>date_text = [], tm_hour = 1, tm_min = 2, tm_sec = 3, tm_usec = 4, pid = 5, tid = 6\<rparr>" Null_Logger 1]
  by simp

subsection \<open>Reports of active objects\<close>

text \<open>The severities of \<open>ActiveObjectCallback\<close>; \<open>Other_Report\<close> is the remaining value of the enumeration's range.\<close>

datatype report_severity = CRITICAL_ERROR | Report_ERROR | Report_WARNING | Other_Report

fun report_value :: "report_severity \<Rightarrow> nat" where
  "report_value CRITICAL_ERROR = 0"
| "report_value Report_ERROR = 1"
| "report_value Report_WARNING = 2"
| "report_value Other_Report = 3"

fun report_level :: "report_severity \<Rightarrow> nat" where
  "report_level CRITICAL_ERROR = severity_value EMERGENCY"
| "report_level Report_ERROR = severity_value CRITICAL"
| "report_level Report_WARNING = severity_value WARNING"
| "report_level Other_Report = 0"

fun str_severity :: "report_severity \<Rightarrow> string" where
  "str_severity CRITICAL_ERROR = ''CRITICAL_ERROR''"
| "str_severity Report_ERROR = ''ERROR''"
| "str_severity Report_WARNING = ''WARNING''"
| "str_severity Other_Report = ''UNKNOWN''"

text \<open>\<open>ErrorStream\<close> is a stack stream of \<open>sizeof(DescriptiveException)\<close> bytes: a virtual table pointer and the
  array.\<close>

definition ERROR_STREAM_SIZE :: nat where
  "ERROR_STREAM_SIZE = 8 + DESC_EXCEPTION_BUFFER_SIZE"

definition error_stream_new :: "out_buffer \<times> bool" where
  "error_stream_new = output_stack_stream ERROR_STREAM_SIZE"

record report_callback =
  message_prefix :: "byte list"
  callback_aspect :: "byte list option"
  callback_code :: "byte list option"

text \<open>The logger of the callback, \<open>None\<close> when it is null, and \<open>std::cerr\<close>.\<close>

definition report_error ::
  "environment \<Rightarrow> report_severity \<Rightarrow> byte list \<Rightarrow> byte list option \<Rightarrow> report_callback \<Rightarrow>
   logger option \<times> text_stream \<Rightarrow> (logger option \<times> text_stream) outcome" where
  "report_error env sev description error_code cb state =
     (let parts = [message_prefix cb, [32], ascii (str_severity sev), [40],
                   number_text (int (report_value sev)), ascii '') report:'', description]
      in bind_sum (put_texts error_stream_new parts) (\<lambda>ostr.
         bind_sum (stream_text ostr) (\<lambda>msg.
           case state of
             (Some l, cerr) \<Rightarrow>
               bind_sum (log_text env msg (report_level sev) (callback_aspect cb)
                   (case error_code of None \<Rightarrow> callback_code cb | Some c \<Rightarrow> Some c) l)
                 (\<lambda>(ok, l'). Inr (Some l', cerr))
           | (None, cerr) \<Rightarrow> Inr (None, stream_put cerr (msg @ [10])))))"

text \<open>\<open>ActiveObjectCallback::critical\<close>, \<open>error\<close> and \<open>warning\<close>.\<close>

definition callback_critical where
  "callback_critical env description error_code cb state =
     report_error env CRITICAL_ERROR description error_code cb state"

definition callback_error where
  "callback_error env description error_code cb state =
     report_error env Report_ERROR description error_code cb state"

definition callback_warning where
  "callback_warning env description error_code cb state =
     report_error env Report_WARNING description error_code cb state"

text \<open>\<open>LoggerCallbackHolder\<close>: the holder shared by it and its callback.\<close>

record callback_holder =
  logger_holder :: logger
  holder_callback :: report_callback

definition callback_holder_new ::
  "logger option \<Rightarrow> byte list \<Rightarrow> byte list option \<Rightarrow> byte list option \<Rightarrow> callback_holder outcome" where
  "callback_holder_new l prefix aspect code =
     bind_sum (logger_holder_new l) (\<lambda>h.
       Inr \<lparr>logger_holder = h,
            holder_callback = \<lparr>message_prefix = prefix, callback_aspect = aspect, callback_code = code\<rparr>\<rparr>)"

definition callback_holder_logger :: "logger option \<Rightarrow> callback_holder \<Rightarrow> callback_holder outcome" where
  "callback_holder_logger new h =
     bind_sum (replace_logger new (logger_holder h)) (\<lambda>l. Inr (h\<lparr>logger_holder := l\<rparr>))"

definition callback_holder_report ::
  "environment \<Rightarrow> report_severity \<Rightarrow> byte list \<Rightarrow> byte list option \<Rightarrow> callback_holder \<times> text_stream \<Rightarrow>
   (callback_holder \<times> text_stream) outcome" where
  "callback_holder_report env sev description error_code state =
     (case state of (h, cerr) \<Rightarrow>
        bind_sum (report_error env sev description error_code (holder_callback h) (Some (logger_holder h), cerr))
          (\<lambda>(l, cerr'). case l of None \<Rightarrow> Inl Null_Dereference
                                | Some l' \<Rightarrow> Inr (h\<lparr>logger_holder := l'\<rparr>, cerr')))"

definition report_text :: "report_severity \<Rightarrow> byte list \<Rightarrow> report_callback \<Rightarrow> byte list" where
  "report_text sev description cb =
     take ERROR_STREAM_SIZE (message_prefix cb @ ascii ('' '' @ str_severity sev @ ''('') @
       number_text (int (report_value sev)) @ ascii '') report:'' @ description)"

lemma report_error_cases:
  "report_error env sev description error_code cb (Some l, cerr) =
     bind_sum (log_text env (report_text sev description cb) (report_level sev) (callback_aspect cb)
       (case error_code of None \<Rightarrow> callback_code cb | Some c \<Rightarrow> Some c) l) (\<lambda>(ok, l'). Inr (Some l', cerr))"
  "report_error env sev description error_code cb (None, cerr) =
     Inr (None, stream_put cerr (report_text sev description cb @ [10]))"
proof -
  define parts where "parts = [message_prefix cb, [32], ascii (str_severity sev), [40],
    number_text (int (report_value sev)), ascii '') report:'', description]"
  have "concat parts = message_prefix cb @ ascii ('' '' @ str_severity sev @ ''('') @
      number_text (int (report_value sev)) @ ascii '') report:'' @ description"
    by (simp add: parts_def ascii_def)
  then have msg: "bind_sum (put_texts error_stream_new parts) stream_text = Inr (report_text sev description cb)"
    using stack_stream_text [of ERROR_STREAM_SIZE parts] by (simp add: error_stream_new_def report_text_def)
  then obtain s where s: "put_texts error_stream_new parts = Inr s" "stream_text s = Inr (report_text sev description cb)"
    by (cases "put_texts error_stream_new parts") auto
  show "report_error env sev description error_code cb (Some l, cerr) =
     bind_sum (log_text env (report_text sev description cb) (report_level sev) (callback_aspect cb)
       (case error_code of None \<Rightarrow> callback_code cb | Some c \<Rightarrow> Some c) l) (\<lambda>(ok, l'). Inr (Some l', cerr))"
    "report_error env sev description error_code cb (None, cerr) =
     Inr (None, stream_put cerr (report_text sev description cb @ [10]))"
    by (simp_all only: report_error_def Let_def parts_def [symmetric] s bind_sum_simps prod.case option.case)
qed

text \<open>A report reaches the logger of the callback as one record, whose severity is mapped and whose text is cut
  to the size of an exception, or, when the callback has no logger, \<open>std::cerr\<close>. A \<open>LoggerCallbackHolder\<close>
  without a logger is different: its callback has a logger, the empty holder, so a report is lost without a
  trace on \<open>std::cerr\<close>; once a logger is set, reports reach it like those of a callback over that logger.\<close>

theorem reports_become_records:
  assumes "valid_logger l" and "get_level l = Inr n" and "report_level sev \<le> n"
  shows "report_error env sev description ec cb (Some l, cerr) =
      bind_sum (log_text env (report_text sev description cb) (report_level sev) (callback_aspect cb)
        (case ec of None \<Rightarrow> callback_code cb | Some c \<Rightarrow> Some c) l) (\<lambda>(ok, l'). Inr (Some l', cerr)) \<and>
    report_error env sev description ec cb (None, cerr) =
      Inr (None, stream_put cerr (report_text sev description cb @ [10])) \<and>
    bind_sum (callback_holder_new None prefix aspect code) (\<lambda>h. callback_holder_report env sev description ec (h, cerr)) =
      bind_sum (callback_holder_new None prefix aspect code) (\<lambda>h. Inr (h, cerr)) \<and>
    bind_sum (callback_holder_new None prefix aspect code) (\<lambda>h.
      bind_sum (callback_holder_logger (Some l) h) (\<lambda>h'.
      bind_sum (callback_holder_report env sev description ec (h', cerr)) (\<lambda>(h'', cerr').
        Inr (held (logger_holder h''), cerr')))) =
      report_error env sev description ec
        \<lparr>message_prefix = prefix, callback_aspect = aspect, callback_code = code\<rparr> (Some l, cerr)"
proof -
  have "ll.covered l (to_atomic n)" using ll.covered_new [OF assms(1)] assms(2) by auto
  then have "\<not> of_atomic (to_atomic n) < report_level sev"
    using assms(2,3) by (auto simp: ll.covered_def)
  then show ?thesis
    using assms(2)
    by (cases ec) (auto simp: report_error_cases callback_holder_new_def callback_holder_report_def logger_holder_new_def
        cached_level_def callback_holder_logger_def bind_sum_def split: sum.splits prod.splits)
qed

theorem reports_become_records_witness:
  "report_error \<lparr>date_text = [], tm_hour = 1, tm_min = 2, tm_sec = 3, tm_usec = 4, pid = 5, tid = 6\<rparr>
     Report_ERROR (ascii ''broken'') None
     \<lparr>message_prefix = ascii ''pool'', callback_aspect = None, callback_code = None\<rparr>
     (None, \<lparr>written = [], capacity = 100, good = True\<rparr>) =
   Inr (None, \<lparr>written = ascii ''pool ERROR(1) report:broken'' @ [10], capacity = 72, good = True\<rparr>)"
proof -
  let ?cb = "\<lparr>message_prefix = ascii ''pool'', callback_aspect = None, callback_code = None\<rparr>"
  have number: "number_text 1 = [49]" by code_simp
  have "report_text Report_ERROR (ascii ''broken'') ?cb = ascii ''pool ERROR(1) report:broken''"
    by (simp add: report_text_def ERROR_STREAM_SIZE_def DESC_EXCEPTION_BUFFER_SIZE_def ascii_def number)
  moreover have "valid_logger (Simple_Logger (simple_logger_new None 6 None))" "report_level Report_ERROR \<le> 6"
    "get_level (Simple_Logger (simple_logger_new None 6 None)) = Inr 6"
    by (simp_all add: simple_logger_new_def of_to_atomic_small)
  note this and reports_become_records [OF this(1) this(3) this(2), of
      "\<lparr>date_text = [], tm_hour = 1, tm_min = 2, tm_sec = 3, tm_usec = 4, pid = 5, tid = 6\<rparr>"
      "ascii ''broken''" None ?cb "\<lparr>written = [], capacity = 100, good = True\<rparr>" "[]" None None]
  ultimately show ?thesis
    by (simp add: stream_put_def ascii_def)
qed

subsection \<open>Loggers stay well formed\<close>



end
