(* ===== verification/GearsCrc.thy ===== *)
theory GearsCrc
  imports Prelude
begin

section \<open>The checksum of gears/StringManip.cpp\<close>

text \<open>
  \<open>crc32\<close> takes a byte at a time with a table of 256 words. The table is the one of the source, and
  the reference is the division by the polynomial \<open>0x04C11DB7\<close> one bit at a time, most significant
  bit first. The theorem says that they agree on every text, whatever the start value; the table is
  checked entry by entry, the step from bits to bytes follows from the linearity of the division.
\<close>

unbundle bit_operations_syntax

definition CRC_QUICK_TABLE :: "32 word list" where
  "CRC_QUICK_TABLE =
     [0x00000000, 0x04C11DB7, 0x09823B6E, 0x0D4326D9, 0x130476DC, 0x17C56B6B,
      0x1A864DB2, 0x1E475005, 0x2608EDB8, 0x22C9F00F, 0x2F8AD6D6, 0x2B4BCB61,
      0x350C9B64, 0x31CD86D3, 0x3C8EA00A, 0x384FBDBD, 0x4C11DB70, 0x48D0C6C7,
      0x4593E01E, 0x4152FDA9, 0x5F15ADAC, 0x5BD4B01B, 0x569796C2, 0x52568B75,
      0x6A1936C8, 0x6ED82B7F, 0x639B0DA6, 0x675A1011, 0x791D4014, 0x7DDC5DA3,
      0x709F7B7A, 0x745E66CD, 0x9823B6E0, 0x9CE2AB57, 0x91A18D8E, 0x95609039,
      0x8B27C03C, 0x8FE6DD8B, 0x82A5FB52, 0x8664E6E5, 0xBE2B5B58, 0xBAEA46EF,
      0xB7A96036, 0xB3687D81, 0xAD2F2D84, 0xA9EE3033, 0xA4AD16EA, 0xA06C0B5D,
      0xD4326D90, 0xD0F37027, 0xDDB056FE, 0xD9714B49, 0xC7361B4C, 0xC3F706FB,
      0xCEB42022, 0xCA753D95, 0xF23A8028, 0xF6FB9D9F, 0xFBB8BB46, 0xFF79A6F1,
      0xE13EF6F4, 0xE5FFEB43, 0xE8BCCD9A, 0xEC7DD02D, 0x34867077, 0x30476DC0,
      0x3D044B19, 0x39C556AE, 0x278206AB, 0x23431B1C, 0x2E003DC5, 0x2AC12072,
      0x128E9DCF, 0x164F8078, 0x1B0CA6A1, 0x1FCDBB16, 0x018AEB13, 0x054BF6A4,
      0x0808D07D, 0x0CC9CDCA, 0x7897AB07, 0x7C56B6B0, 0x71159069, 0x75D48DDE,
      0x6B93DDDB, 0x6F52C06C, 0x6211E6B5, 0x66D0FB02, 0x5E9F46BF, 0x5A5E5B08,
      0x571D7DD1, 0x53DC6066, 0x4D9B3063, 0x495A2DD4, 0x44190B0D, 0x40D816BA,
      0xACA5C697, 0xA864DB20, 0xA527FDF9, 0xA1E6E04E, 0xBFA1B04B, 0xBB60ADFC,
      0xB6238B25, 0xB2E29692, 0x8AAD2B2F, 0x8E6C3698, 0x832F1041, 0x87EE0DF6,
      0x99A95DF3, 0x9D684044, 0x902B669D, 0x94EA7B2A, 0xE0B41DE7, 0xE4750050,
      0xE9362689, 0xEDF73B3E, 0xF3B06B3B, 0xF771768C, 0xFA325055, 0xFEF34DE2,
      0xC6BCF05F, 0xC27DEDE8, 0xCF3ECB31, 0xCBFFD686, 0xD5B88683, 0xD1799B34,
      0xDC3ABDED, 0xD8FBA05A, 0x690CE0EE, 0x6DCDFD59, 0x608EDB80, 0x644FC637,
      0x7A089632, 0x7EC98B85, 0x738AAD5C, 0x774BB0EB, 0x4F040D56, 0x4BC510E1,
      0x46863638, 0x42472B8F, 0x5C007B8A, 0x58C1663D, 0x558240E4, 0x51435D53,
      0x251D3B9E, 0x21DC2629, 0x2C9F00F0, 0x285E1D47, 0x36194D42, 0x32D850F5,
      0x3F9B762C, 0x3B5A6B9B, 0x0315D626, 0x07D4CB91, 0x0A97ED48, 0x0E56F0FF,
      0x1011A0FA, 0x14D0BD4D, 0x19939B94, 0x1D528623, 0xF12F560E, 0xF5EE4BB9,
      0xF8AD6D60, 0xFC6C70D7, 0xE22B20D2, 0xE6EA3D65, 0xEBA91BBC, 0xEF68060B,
      0xD727BBB6, 0xD3E6A601, 0xDEA580D8, 0xDA649D6F, 0xC423CD6A, 0xC0E2D0DD,
      0xCDA1F604, 0xC960EBB3, 0xBD3E8D7E, 0xB9FF90C9, 0xB4BCB610, 0xB07DABA7,
      0xAE3AFBA2, 0xAAFBE615, 0xA7B8C0CC, 0xA379DD7B, 0x9B3660C6, 0x9FF77D71,
      0x92B45BA8, 0x9675461F, 0x8832161A, 0x8CF30BAD, 0x81B02D74, 0x857130C3,
      0x5D8A9099, 0x594B8D2E, 0x5408ABF7, 0x50C9B640, 0x4E8EE645, 0x4A4FFBF2,
      0x470CDD2B, 0x43CDC09C, 0x7B827D21, 0x7F436096, 0x7200464F, 0x76C15BF8,
      0x68860BFD, 0x6C47164A, 0x61043093, 0x65C52D24, 0x119B4BE9, 0x155A565E,
      0x18197087, 0x1CD86D30, 0x029F3D35, 0x065E2082, 0x0B1D065B, 0x0FDC1BEC,
      0x3793A651, 0x3352BBE6, 0x3E119D3F, 0x3AD08088, 0x2497D08D, 0x2056CD3A,
      0x2D15EBE3, 0x29D4F654, 0xC5A92679, 0xC1683BCE, 0xCC2B1D17, 0xC8EA00A0,
      0xD6AD50A5, 0xD26C4D12, 0xDF2F6BCB, 0xDBEE767C, 0xE3A1CBC1, 0xE760D676,
      0xEA23F0AF, 0xEEE2ED18, 0xF0A5BD1D, 0xF464A0AA, 0xF9278673, 0xFDE69BC4,
      0x89B8FD09, 0x8D79E0BE, 0x803AC667, 0x84FBDBD0, 0x9ABC8BD5, 0x9E7D9662,
      0x933EB0BB, 0x97FFAD0C, 0xAFB010B1, 0xAB710D06, 0xA6322BDF, 0xA2F33668,
      0xBCB4666D, 0xB8757BDA, 0xB5365D03, 0xB1F740B4]"

text \<open>One turn of the loop; \<open>static_cast<uint8_t>(crc >> 24) ^ *udata\<close> is the index.\<close>

definition crc_index :: "32 word \<Rightarrow> byte \<Rightarrow> byte" where
  "crc_index crc b = ucast (drop_bit 24 crc) XOR b"

definition crc_byte :: "32 word \<Rightarrow> byte \<Rightarrow> 32 word" where
  "crc_byte crc b = push_bit 8 crc XOR CRC_QUICK_TABLE ! unat (crc_index crc b)"

primrec crc32 :: "32 word \<Rightarrow> byte list \<Rightarrow> 32 word" where
  "crc32 crc [] = crc"
| "crc32 crc (b # bs) = crc32 (crc_byte crc b) bs"

subsection \<open>The reference\<close>

definition divide_bit :: "32 word \<Rightarrow> 32 word" where
  "divide_bit x = push_bit 1 x XOR (if bit x 31 then 0x04C11DB7 else 0)"

definition divide_bits :: "nat \<Rightarrow> 32 word \<Rightarrow> 32 word" where
  "divide_bits n = divide_bit ^^ n"

definition divide_byte :: "32 word \<Rightarrow> byte \<Rightarrow> 32 word" where
  "divide_byte crc b = divide_bits 8 (crc XOR push_bit 24 (ucast b))"

lemma divide_bit_xor: "divide_bit (x XOR y) = divide_bit x XOR divide_bit y"
  by (rule bit_word_eqI) (auto simp: divide_bit_def bit_simps)

lemma divide_bits_xor: "divide_bits n (x XOR y) = divide_bits n x XOR divide_bits n y"
  by (induction n) (simp_all add: divide_bits_def divide_bit_xor)

lemma divide_bit_small: "\<not> bit x 31 \<Longrightarrow> divide_bit x = push_bit 1 x"
  by (simp add: divide_bit_def)

lemma divide_bits_small:
  "(\<And>i. 32 - n \<le> i \<Longrightarrow> \<not> bit x i) \<Longrightarrow> n \<le> 32 \<Longrightarrow> divide_bits n x = push_bit n x"
proof (induction n arbitrary: x)
  case (Suc n)
  have "\<not> bit (push_bit 1 x) i" if "32 - n \<le> i" for i
  proof -
    have "bit (push_bit 1 x) i \<longleftrightarrow> 1 \<le> i \<and> i < 32 \<and> bit x (i - 1)"
      by (subst bit_push_bit_iff) simp
    then show ?thesis using Suc.prems(1) [of "i - 1"] Suc.prems(2) that by auto
  qed
  then have "divide_bits n (push_bit 1 x) = push_bit n (push_bit 1 x)"
    using Suc.IH [of "push_bit 1 x"] Suc.prems(2) by simp
  moreover have "divide_bit x = push_bit 1 x"
    using Suc.prems by (intro divide_bit_small) auto
  ultimately show ?case
    by (simp add: divide_bits_def funpow_Suc_right del: funpow.simps)
qed (simp add: divide_bits_def)

lemma split_high_byte:
  "crc XOR push_bit 24 (ucast b) =
    push_bit 24 (ucast (crc_index crc b)) XOR take_bit 24 (crc :: 32 word)"
  by (rule bit_word_eqI) (auto simp: crc_index_def bit_simps)

text \<open>The entry of \<open>2 * i\<close> is one more bit divided of the entry of \<open>i\<close>, and an odd entry differs from the
  even one before it by the polynomial: this is checked of the table as it stands.\<close>

lemma table_recursion:
  "CRC_QUICK_TABLE = concat (map (\<lambda>x. [divide_bit x, divide_bit x XOR 0x04C11DB7]) (take 128 CRC_QUICK_TABLE))"
  unfolding CRC_QUICK_TABLE_def divide_bit_def by simp


lemma table_double:
  assumes "i < 128"
  shows "CRC_QUICK_TABLE ! (2 * i) = divide_bit (CRC_QUICK_TABLE ! i)"
    and "CRC_QUICK_TABLE ! (2 * i + 1) = CRC_QUICK_TABLE ! (2 * i) XOR 0x04C11DB7"
proof -
  have pairs: "concat (map (\<lambda>x. [f x, g x]) xs) ! (2 * i) = f (xs ! i) \<and>
      concat (map (\<lambda>x. [f x, g x]) xs) ! (2 * i + 1) = g (xs ! i)" if "i < length xs"
    for f g :: "32 word \<Rightarrow> 32 word" and xs i
    using that
  proof (induction xs arbitrary: i)
    case (Cons x xs)
    then show ?case by (cases i) auto
  qed simp
  have "length (take 128 CRC_QUICK_TABLE) = 128" by (simp add: CRC_QUICK_TABLE_def)
  then show "CRC_QUICK_TABLE ! (2 * i) = divide_bit (CRC_QUICK_TABLE ! i)"
    and "CRC_QUICK_TABLE ! (2 * i + 1) = CRC_QUICK_TABLE ! (2 * i) XOR 0x04C11DB7"
    using pairs [of i "take 128 CRC_QUICK_TABLE" divide_bit "\<lambda>x. divide_bit x XOR 0x04C11DB7"] assms
    by (metis nth_take table_recursion)+
qed

lemma divide_bits_8:
  "divide_bits 8 x = divide_bit (divide_bit (divide_bit (divide_bit (divide_bit (divide_bit
     (divide_bit (divide_bit x)))))))"
  by (simp add: divide_bits_def eval_nat_numeral)

lemma divide_bits_commute: "divide_bits n (divide_bit x) = divide_bit (divide_bits n x)"
  by (simp add: divide_bits_def funpow_swap1)

lemma table_value: "n < 256 \<Longrightarrow> CRC_QUICK_TABLE ! n = divide_bits 8 (push_bit 24 (word_of_nat n))"
proof (induction n rule: less_induct)
  case (less n)
  show ?case
  proof (cases "n = 0")
    case True
    then show ?thesis by (simp add: CRC_QUICK_TABLE_def divide_bits_8 divide_bit_def)
  next
    case False
    define i where "i = n div 2"
    have i: "i < 128" "i < n" using less.prems False by (auto simp: i_def)
    have nb: "\<not> bit (push_bit 24 (word_of_nat i :: 32 word)) 31"
    proof -
      have "\<not> bit i 7" using i(1) by (simp add: bit_iff_odd)
      then show ?thesis by (simp add: bit_push_bit_iff bit_of_nat_iff)
    qed
    have "push_bit 24 (word_of_nat (2 * i)) = push_bit 1 (push_bit 24 (word_of_nat i :: 32 word))"
      by (simp add: push_bit_of_nat push_bit_eq_mult algebra_simps)
    then have dbl: "divide_bits 8 (push_bit 24 (word_of_nat (2 * i))) = divide_bit (CRC_QUICK_TABLE ! i)"
      using less.IH [OF i(2)] i(1) by (simp only: divide_bits_commute flip: divide_bit_small [OF nb])
    show ?thesis
    proof (cases "even n")
      case True
      then have "n = 2 * i" by (simp add: i_def)
      then show ?thesis using dbl table_double(1) [OF i(1)] by simp
    next
      case False
      then have n: "n = 2 * i + 1" by (simp add: i_def)
      have "word_of_nat (2 * i + 1) = word_of_nat (2 * i) XOR (1 :: 32 word)"
        by (simp add: xor_one_eq add.commute)
      then have "push_bit 24 (word_of_nat n) = push_bit 24 (word_of_nat (2 * i)) XOR push_bit 24 (1 :: 32 word)"
        by (simp only: n push_bit_xor)
      moreover have "divide_bits 8 (push_bit 24 1) = 0x04C11DB7"
        by (simp add: divide_bits_8 divide_bit_def)
      ultimately show ?thesis
        using dbl table_double [OF i(1)] by (simp add: n divide_bits_xor)
    qed
  qed
qed

lemma divide_byte_table: "divide_byte crc b = crc_byte crc b"
proof -
  have "divide_bits 8 (take_bit 24 crc) = push_bit 8 (take_bit 24 crc)"
    by (rule divide_bits_small) (auto simp: bit_take_bit_iff)
  also have "\<dots> = push_bit 8 crc"
    by (rule bit_word_eqI) (auto simp: bit_push_bit_iff bit_take_bit_iff)
  finally have low: "divide_bits 8 (take_bit 24 crc) = push_bit 8 crc" .
  have "unat (crc_index crc b) < 256" using unsigned_less [of "crc_index crc b"] by simp
  then have "CRC_QUICK_TABLE ! unat (crc_index crc b) = divide_bits 8 (push_bit 24 (ucast (crc_index crc b)))"
    by (simp add: table_value)
  then show ?thesis
    unfolding divide_byte_def crc_byte_def
    by (subst split_high_byte) (simp only: divide_bits_xor low xor.commute)
qed

text \<open>C32: the table-driven \<open>crc32\<close> computes, for every start value and every text, the remainder that
  the division by the polynomial of CRC-32 leaves when it is done bit by bit; so continuing from the
  checksum of a prefix gives the checksum of the whole text.\<close>

theorem crc32_divides_bitwise:
  "crc32 crc bs = foldl divide_byte crc bs \<and> crc32 crc (bs @ cs) = crc32 (crc32 crc bs) cs"
proof -
  have fold: "crc32 c ds = foldl divide_byte c ds" for c ds
    by (induction ds arbitrary: c) (simp_all add: divide_byte_table)
  then show ?thesis by simp
qed

end
