(* ===== verification/SystemCalls.thy ===== *)
theory SystemCalls
  imports GearsErrno
begin

section \<open>Wrappers of system calls (gears/ThreadKey.hpp, ThreadRunner.cpp, litemq/DescriptorHandlerPoller.cpp)\<close>

text \<open>
  The wrappers that only call the system and throw when it fails: the attributes of threads, the keys of
  thread-specific values, \<open>set_non_blocking\<close>. What a call answers is a parameter; what is modelled is which calls
  are made, with what, and the exceptions. The calls made are the first part of a result.
\<close>

datatype sys_call =
    Attr_Init | Attr_Set_Stack_Size int | Attr_Destroy
  | Key_Create | Set_Specific "nat option"
  | Fcntl_Get_Flags int | Fcntl_Set_Flags int int

type_synonym 'a sys_result = "sys_call list \<times> (byte option list outcome + 'a)"

definition literal :: "string \<Rightarrow> concat_arg" where
  "literal s = C_String (c_string (ascii s))"

subsection \<open>Attributes of threads\<close>

definition DEFAULT_STACK_SIZE :: int where
  "DEFAULT_STACK_SIZE = 1024 * 1024"

text \<open>\<open>PTHREAD_STACK_MIN\<close> is a parameter.\<close>

definition options_stack_size :: "int \<Rightarrow> int \<Rightarrow> int" where
  "options_stack_size stack_min stack_size =
     (if stack_size < stack_min then DEFAULT_STACK_SIZE else stack_size)"

definition pthread_attr :: "platform \<Rightarrow> int \<Rightarrow> int \<Rightarrow> int \<Rightarrow> unit sys_result" where
  "pthread_attr p init_res set_res stack_size =
     (if init_res \<noteq> 0 then
        ([Attr_Init], Inl (throw_errno_exception p init_res
          [literal ''ThreadRunner::PThreadAttr::PThreadAttr()'', literal ''failed to initialize attribute'']))
      else
        ([Attr_Init, Attr_Set_Stack_Size stack_size],
         if set_res \<noteq> 0 then Inl (throw_errno_exception p set_res
           [literal ''ThreadRunner::PThreadAttr::PThreadAttr()'', literal ''tried to set stack size '', Number U64 stack_size])
         else Inr ()))"

text \<open>The destructor runs when the constructor has returned.\<close>

definition pthread_attr_scope :: "platform \<Rightarrow> int \<Rightarrow> int \<Rightarrow> int \<Rightarrow> sys_call list" where
  "pthread_attr_scope p init_res set_res stack_size =
     (case pthread_attr p init_res set_res stack_size of
        (calls, Inl e) \<Rightarrow> calls
      | (calls, Inr u) \<Rightarrow> calls @ [Attr_Destroy])"

subsection \<open>Keys\<close>

definition thread_key_new :: "platform \<Rightarrow> int \<Rightarrow> unit sys_result" where
  "thread_key_new p res =
     ([Key_Create], if res \<noteq> 0
        then Inl (throw_errno_exception p res [literal ''ThreadKey::ThreadKey()'', literal '': Failed to create key''])
        else Inr ())"

definition thread_key_set_data :: "platform \<Rightarrow> int \<Rightarrow> nat option \<Rightarrow> unit sys_result" where
  "thread_key_set_data p res data =
     ([Set_Specific data], if res \<noteq> 0
        then Inl (throw_errno_exception p res [literal ''ThreadKey::set_data()'', literal '': Failed to set data''])
        else Inr ())"

subsection \<open>Descriptors\<close>

text \<open>\<open>get_res\<close> and \<open>set_res\<close> are what \<open>fcntl\<close> returns, \<open>nonblock\<close> is \<open>O_NONBLOCK\<close> and \<open>errno\<close> the error of a failed call.\<close>

definition set_non_blocking :: "platform \<Rightarrow> int \<Rightarrow> int \<Rightarrow> int \<Rightarrow> int \<Rightarrow> int \<Rightarrow> unit sys_result" where
  "set_non_blocking p nonblock get_res set_res errno fd =
     (if get_res < 0 then
        ([Fcntl_Get_Flags fd], Inl (throw_errno_exception p errno
          [literal ''DescriptorHandlerPoller::set_non_blocking()'', literal ''fcntl() failed'']))
      else
        ([Fcntl_Get_Flags fd, Fcntl_Set_Flags fd (or get_res nonblock)],
         if set_res < 0 then Inl (throw_errno_exception p errno
           [literal ''DescriptorHandlerPoller::set_non_blocking()'', literal ''fcntl() for enable non blocking failed''])
         else Inr ()))"

subsection \<open>Theorems\<close>

lemma literal_text [simp]:
  "is_text (literal s)" "arg_fits sz (literal s)"
  by (simp_all add: literal_def c_string_def)

lemma literal_written: "0 \<notin> set (ascii s) \<Longrightarrow> written_text (literal s) = ascii s"
  by (simp add: literal_def c_string_def takeWhile_c_string)

text \<open>The exception of a failed call, with the texts of the wrapper in front.\<close>

definition error_says :: "platform \<Rightarrow> int \<Rightarrow> byte list \<Rightarrow> byte option list outcome \<Rightarrow> bool" where
  "error_says p error said e \<longleftrightarrow>
     bind_sum e what = Inr (take (DESC_EXCEPTION_BUFFER_SIZE - 1)
       (said @ ascii '': errno = '' @ number_text error @ ascii '': '' @ takeWhile (\<lambda>b. b \<noteq> 0) (strerror p error)))"

lemma literals_say:
  assumes "platform_ok p" and "0 < e" and "e < 2 ^ 31" and "0 \<notin> set (ascii a)" and "0 \<notin> set (ascii b)"
  shows "error_says p e (ascii a @ ascii b) (throw_errno_exception p e [literal a, literal b])"
proof -
  have "bind_sum (throw_errno_exception p e [literal a, literal b]) what =
      Inr (take (DESC_EXCEPTION_BUFFER_SIZE - 1) (errno_text p e [literal a, literal b]))"
    by (rule errno_exception_text [OF assms(1)])
      (use assms in \<open>simp_all add: fits_def least_def greatest_def literal_written\<close>)
  then show ?thesis using assms(4,5) by (simp add: error_says_def errno_text_def literal_written)
qed

text \<open>\<open>set_non_blocking\<close> succeeds exactly when both calls do, and then has added its flag and kept all others; a
  failure of either is thrown with its error, and nothing is set when the flags cannot be read.\<close>

theorem set_non_blocking_adds_flag:
  assumes "platform_ok p" and "0 < e" and "e < 2 ^ 31"
  shows "(flags < 0 \<longrightarrow> (\<exists>x. set_non_blocking p nonblock flags r e fd = ([Fcntl_Get_Flags fd], Inl x) \<and>
      error_says p e (ascii ''DescriptorHandlerPoller::set_non_blocking()fcntl() failed'') x)) \<and>
    (0 \<le> flags \<longrightarrow> (\<exists>set_flags res. set_non_blocking p nonblock flags r e fd =
        ([Fcntl_Get_Flags fd, Fcntl_Set_Flags fd set_flags], res) \<and>
      (\<forall>i. bit set_flags i \<longleftrightarrow> bit flags i \<or> bit nonblock i) \<and>
      (0 \<le> r \<longrightarrow> res = Inr ()) \<and>
      (r < 0 \<longrightarrow> (\<exists>x. res = Inl x \<and>
        error_says p e (ascii ''DescriptorHandlerPoller::set_non_blocking()fcntl() for enable non blocking failed'') x))))"
proof -
  have "error_says p e (ascii ''DescriptorHandlerPoller::set_non_blocking()'' @ ascii ''fcntl() failed'')
      (throw_errno_exception p e [literal ''DescriptorHandlerPoller::set_non_blocking()'', literal ''fcntl() failed''])"
    "error_says p e (ascii ''DescriptorHandlerPoller::set_non_blocking()'' @ ascii ''fcntl() for enable non blocking failed'')
      (throw_errno_exception p e [literal ''DescriptorHandlerPoller::set_non_blocking()'',
        literal ''fcntl() for enable non blocking failed''])"
    by (rule literals_say [OF assms]; simp add: ascii_def)+
  then show ?thesis by (simp add: set_non_blocking_def ascii_def bit_or_iff)
qed

theorem set_non_blocking_adds_flag_witness:
  "\<exists>set_flags res. set_non_blocking sample_platform 2048 2 0 11 7 =
      ([Fcntl_Get_Flags 7, Fcntl_Set_Flags 7 set_flags], res) \<and> bit set_flags 1 \<and> res = Inr ()"
proof -
  have "bit (2 :: int) 1" by (simp add: bit_iff_odd)
  then show ?thesis using set_non_blocking_adds_flag [OF sample_platform_ok, of 11 2 2048 0 7] by auto
qed

text \<open>When the size of a stack is refused, the exception tells the size without its last digit, and the attributes
  that were initialised are never destroyed, because the constructor has not returned.\<close>

theorem refused_stack_size:
  assumes "platform_ok p" and "0 < e" and "e < 2 ^ 31" and "0 \<le> n" and "n < 2 ^ 64"
  shows "\<exists>x. pthread_attr p 0 e n = ([Attr_Init, Attr_Set_Stack_Size n], Inl x) \<and>
    error_says p e (ascii ''ThreadRunner::PThreadAttr::PThreadAttr()tried to set stack size '' @ butlast (number_text n)) x \<and>
    Attr_Destroy \<notin> set (pthread_attr_scope p 0 e n) \<and> Attr_Destroy \<in> set (pthread_attr_scope p 0 0 n)"
proof -
  let ?a = "''ThreadRunner::PThreadAttr::PThreadAttr()''"
  let ?args = "[literal ?a, literal ''tried to set stack size '', Number U64 n]"
  have w: "written_text (literal ?a) = ascii ?a"
    "written_text (literal ''tried to set stack size '') = ascii ''tried to set stack size ''"
    by (rule literal_written, simp add: ascii_def)+
  have "0 \<notin> set (butlast (number_text n))" using number_text_zero_free by (auto dest: in_set_butlastD)
  then have zero_free: "list_all (\<lambda>a. 0 \<notin> set (written_text a)) ?args"
    unfolding list.pred_inject w by (simp add: ascii_def)
  have "length (ascii ?a) < 100" "length (ascii ''tried to set stack size '') < 100" by (simp_all add: ascii_def)
  moreover have "10240 \<le> exception_size p"
    using assms(1) by (simp add: platform_ok_def DESC_EXCEPTION_BUFFER_SIZE_def)
  ultimately have "22 \<le> exception_size p - length (ascii ?a) - length (ascii ''tried to set stack size '')" by linarith
  then have "args_fit (exception_size p) ?args"
    using assms(4,5) by (simp add: w fits_def least_def greatest_def digits10_def del: length_map)
  then have "bind_sum (throw_errno_exception p e ?args) what =
      Inr (take (DESC_EXCEPTION_BUFFER_SIZE - 1) (errno_text p e ?args))"
    using assms(2,3) by (intro errno_exception_text [OF assms(1) _ _ _ zero_free]) (simp_all add: fits_def least_def greatest_def)
  moreover have "errno_text p e ?args = (ascii ''ThreadRunner::PThreadAttr::PThreadAttr()tried to set stack size '' @
      butlast (number_text n)) @ ascii '': errno = '' @ number_text e @ ascii '': '' @ takeWhile (\<lambda>b. b \<noteq> 0) (strerror p e)"
    by (simp add: errno_text_def w) (simp add: ascii_def)
  ultimately show ?thesis using assms(2) by (simp add: error_says_def pthread_attr_def pthread_attr_scope_def)
qed

theorem refused_stack_size_witness:
  "\<exists>x. pthread_attr sample_platform 0 22 1048576 = ([Attr_Init, Attr_Set_Stack_Size 1048576], Inl x) \<and>
    error_says sample_platform 22
      (ascii ''ThreadRunner::PThreadAttr::PThreadAttr()tried to set stack size '' @ ascii ''104857'') x"
proof -
  have "butlast (number_text 1048576) = ascii ''104857''" by code_simp
  then show ?thesis using refused_stack_size [OF sample_platform_ok, of 22 1048576] by auto
qed

end
