(* ===== verification/DescHandlers.thy ===== *)
theory DescHandlers
  imports Prelude
begin

section \<open>Descriptor handlers and their holders (litemq/DescriptorHandlerPoller.hpp, .cpp)\<close>

text \<open>
  The vocabulary the poller and every handler share: the \<open>StateChange\<close> flags a handler returns
  from \<open>read\<close> and \<open>write\<close> as a 64-bit word, the \<open>DescriptorHandlerHolder\<close> that keeps what a
  descriptor is armed for, and \<open>apply_state_modify_\<close>, which turns the flags into the holder's
  new state. A call that throws and a call that runs into undefined behaviour are values of
  \<open>'a call\<close>.
\<close>

datatype 'a call = Return 'a | Throw | Fault fault

unbundle bit_operations_syntax

definition CONTINUE_HANDLE :: "64 word" where "CONTINUE_HANDLE = 0"
definition STOP_READ_HANDLE :: "64 word" where "STOP_READ_HANDLE = 1"
definition START_READ_HANDLE :: "64 word" where "START_READ_HANDLE = 2"
definition CLOSE_READ_HANDLE :: "64 word" where "CLOSE_READ_HANDLE = 4"
definition STOP_WRITE_HANDLE :: "64 word" where "STOP_WRITE_HANDLE = 8"
definition START_WRITE_HANDLE :: "64 word" where "START_WRITE_HANDLE = 16"
definition CLOSE_WRITE_HANDLE :: "64 word" where "CLOSE_WRITE_HANDLE = 32"
definition STOP_PROCESSING :: "64 word" where "STOP_PROCESSING = 64"

lemmas state_change_defs =
  CONTINUE_HANDLE_def STOP_READ_HANDLE_def START_READ_HANDLE_def CLOSE_READ_HANDLE_def
  STOP_WRITE_HANDLE_def START_WRITE_HANDLE_def CLOSE_WRITE_HANDLE_def STOP_PROCESSING_def

text \<open>\<open>state_modify & FLAG\<close> as a condition.\<close>

definition flag_set :: "64 word \<Rightarrow> 64 word \<Rightarrow> bool" where
  "flag_set w f \<longleftrightarrow> w AND f \<noteq> 0"

subsection \<open>\<open>DescriptorHandlerHolder\<close>\<close>

text \<open>
  The holder names its handler by address, and none after \<open>reset_descriptor_handler\<close>. The
  member \<open>destroyed\<close>, which the constructor does not set and nothing reads, is left out.
\<close>

record holder =
  descriptor_handler :: "nat option"
  handle_read :: bool
  handle_write :: bool
  read_closed :: bool
  write_closed :: bool
  handle_in_progress :: int
  handling_finished :: int

definition holder_new :: "nat \<Rightarrow> holder" where
  "holder_new d =
     \<lparr>descriptor_handler = Some d, handle_read = True, handle_write = True,
      read_closed = False, write_closed = False, handle_in_progress = 0, handling_finished = 0\<rparr>"

text \<open>
  \<open>link_holder_\<close> and \<open>unlink_holder_\<close> on the vector of the holders a handler is linked to.
\<close>

definition link_holder :: "nat \<Rightarrow> nat list \<Rightarrow> nat list" where
  "link_holder h linked = (if h \<in> set linked then linked else linked @ [h])"

definition unlink_holder :: "nat \<Rightarrow> nat list \<Rightarrow> nat list" where
  "unlink_holder h linked = remove1 h linked"

lemma link_holder_distinct [wf_intros]: "distinct l \<Longrightarrow> distinct (link_holder h l)"
  by (simp add: link_holder_def)

lemma link_holder_set [simp]: "set (link_holder h l) = insert h (set l)"
  by (auto simp: link_holder_def)

lemma unlink_holder_set [simp]: "distinct l \<Longrightarrow> set (unlink_holder h l) = set l - {h}"
  by (simp add: unlink_holder_def set_remove1_eq)

lemma unlink_holder_distinct [wf_intros]: "distinct l \<Longrightarrow> distinct (unlink_holder h l)"
  by (simp add: unlink_holder_def)

subsection \<open>\<open>apply_state_modify_\<close>\<close>

definition apply_state_modify :: "holder \<Rightarrow> 64 word \<Rightarrow> bool \<times> holder" where
  "apply_state_modify h state_modify =
     (let res_handle_read = handle_read h;
          res_handle_write = handle_write h;
          (res_handle_read, h) =
            (if flag_set state_modify CLOSE_READ_HANDLE then (False, h\<lparr>read_closed := True\<rparr>)
             else if flag_set state_modify START_READ_HANDLE then (True, h)
             else if flag_set state_modify STOP_READ_HANDLE then (False, h)
             else (res_handle_read, h));
          (res_handle_read, res_handle_write, h) =
            (if flag_set state_modify CLOSE_WRITE_HANDLE
             then (False, res_handle_write, h\<lparr>write_closed := True\<rparr>)
             else if flag_set state_modify START_WRITE_HANDLE then (res_handle_read, True, h)
             else if flag_set state_modify STOP_WRITE_HANDLE then (res_handle_read, False, h)
             else (res_handle_read, res_handle_write, h))
      in (flag_set state_modify STOP_PROCESSING,
          h\<lparr>handle_read := res_handle_read, handle_write := res_handle_write\<rparr>))"

lemma apply_state_modify_frame [simp]:
  "descriptor_handler (snd (apply_state_modify h w)) = descriptor_handler h"
  "handle_in_progress (snd (apply_state_modify h w)) = handle_in_progress h"
  "handling_finished (snd (apply_state_modify h w)) = handling_finished h"
  by (simp_all add: apply_state_modify_def Let_def)

lemma apply_state_modify_closed [simp]:
  "read_closed (snd (apply_state_modify h w)) \<longleftrightarrow> read_closed h \<or> flag_set w CLOSE_READ_HANDLE"
  "write_closed (snd (apply_state_modify h w)) \<longleftrightarrow> write_closed h \<or> flag_set w CLOSE_WRITE_HANDLE"
  by (simp_all add: apply_state_modify_def Let_def)

lemma apply_state_modify_armed [simp]:
  "handle_read (snd (apply_state_modify h w)) \<longleftrightarrow>
     \<not> flag_set w CLOSE_READ_HANDLE \<and> \<not> flag_set w CLOSE_WRITE_HANDLE \<and>
     (if flag_set w START_READ_HANDLE then True
      else handle_read h \<and> \<not> flag_set w STOP_READ_HANDLE)"
  "handle_write (snd (apply_state_modify h w)) \<longleftrightarrow>
     (if flag_set w CLOSE_WRITE_HANDLE then handle_write h
      else if flag_set w START_WRITE_HANDLE then True
      else handle_write h \<and> \<not> flag_set w STOP_WRITE_HANDLE)"
  by (simp_all add: apply_state_modify_def Let_def)

lemma apply_state_modify_stop [simp]:
  "fst (apply_state_modify h w) = flag_set w STOP_PROCESSING"
  by (simp add: apply_state_modify_def Let_def split: prod.splits)

text \<open>What the flags of one \<open>read\<close> or \<open>write\<close> do to a holder. Closing wins over starting and
  starting over stopping in each direction, the closed marks are only ever set, and no flag
  leaves a holder as it is. The write side differs from the read side: closing it stops the
  reading and leaves \<open>handle_write\<close> as it was.\<close>

theorem apply_state_modify_effect:
  "(handle_read (snd (apply_state_modify h w)) \<longleftrightarrow>
     \<not> flag_set w CLOSE_READ_HANDLE \<and> \<not> flag_set w CLOSE_WRITE_HANDLE \<and>
     (if flag_set w START_READ_HANDLE then True
      else handle_read h \<and> \<not> flag_set w STOP_READ_HANDLE)) \<and>
   (handle_write (snd (apply_state_modify h w)) \<longleftrightarrow>
     (if flag_set w CLOSE_WRITE_HANDLE then handle_write h
      else if flag_set w START_WRITE_HANDLE then True
      else handle_write h \<and> \<not> flag_set w STOP_WRITE_HANDLE)) \<and>
   (read_closed (snd (apply_state_modify h w)) \<longleftrightarrow> read_closed h \<or> flag_set w CLOSE_READ_HANDLE) \<and>
   (write_closed (snd (apply_state_modify h w)) \<longleftrightarrow> write_closed h \<or> flag_set w CLOSE_WRITE_HANDLE) \<and>
   (fst (apply_state_modify h w) \<longleftrightarrow> flag_set w STOP_PROCESSING) \<and>
   snd (apply_state_modify h CONTINUE_HANDLE) = h"
proof -
  have "snd (apply_state_modify h CONTINUE_HANDLE) = h"
    by (simp add: apply_state_modify_def Let_def flag_set_def CONTINUE_HANDLE_def)
  then show ?thesis by simp
qed

end
