(* ===== verification/GearsAtomic.thy ===== *)
theory GearsAtomic
  imports Prelude
begin

section \<open>\<open>Gears::AtomicCounter\<close> (gears/AtomicCounter.hpp)\<close>

text \<open>
  A counter of the width of \<open>_Atomic_word\<close> (32 bits), the GCC branch of the header: every
  operation is one atomic step, a function from the value to the result and the new value.
  \<open>counter_new\<close> is the constructor that takes a value; the default constructor leaves the value
  unset. The lemmas say what the increments and decrements return while the value is in range,
  which is what the cleaner of the poller relies on.
\<close>

type_synonym counter = int

definition counter_new :: "int \<Rightarrow> counter" where
  "counter_new v = s32 v"

definition counter_add :: "int \<Rightarrow> counter \<Rightarrow> counter" where
  "counter_add v c = s32 (c + v)"

definition counter_fetch_and_add :: "int \<Rightarrow> counter \<Rightarrow> int \<times> counter" where
  "counter_fetch_and_add v c = (c, s32 (c + v))"

definition counter_add_and_fetch :: "int \<Rightarrow> counter \<Rightarrow> int \<times> counter" where
  "counter_add_and_fetch v c = (s32 (c + v), s32 (c + v))"

definition counter_assign :: "int \<Rightarrow> counter \<Rightarrow> counter" where
  "counter_assign v c = s32 v"

definition counter_pre_inc :: "counter \<Rightarrow> counter" where
  "counter_pre_inc c = counter_add 1 c"

definition counter_pre_dec :: "counter \<Rightarrow> counter" where
  "counter_pre_dec c = counter_add (- 1) c"

definition counter_post_inc :: "counter \<Rightarrow> int \<times> counter" where
  "counter_post_inc c = counter_fetch_and_add 1 c"

definition counter_post_dec :: "counter \<Rightarrow> int \<times> counter" where
  "counter_post_dec c = counter_fetch_and_add (- 1) c"

definition counter_plus_assign :: "int \<Rightarrow> counter \<Rightarrow> counter" where
  "counter_plus_assign v c = counter_add v c"

definition counter_minus_assign :: "int \<Rightarrow> counter \<Rightarrow> counter" where
  "counter_minus_assign v c = counter_add (- v) c"

definition counter_value :: "counter \<Rightarrow> int" where
  "counter_value c = fst (counter_fetch_and_add 0 c)"

lemmas counter_defs =
  counter_new_def counter_add_def counter_fetch_and_add_def counter_add_and_fetch_def
  counter_assign_def counter_pre_inc_def counter_pre_dec_def counter_post_inc_def
  counter_post_dec_def counter_plus_assign_def counter_minus_assign_def counter_value_def

lemma counter_post_dec_in_range [machine_int]:
  "- (2 ^ 31) < c \<Longrightarrow> c < 2 ^ 31 \<Longrightarrow> counter_post_dec c = (c, c - 1)"
  by (simp add: counter_defs s32_id)

lemma counter_post_inc_in_range [machine_int]:
  "- (2 ^ 31) \<le> c \<Longrightarrow> c < 2 ^ 31 - 1 \<Longrightarrow> counter_post_inc c = (c, c + 1)"
  by (simp add: counter_defs s32_id)

lemma counter_plus_assign_in_range [machine_int]:
  "0 \<le> c \<Longrightarrow> 0 \<le> v \<Longrightarrow> c + v < 2 ^ 31 \<Longrightarrow> counter_plus_assign v c = c + v"
  by (simp add: counter_defs s32_id)

text \<open>\<open>fetch_and_add\<close> and \<open>add_and_fetch\<close> leave the same value and return the one before
  and the one after it, and adding and taking away the same amount restores every value.\<close>

theorem counter_operations:
  "snd (counter_fetch_and_add v c) = snd (counter_add_and_fetch v c) \<and>
   fst (counter_fetch_and_add v c) = c \<and>
   fst (counter_add_and_fetch v c) = snd (counter_add_and_fetch v c) \<and>
   counter_minus_assign v (counter_plus_assign v (counter_new c)) = counter_new c \<and>
   snd (counter_post_dec (snd (counter_post_inc (counter_new c)))) = counter_new c"
  using s32_add_left [of "c + v" "- v"] s32_add_left [of "c + 1" "- 1"]
  by (simp add: counter_defs)

end
