(* ===== verification/Cleaner.thy ===== *)
theory Cleaner
  imports GearsAtomic
begin

section \<open>\<open>DescriptorHandlerCleaner\<close> (litemq/DescriptorHandlerPoller.cpp)\<close>

text \<open>
  The cleaner frees a holder only when every polling thread has called \<open>release\<close> after the
  holder was pushed; that no thread has it among its events then is the matter of \<open>EventBatches\<close>.
  \<open>release_array_\<close> marks the threads that released in the current round, \<open>unreleased_count_\<close>
  counts the others; when the last one releases, \<open>free_\<close> is destroyed and the candidates take
  its place.

  \<open>push\<close> and \<open>release\<close> are one definition each, for one call after another; the calls of
  different threads are the steps of a relation. \<open>freed\<close> records the holders whose reference the
  cleaner dropped, in order. \<open>CopyableAtomicInt(int i)\<close> ignores \<open>i\<close> and starts from 0.
\<close>

definition copyable_atomic :: "int \<Rightarrow> int" where
  "copyable_atomic i = 0"

record cleaner =
  release_array :: "int list"
  unreleased_count :: counter
  free :: "nat list"
  free_candidates :: "nat list"
  freed :: "nat list"

definition cleaner_new :: "nat \<Rightarrow> cleaner" where
  "cleaner_new threads =
     \<lparr>release_array = replicate threads (copyable_atomic 0),
      unreleased_count = counter_new (int threads), free = [], free_candidates = [], freed = []\<rparr>"

definition cleaner_push :: "nat \<Rightarrow> cleaner \<Rightarrow> cleaner" where
  "cleaner_push obj c =
     (let obj_list = [obj] in c\<lparr>free_candidates := free_candidates c @ obj_list\<rparr>)"

text \<open>The loop that takes one from every entry and counts the ones that were 1.\<close>

fun reset_round :: "int list \<Rightarrow> counter \<Rightarrow> int list \<times> counter" where
  "reset_round [] n = ([], n)"
| "reset_round (r # rs) n =
     (case reset_round rs (if r = 1 then counter_plus_assign 1 n else n) of
        (rs', n') \<Rightarrow> (s32 (r - 1) # rs', n'))"

definition finish_round :: "cleaner \<Rightarrow> cleaner" where
  "finish_round c =
     (case reset_round (release_array c) (unreleased_count c) of
        (rs, n) \<Rightarrow>
          let clear_list = free c
          in c\<lparr>release_array := rs, unreleased_count := n, free := free_candidates c,
               free_candidates := [], freed := freed c @ clear_list\<rparr>)"

text \<open>
  \<open>release(id)\<close>: an index past the array is undefined. The branch that reverts the increase is
  reached only when another thread released the same index in between: in one call run alone
  the entry read as 0 is still 0.
\<close>

definition release :: "nat \<Rightarrow> cleaner \<Rightarrow> cleaner outcome" where
  "release i c =
     (if i < length (release_array c) then
        if release_array c ! i = 0 then
          let prev = release_array c ! i;
              c1 = c\<lparr>release_array := (release_array c)[i := s32 (prev + 1)]\<rparr>
          in if prev = 0 then
               case counter_post_dec (unreleased_count c1) of
                 (before, n) \<Rightarrow>
                   let c2 = c1\<lparr>unreleased_count := n\<rparr>
                   in if before = 1 then Inr (finish_round c2) else Inr c2
             else
               let prev' = release_array c1 ! i;
                   c2 = c1\<lparr>release_array := (release_array c1)[i := s32 (prev' - 1)]\<rparr>
               in if prev' = 1
                  then Inr (c2\<lparr>unreleased_count := counter_plus_assign 1 (unreleased_count c2)\<rparr>)
                  else Inr c2
        else Inr c
      else Inl Out_Of_Bounds)"

subsection \<open>The round invariant\<close>

text \<open>
  Every entry is 0 or 1, the count is the number of entries at 0, and a round is never
  complete between two calls.
\<close>

definition cleaner_inv :: "cleaner \<Rightarrow> bool" where
  "cleaner_inv c \<longleftrightarrow>
     set (release_array c) \<subseteq> {0, 1} \<and> 0 \<in> set (release_array c) \<and>
     int (length (release_array c)) < 2 ^ 31 \<and>
     unreleased_count c = int (count_list (release_array c) 0)"

lemma count_list_le_length: "count_list xs x \<le> length xs"
  by (induction xs) auto

lemma cleaner_inv_new [wf_intros]:
  assumes "0 < threads" and "int threads < 2 ^ 31"
  shows "cleaner_inv (cleaner_new threads)"
proof -
  have "count_list (replicate n x) x = n" for n and x :: int by (induction n) auto
  then show ?thesis
    using assms by (simp add: cleaner_inv_def cleaner_new_def copyable_atomic_def counter_new_def s32_id)
qed

lemma cleaner_inv_push [wf_intros]: "cleaner_inv c \<Longrightarrow> cleaner_inv (cleaner_push obj c)"
  by (simp add: cleaner_inv_def cleaner_push_def)

lemma reset_round_ones:
  assumes "set rs \<subseteq> {1}" and "0 \<le> n" and "n + int (length rs) < 2 ^ 31"
  shows "reset_round rs n = (replicate (length rs) 0, n + int (length rs))"
  using assms
proof (induction rs arbitrary: n)
  case (Cons r rs)
  then have "counter_plus_assign 1 n = n + 1" by (intro counter_plus_assign_in_range) simp_all
  with Cons show ?case by (simp add: s32_id)
qed simp

lemma count_list_update_mark:
  assumes "i < length xs" and "xs ! i = 0"
  shows "count_list xs (0::int) = Suc (count_list (xs[i := 1]) 0)"
  using assms by (induction xs arbitrary: i) (auto simp: nth_Cons split: nat.splits)

lemma count_zero_set: "count_list xs x = 0 \<longleftrightarrow> x \<notin> set xs"
  by (simp add: count_list_0_iff)

lemma release_cases:
  assumes "cleaner_inv c" and "i < length (release_array c)"
  obtains (again) "release i c = Inr c" "release_array c ! i = 1"
  | (mark) "release_array c ! i = 0" "0 \<in> set ((release_array c)[i := 1])"
      "release i c = Inr (c\<lparr>release_array := (release_array c)[i := 1],
         unreleased_count := unreleased_count c - 1\<rparr>)"
  | (finish) "release_array c ! i = 0" "set ((release_array c)[i := 1]) = {1}"
      "release i c = Inr (c\<lparr>release_array := replicate (length (release_array c)) 0,
         unreleased_count := int (length (release_array c)), free := free_candidates c,
         free_candidates := [], freed := freed c @ free c\<rparr>)"
proof -
  let ?m = "(release_array c)[i := 1]"
  have el: "release_array c ! i = 0 \<or> release_array c ! i = 1"
    using assms by (auto simp: cleaner_inv_def dest: nth_mem)
  have n: "unreleased_count c = int (count_list (release_array c) 0)"
    "unreleased_count c \<le> int (length (release_array c))" "int (length (release_array c)) < 2 ^ 31"
    using assms(1) count_list_le_length [of "release_array c" 0]
    by (simp_all add: cleaner_inv_def)
  have m: "set ?m \<subseteq> {0, 1}" "1 \<in> set ?m"
    using assms set_update_subset_insert [of "release_array c" i 1]
    by (auto simp: cleaner_inv_def set_update_memI)
  show thesis
  proof (cases "release_array c ! i = 0")
    case False
    then show thesis using el assms(2) by (intro again) (simp_all add: release_def)
  next
    case z: True
    have one: "s32 1 = 1" by (simp add: s32_def)
    have dec: "counter_post_dec (unreleased_count c) = (unreleased_count c, unreleased_count c - 1)"
      using n by (intro counter_post_dec_in_range) simp_all
    have cnt: "count_list (release_array c) 0 = Suc (count_list ?m 0)"
      by (rule count_list_update_mark [OF assms(2) z])
    show thesis
    proof (cases "0 \<in> set ?m")
      case True
      then have "unreleased_count c \<noteq> 1" using n(1) cnt count_zero_set [of ?m 0] by simp
      then show thesis
        using z assms(2) True
        by (intro mark) (simp_all add: release_def Let_def one dec)
    next
      case False
      then have u: "unreleased_count c = 1" using n(1) cnt count_zero_set [of ?m 0] by simp
      have "set ?m = {1}" using m False by auto
      moreover from this have "reset_round ?m 0 = (replicate (length ?m) 0, 0 + int (length ?m))"
        using n by (intro reset_round_ones) auto
      ultimately show thesis
        using z assms(2) u
        by (intro finish) (simp_all add: release_def Let_def one dec [unfolded u] finish_round_def)
    qed
  qed
qed

lemma cleaner_inv_release [wf_intros]:
  assumes "cleaner_inv c" and "i < length (release_array c)" and "release i c = Inr c'"
  shows "cleaner_inv c'"
  using assms(1,2)
proof (cases rule: release_cases)
  case again
  then show ?thesis using assms by simp
next
  case mark
  then show ?thesis
    using assms count_list_update_mark [OF assms(2) mark(1)]
      set_update_subset_insert [of "release_array c" i 1]
    by (auto simp: cleaner_inv_def)
next
  case finish
  have "0 < length (release_array c)" using assms(2) by linarith
  moreover have "count_list (replicate n x) x = n" for n and x :: int by (induction n) auto
  ultimately show ?thesis
    using assms finish by (auto simp: cleaner_inv_def)
qed

subsection \<open>Every thread has released\<close>

text \<open>
  A run of the cleaner: pushes of holders not pushed before and releases by the threads, with
  the set of the threads that released since each holder was pushed.
\<close>

type_synonym cleaner_run = "cleaner \<times> (nat \<Rightarrow> nat set)"

definition holders_of :: "cleaner \<Rightarrow> nat list" where
  "holders_of c = free_candidates c @ free c @ freed c"

inductive cleaner_step :: "cleaner_run \<Rightarrow> cleaner_run \<Rightarrow> bool" where
  cleaner_push_step:
    "obj \<notin> set (holders_of c) \<Longrightarrow> cleaner_step (c, rel) (cleaner_push obj c, rel(obj := {}))"
| cleaner_release_step:
    "release i c = Inr c' \<Longrightarrow> cleaner_step (c, rel) (c', \<lambda>obj. insert i (rel obj))"

inductive_cases cleaner_stepE: "cleaner_step (c, rel) r"

inductive cleaner_reachable :: "nat \<Rightarrow> cleaner_run \<Rightarrow> bool" for threads where
  cleaner_init: "cleaner_reachable threads (cleaner_new threads, \<lambda>_. {})"
| cleaner_next: "cleaner_reachable threads r \<Longrightarrow> cleaner_step r r' \<Longrightarrow> cleaner_reachable threads r'"

definition cleaner_run_inv :: "nat \<Rightarrow> cleaner_run \<Rightarrow> bool" where
  "cleaner_run_inv threads r = (case r of (c, rel) \<Rightarrow>
     cleaner_inv c \<and> length (release_array c) = threads \<and> distinct (holders_of c) \<and>
     (\<forall>obj \<in> set (free c). {i. i < threads \<and> release_array c ! i = 1} \<subseteq> rel obj) \<and>
     (\<forall>obj \<in> set (freed c). {..<threads} \<subseteq> rel obj))"

lemma release_bound: "release i c = Inr c' \<Longrightarrow> i < length (release_array c)"
  by (simp add: release_def split: if_splits)

lemma cleaner_run_inv_release:
  assumes "cleaner_run_inv n (c, rel)" and r: "release i c = Inr c'"
  shows "cleaner_run_inv n (c', \<lambda>obj. insert i (rel obj))"
proof -
  have inv: "cleaner_inv c" "length (release_array c) = n" "distinct (holders_of c)"
    and fr: "\<forall>obj \<in> set (free c). {i. i < n \<and> release_array c ! i = 1} \<subseteq> rel obj"
    and thru: "\<forall>obj \<in> set (freed c). {..<n} \<subseteq> rel obj"
    using assms(1) by (auto simp: cleaner_run_inv_def)
  have i: "i < length (release_array c)" by (rule release_bound [OF r])
  have inv': "cleaner_inv c'" by (rule cleaner_inv_release [OF inv(1) i r])
  show ?thesis
    using inv(1) i
  proof (cases rule: release_cases)
    case again
    then show ?thesis using assms fr thru inv by (auto simp: cleaner_run_inv_def)
  next
    case mark
    then show ?thesis
      using r fr thru inv inv' i
      by (auto simp: cleaner_run_inv_def holders_of_def nth_list_update split: if_splits)
  next
    case finish
    have "release_array c ! j = 1" if "j < n" "j \<noteq> i" for j
      using finish(2) that inv(2) nth_mem [of j "(release_array c)[i := 1]"] by auto
    then have "\<forall>obj \<in> set (free c). {..<n} \<subseteq> insert i (rel obj)"
      using fr by auto
    then have "\<forall>obj \<in> set (freed c @ free c). {..<n} \<subseteq> insert i (rel obj)"
      using thru by auto
    moreover have "c' = c\<lparr>release_array := replicate n 0, unreleased_count := int n,
      free := free_candidates c, free_candidates := [], freed := freed c @ free c\<rparr>"
      using finish(3) r inv(2) by simp
    moreover from this have "distinct (holders_of c')" "\<forall>j < n. release_array c' ! j \<noteq> 1"
      using inv(3) by (auto simp: holders_of_def)
    ultimately show ?thesis
      using inv' by (auto simp: cleaner_run_inv_def)
  qed
qed

lemma cleaner_run_inv_reachable:
  assumes "cleaner_reachable n r" and "0 < n" and "int n < 2 ^ 31"
  shows "cleaner_run_inv n r"
  using assms(1)
proof (induction rule: cleaner_reachable.induct)
  case cleaner_init
  then show ?case
    using assms(2,3) cleaner_inv_new by (simp add: cleaner_run_inv_def holders_of_def cleaner_new_def)
next
  case (cleaner_next r r')
  from cleaner_next.hyps(2) show ?case
  proof cases
    case (cleaner_push_step obj c rel)
    then show ?thesis
      using cleaner_next.IH cleaner_inv_push [of c obj]
      by (auto simp: cleaner_run_inv_def holders_of_def cleaner_push_def)
  next
    case (cleaner_release_step i c c' rel)
    then show ?thesis using cleaner_next.IH cleaner_run_inv_release by simp
  qed
qed

subsection \<open>Every holder is freed\<close>

fun release_all :: "nat list \<Rightarrow> cleaner \<Rightarrow> cleaner outcome" where
  "release_all [] c = Inr c"
| "release_all (i # is) c = bind_sum (release i c) (release_all is)"

definition unmarked :: "cleaner \<Rightarrow> nat set" where
  "unmarked c = {i. i < length (release_array c) \<and> release_array c ! i = 0}"

definition moved_on :: "cleaner \<Rightarrow> cleaner \<Rightarrow> bool" where
  "moved_on c c' \<longleftrightarrow> set (free_candidates c) \<subseteq> set (free c') \<union> set (freed c') \<and>
     set (free c) \<union> set (freed c) \<subseteq> set (freed c')"

lemma release_progress:
  assumes "cleaner_inv c" and "i < length (release_array c)"
  shows "\<exists>c'. release i c = Inr c' \<and> cleaner_inv c' \<and>
    length (release_array c') = length (release_array c) \<and>
    set (free c) \<union> set (freed c) \<subseteq> set (free c') \<union> set (freed c') \<and>
    set (freed c) \<subseteq> set (freed c') \<and>
    (moved_on c c' \<or> free_candidates c' = free_candidates c \<and> free c' = free c \<and>
      freed c' = freed c \<and> unmarked c' = unmarked c - {i})"
  using assms
proof (cases rule: release_cases)
  case again
  then show ?thesis using assms by (auto simp: unmarked_def)
next
  case mark
  note inv = cleaner_inv_release [OF assms mark(3)]
  show ?thesis
    unfolding mark(3) using inv mark(1) assms(2)
    by (auto simp: unmarked_def nth_list_update split: if_splits)
next
  case finish
  note inv = cleaner_inv_release [OF assms finish(3)]
  show ?thesis
    unfolding finish(3) using inv by (auto simp: moved_on_def)
qed

lemma release_all_progress:
  assumes "cleaner_inv c" and "\<forall>i \<in> set is. i < length (release_array c)"
  shows "\<exists>c'. release_all is c = Inr c' \<and> cleaner_inv c' \<and>
    length (release_array c') = length (release_array c) \<and>
    set (free c) \<union> set (freed c) \<subseteq> set (free c') \<union> set (freed c') \<and>
    set (freed c) \<subseteq> set (freed c') \<and>
    (moved_on c c' \<or> free_candidates c' = free_candidates c \<and> free c' = free c \<and>
      freed c' = freed c \<and> unmarked c' = unmarked c - set is)"
  using assms
proof (induction "is" arbitrary: c)
  case (Cons i "is")
  obtain c1 where c1: "release i c = Inr c1" "cleaner_inv c1"
    "length (release_array c1) = length (release_array c)"
    "set (free c) \<union> set (freed c) \<subseteq> set (free c1) \<union> set (freed c1)" "set (freed c) \<subseteq> set (freed c1)"
    "moved_on c c1 \<or> free_candidates c1 = free_candidates c \<and> free c1 = free c \<and>
      freed c1 = freed c \<and> unmarked c1 = unmarked c - {i}"
    using release_progress [OF Cons.prems(1), of i] Cons.prems(2) by auto
  obtain c2 where c2: "release_all is c1 = Inr c2" "cleaner_inv c2"
    "length (release_array c2) = length (release_array c1)"
    "set (free c1) \<union> set (freed c1) \<subseteq> set (free c2) \<union> set (freed c2)" "set (freed c1) \<subseteq> set (freed c2)"
    "moved_on c1 c2 \<or> free_candidates c2 = free_candidates c1 \<and> free c2 = free c1 \<and>
      freed c2 = freed c1 \<and> unmarked c2 = unmarked c1 - set is"
    using Cons.IH [OF c1(2)] Cons.prems(2) c1(3) by auto
  have "moved_on c c2 \<or> free_candidates c2 = free_candidates c \<and> free c2 = free c \<and>
      freed c2 = freed c \<and> unmarked c2 = unmarked c - set (i # is)"
    using c1(6)
  proof
    assume "moved_on c c1"
    then have "moved_on c c2" using c2(4,5) unfolding moved_on_def by blast
    then show ?thesis ..
  next
    assume same: "free_candidates c1 = free_candidates c \<and> free c1 = free c \<and>
      freed c1 = freed c \<and> unmarked c1 = unmarked c - {i}"
    then have "moved_on c1 c2 \<Longrightarrow> moved_on c c2" by (simp add: moved_on_def)
    with same c2(6) show ?thesis by auto
  qed
  with c1 c2 show ?case by (intro exI [of _ c2]) auto
qed simp

lemma pass_moves_on:
  assumes "cleaner_inv c" and "set is = {..<length (release_array c)}"
  shows "\<exists>c'. release_all is c = Inr c' \<and> cleaner_inv c' \<and>
    length (release_array c') = length (release_array c) \<and> moved_on c c'"
proof -
  obtain c' where c': "release_all is c = Inr c'" "cleaner_inv c'"
    "length (release_array c') = length (release_array c)"
    "moved_on c c' \<or> unmarked c' = unmarked c - set is"
    using release_all_progress [OF assms(1), of "is"] assms(2) by auto
  have "0 \<in> set (release_array c')" using c'(2) by (simp add: cleaner_inv_def)
  then obtain i where "i < length (release_array c')" "release_array c' ! i = 0"
    by (metis in_set_conv_nth)
  then have "i \<in> unmarked c'" "i \<in> set is" using assms(2) c'(3) by (auto simp: unmarked_def)
  with c' show ?thesis by auto
qed

lemma release_all_append:
  "release_all (xs @ ys) c = bind_sum (release_all xs c) (release_all ys)"
  by (induction xs arbitrary: c) (auto simp: bind_sum_def split: sum.splits)

subsection \<open>Properties\<close>


lemma cleaner_example:
  "cleaner_reachable 2 (cleaner_push 7 (cleaner_new 2), (\<lambda>_. {})(7 := {}))"
  by (rule cleaner_next [OF cleaner_init cleaner_push_step])
    (simp add: holders_of_def cleaner_new_def)

lemmas cleaner_eval =
  release_def cleaner_push_def cleaner_new_def copyable_atomic_def Let_def finish_round_def
  counter_defs s32_def

lemma cleaner_example_freed:
  "\<exists>c rel. cleaner_reachable 2 (c, rel) \<and> freed c = [7] \<and>
    release_all [0, 1, 0, 1] (cleaner_push 7 (cleaner_new 2)) = Inr c"
proof -
  let ?c = "cleaner_push 7 (cleaner_new 2)"
  let ?c1 = "?c\<lparr>release_array := [1, 0], unreleased_count := 1\<rparr>"
  let ?c2 = "?c\<lparr>free := [7], free_candidates := []\<rparr>"
  let ?c3 = "?c2\<lparr>release_array := [1, 0], unreleased_count := 1\<rparr>"
  let ?c4 = "?c2\<lparr>free := [], freed := [7]\<rparr>"
  have r: "release 0 ?c = Inr ?c1" "release 1 ?c1 = Inr ?c2" "release 0 ?c2 = Inr ?c3"
    "release 1 ?c3 = Inr ?c4"
    by (simp_all add: cleaner_eval numeral_2_eq_2)
  note run = cleaner_next [OF _ cleaner_release_step]
  have "freed ?c4 = [7]" by simp
  moreover have "release_all [0, 1, 0, 1] ?c = Inr ?c4" by (simp add: r del: One_nat_def)
  ultimately show ?thesis
    using run [OF run [OF run [OF run [OF cleaner_example r(1)] r(2)] r(3)] r(4)] by blast
qed




end
