(* ===== verification/Poller.thy ===== *)
theory Poller
  imports DescHandlers Cleaner
begin

section \<open>\<open>DescriptorHandlerPoller\<close> (litemq/DescriptorHandlerPoller.cpp)\<close>

text \<open>
  The state of one poller: the holders it created, by address; the handler objects and the
  holders linked to each; the map \<open>handlers_\<close>; the cleaner; and \<open>epoll_log\<close>, the requests made of
  \<open>epoll_ctl\<close> so far. The kernel is not modelled: \<open>ctl_ok log request\<close> is its answer to a request
  after the requests of \<open>log\<close>, and the events of \<open>epoll_wait\<close> are an argument of \<open>process_events\<close>.

  A handler class is the record of its virtual functions over the state \<open>'h\<close> of its objects. A
  function that may throw or run into undefined behaviour returns a \<open>call\<close> beside the state it
  leaves, so that a throw keeps what was done before it.

  \<open>handle\<close> runs in one thread. What the other threads do meanwhile to the holder is increment
  \<open>handle_in_progress\<close> and leave: \<open>arrivals\<close> says how many of them come during each round of the
  loop. The interleaving of the threads themselves is the theory PollerThreads.
\<close>

datatype epoll_request =
    Epoll_Add (request_fd: int) (request_holder: nat) (request_events: "32 word")
  | Epoll_Mod (request_fd: int) (request_holder: nat) (request_events: "32 word")
  | Epoll_Del (request_fd: int)

text \<open>The event bits of \<open>sys/epoll.h\<close>.\<close>

definition EPOLLIN :: "32 word" where "EPOLLIN = 0x1"
definition EPOLLOUT :: "32 word" where "EPOLLOUT = 0x4"
definition EPOLLRDHUP :: "32 word" where "EPOLLRDHUP = 0x2000"
definition EPOLLONESHOT :: "32 word" where "EPOLLONESHOT = 0x40000000"
definition EPOLLET :: "32 word" where "EPOLLET = 0x80000000"

unbundle bit_operations_syntax

definition EPOLL_FLAGS :: "32 word" where
  "EPOLL_FLAGS = EPOLLRDHUP OR EPOLLET OR EPOLLONESHOT"

record 'h handler_class =
  vfd :: "'h \<Rightarrow> int"
  vread :: "'h \<Rightarrow> 64 word call \<times> 'h"
  vwrite :: "'h \<Rightarrow> 64 word call \<times> 'h"
  vstopped :: "'h \<Rightarrow> 'h"

record 'h poller =
  holders :: "nat \<Rightarrow> holder"
  next_holder :: nat
  objects :: "nat \<Rightarrow> 'h"
  linked :: "nat \<Rightarrow> nat list"
  handlers :: "nat \<rightharpoonup> nat"
  epoll_log :: "epoll_request list"
  poller_cleaner :: cleaner

type_synonym epoll_answer = "epoll_request list \<Rightarrow> epoll_request \<Rightarrow> bool"

definition set_holder :: "nat \<Rightarrow> holder \<Rightarrow> 'h poller \<Rightarrow> 'h poller" where
  "set_holder hid h p = p\<lparr>holders := (holders p)(hid := h)\<rparr>"

text \<open>\<open>epoll_ctl\<close>: the request is made; a refusal throws.\<close>

definition epoll_ctl :: "epoll_answer \<Rightarrow> epoll_request \<Rightarrow> 'h poller \<Rightarrow> unit call \<times> 'h poller" where
  "epoll_ctl ctl_ok request p =
     ((if ctl_ok (epoll_log p) request then Return () else Throw),
      p\<lparr>epoll_log := epoll_log p @ [request]\<rparr>)"

definition epoll_del_fd :: "epoll_answer \<Rightarrow> int \<Rightarrow> 'h poller \<Rightarrow> unit call \<times> 'h poller" where
  "epoll_del_fd ctl_ok fd p = epoll_ctl ctl_ok (Epoll_Del fd) p"

definition armed_events :: "bool \<Rightarrow> bool \<Rightarrow> 32 word" where
  "armed_events hread hwrite =
     EPOLL_FLAGS OR (if hread then EPOLLIN else 0) OR (if hwrite then EPOLLOUT else 0)"

definition epoll_rearm_fd ::
  "'h handler_class \<Rightarrow> epoll_answer \<Rightarrow> nat \<Rightarrow> bool \<Rightarrow> bool \<Rightarrow> 'h poller \<Rightarrow> unit call \<times> 'h poller" where
  "epoll_rearm_fd cls ctl_ok hid hread hwrite p =
     (case descriptor_handler (holders p hid) of
        None \<Rightarrow> (Fault Null_Dereference, p)
      | Some d \<Rightarrow>
          epoll_ctl ctl_ok (Epoll_Mod (vfd cls (objects p d)) hid (armed_events hread hwrite)) p)"

definition epoll_rearm_handler ::
  "'h handler_class \<Rightarrow> epoll_answer \<Rightarrow> nat \<Rightarrow> 'h poller \<Rightarrow> unit call \<times> 'h poller" where
  "epoll_rearm_handler cls ctl_ok hid p =
     epoll_rearm_fd cls ctl_ok hid (handle_read (holders p hid)) (handle_write (holders p hid)) p"

text \<open>
  \<open>DescriptorHandler::rearm\<close> goes through the linked holders; it is declared \<open>throw()\<close>, so a
  refused \<open>epoll_ctl\<close> ends the loop (and the program).
\<close>

fun rearm_linked ::
  "'h handler_class \<Rightarrow> epoll_answer \<Rightarrow> nat list \<Rightarrow> bool \<Rightarrow> bool \<Rightarrow> 'h poller \<Rightarrow> unit call \<times> 'h poller" where
  "rearm_linked cls ctl_ok [] hread hwrite p = (Return (), p)"
| "rearm_linked cls ctl_ok (hid # hids) hread hwrite p =
     (case epoll_rearm_fd cls ctl_ok hid hread hwrite p of
        (Return _, p1) \<Rightarrow> rearm_linked cls ctl_ok hids hread hwrite p1
      | r \<Rightarrow> r)"

definition handler_rearm ::
  "'h handler_class \<Rightarrow> epoll_answer \<Rightarrow> nat \<Rightarrow> bool \<Rightarrow> bool \<Rightarrow> 'h poller \<Rightarrow> unit call \<times> 'h poller" where
  "handler_rearm cls ctl_ok d hread hwrite p =
     rearm_linked cls ctl_ok (linked p d) hread hwrite p"

definition reset_descriptor_handler :: "nat \<Rightarrow> 'h poller \<Rightarrow> 'h poller" where
  "reset_descriptor_handler hid p =
     (case descriptor_handler (holders p hid) of
        None \<Rightarrow> p
      | Some d \<Rightarrow>
          set_holder hid ((holders p hid)\<lparr>descriptor_handler := None\<rparr>)
            (p\<lparr>linked := (linked p)(d := unlink_holder hid (linked p d))\<rparr>))"

subsection \<open>\<open>handle_\<close>\<close>

text \<open>One call of \<open>read\<close> or \<open>write\<close> and the change of state it asks for.\<close>

definition call_handler ::
  "('h \<Rightarrow> 64 word call \<times> 'h) \<Rightarrow> nat \<Rightarrow> nat \<Rightarrow> 'h poller \<Rightarrow> bool call \<times> 'h poller" where
  "call_handler f hid d p =
     (case f (objects p d) of
        (r, obj) \<Rightarrow>
          let p1 = p\<lparr>objects := (objects p)(d := obj)\<rparr>
          in case r of
               Return state_modify \<Rightarrow>
                 (case apply_state_modify (holders p1 hid) state_modify of
                    (stop, h) \<Rightarrow> (Return stop, set_holder hid h p1))
             | Throw \<Rightarrow> (Throw, p1)
             | Fault x \<Rightarrow> (Fault x, p1))"

text \<open>The read part and the write part of a round; the result is whether to stop processing.\<close>

definition handle_read_part ::
  "'h handler_class \<Rightarrow> nat \<Rightarrow> nat \<Rightarrow> 'h poller \<Rightarrow> bool call \<times> 'h poller" where
  "handle_read_part cls hid d p =
     (if handle_read (holders p hid) then call_handler (vread cls) hid d p else (Return False, p))"

definition handle_write_part ::
  "'h handler_class \<Rightarrow> nat \<Rightarrow> nat \<Rightarrow> 'h poller \<Rightarrow> bool call \<times> 'h poller" where
  "handle_write_part cls hid d p =
     (if handle_write (holders p hid) then call_handler (vwrite cls) hid d p else (Return False, p))"

definition round_parts ::
  "'h handler_class \<Rightarrow> nat \<Rightarrow> nat \<Rightarrow> 'h poller \<Rightarrow> bool call \<times> 'h poller" where
  "round_parts cls hid d p =
     (case handle_read_part cls hid d p of
        (Return stop1, p1) \<Rightarrow>
          (case handle_write_part cls hid d p1 of
             (Return stop2, p2) \<Rightarrow> (Return (stop1 \<or> stop2), p2)
           | r \<Rightarrow> r)
      | r \<Rightarrow> r)"

text \<open>The closing of a handler.\<close>

definition close_handler ::
  "'h handler_class \<Rightarrow> epoll_answer \<Rightarrow> nat \<Rightarrow> nat \<Rightarrow> 'h poller \<Rightarrow> unit call \<times> 'h poller" where
  "close_handler cls ctl_ok hid d p =
     (let p1 = set_holder hid ((holders p hid)\<lparr>handling_finished := 1\<rparr>) p
      in case epoll_del_fd ctl_ok (vfd cls (objects p1 d)) p1 of
           (Return _, p2) \<Rightarrow>
             let p3 = p2\<lparr>objects := (objects p2)(d := vstopped cls (objects p2 d))\<rparr>;
                 p4 = reset_descriptor_handler hid p3;
                 p5 = p4\<lparr>poller_cleaner := cleaner_push hid (poller_cleaner p4)\<rparr>
             in (Return (), p5\<lparr>handlers := (handlers p5)(d := None)\<rparr>)
         | r \<Rightarrow> r)"

definition closed_both :: "holder \<Rightarrow> bool" where
  "closed_both h \<longleftrightarrow> read_closed h \<and> write_closed h"

definition add_in_progress :: "int \<Rightarrow> nat \<Rightarrow> 'h poller \<Rightarrow> 'h poller" where
  "add_in_progress n hid p =
     set_holder hid
       ((holders p hid)\<lparr>handle_in_progress := s32 (handle_in_progress (holders p hid) + n)\<rparr>) p"

text \<open>
  The \<open>do ... while\<close> loop, with \<open>prev_handle_in_progress\<close> asserted not to be negative. The result
  is \<open>stop_processing\<close>, \<open>rearm_fd\<close> and the last \<open>prev_handle_in_progress\<close>. Each list entry is the number of threads that arrive during
  a round; after the list nobody comes. The loop ends because every round takes one of the
  finitely many handles away; the fuel counts the rounds left.
\<close>

fun handle_loop ::
  "nat \<Rightarrow> 'h handler_class \<Rightarrow> epoll_answer \<Rightarrow> nat \<Rightarrow> nat \<Rightarrow> nat list \<Rightarrow> int \<Rightarrow> bool \<Rightarrow> bool \<Rightarrow>
    'h poller \<Rightarrow> (bool \<times> bool \<times> int) call option \<times> 'h poller" where
  "handle_loop 0 cls ctl_ok hid d arrivals prev stop rearm_fd p = (None, p)"
| "handle_loop (Suc fuel) cls ctl_ok hid d arrivals prev stop rearm_fd p =
     (if prev < 0 then (Some (Fault Assertion_Failed), p)
      else case round_parts cls hid d p of
        (Return stop1, p1) \<Rightarrow>
          if closed_both (holders p1 hid) then
            (case close_handler cls ctl_ok hid d p1 of
               (Return _, p2) \<Rightarrow> (Some (Return (stop \<or> stop1, rearm_fd, prev)), p2)
             | (Throw, p2) \<Rightarrow> (Some Throw, p2)
             | (Fault x, p2) \<Rightarrow> (Some (Fault x), p2))
          else
            let p2 = (case arrivals of [] \<Rightarrow> p1 | n # _ \<Rightarrow> add_in_progress (int n) hid p1);
                prev' = handle_in_progress (holders p2 hid);
                p3 = add_in_progress (- 1) hid p2
            in if prev' > 1
               then handle_loop fuel cls ctl_ok hid d (tl arrivals) prev' (stop \<or> stop1) True p3
               else (Some (Return (stop \<or> stop1, True, prev')), p3)
      | (Throw, p1) \<Rightarrow> (Some Throw, p1)
      | (Fault x, p1) \<Rightarrow> (Some (Fault x), p1))"

text \<open>\<open>release(thread_i)\<close> as a call.\<close>

definition release_thread :: "nat \<Rightarrow> 'h poller \<Rightarrow> unit call \<times> 'h poller" where
  "release_thread thread_i p =
     (case release thread_i (poller_cleaner p) of
        Inl x \<Rightarrow> (Fault x, p)
      | Inr c \<Rightarrow> (Return (), p\<lparr>poller_cleaner := c\<rparr>))"

definition handle_finish ::
  "'h handler_class \<Rightarrow> epoll_answer \<Rightarrow> nat \<Rightarrow> nat \<Rightarrow> bool \<Rightarrow> bool \<Rightarrow> int \<Rightarrow> 'h poller \<Rightarrow>
    bool call \<times> 'h poller" where
  "handle_finish cls ctl_ok thread_i hid stop rearm_fd prev p =
     (case (if rearm_fd then epoll_rearm_handler cls ctl_ok hid p else (Return (), p)) of
        (Return _, p1) \<Rightarrow>
          if prev < 0 then (Fault Assertion_Failed, p1)
          else (case release_thread thread_i p1 of
             (Return _, p2) \<Rightarrow> (Return stop, p2)
           | (Throw, p2) \<Rightarrow> (Throw, p2)
           | (Fault x, p2) \<Rightarrow> (Fault x, p2))
      | (Throw, p1) \<Rightarrow> (Throw, p1)
      | (Fault x, p1) \<Rightarrow> (Fault x, p1))"

definition handle ::
  "nat \<Rightarrow> 'h handler_class \<Rightarrow> epoll_answer \<Rightarrow> nat \<Rightarrow> nat \<Rightarrow> nat list \<Rightarrow> 'h poller \<Rightarrow>
    bool call option \<times> 'h poller" where
  "handle fuel cls ctl_ok thread_i hid arrivals p =
     (let prev = handle_in_progress (holders p hid);
          p1 = add_in_progress 1 hid p
      in if handling_finished (holders p1 hid) = 0 \<and> prev = 0 then
           (case descriptor_handler (holders p1 hid) of
              None \<Rightarrow> (Some (Fault Null_Dereference), p1)
            | Some d \<Rightarrow>
                (case handle_loop fuel cls ctl_ok hid d arrivals prev False False p1 of
                   (Some (Return (stop, rearm_fd, prev')), p2) \<Rightarrow>
                     (case handle_finish cls ctl_ok thread_i hid stop rearm_fd prev' p2 of
                        (r, p3) \<Rightarrow> (Some r, p3))
                 | (Some Throw, p2) \<Rightarrow> (Some Throw, p2)
                 | (Some (Fault x), p2) \<Rightarrow> (Some (Fault x), p2)
                 | (None, p2) \<Rightarrow> (None, p2)))
         else (case handle_finish cls ctl_ok thread_i hid False False prev p1 of
                 (r, p2) \<Rightarrow> (Some r, p2)))"

subsection \<open>\<open>process_\<close>\<close>

text \<open>
  One answer of \<open>epoll_wait\<close>: the holders its events name (each with the arrivals of other
  threads while it is handled), an interrupted call, or an error.
\<close>

datatype wait_answer =
    Wait_Events "(nat \<times> nat list) list"
  | Wait_Interrupted
  | Wait_Error

fun process_events ::
  "nat \<Rightarrow> 'h handler_class \<Rightarrow> epoll_answer \<Rightarrow> nat \<Rightarrow> (nat \<times> nat list) list \<Rightarrow> bool \<Rightarrow> 'h poller \<Rightarrow>
    bool call option \<times> 'h poller" where
  "process_events fuel cls ctl_ok thread_i [] stop p = (Some (Return stop), p)"
| "process_events fuel cls ctl_ok thread_i ((hid, arrivals) # events) stop p =
     (case handle fuel cls ctl_ok thread_i hid arrivals p of
        (Some (Return b), p1) \<Rightarrow> process_events fuel cls ctl_ok thread_i events (stop \<or> b) p1
      | r \<Rightarrow> r)"

text \<open>
  How \<open>process_\<close> ends: it returns on a stop, reports a caught exception to the callback, or runs
  into a fault; while the answers last it goes on waiting.
\<close>

datatype process_end = Process_Stopped | Process_Critical | Process_Fault fault | Process_Waiting

fun process ::
  "nat \<Rightarrow> 'h handler_class \<Rightarrow> epoll_answer \<Rightarrow> nat \<Rightarrow> wait_answer list \<Rightarrow> 'h poller \<Rightarrow>
    process_end option \<times> 'h poller" where
  "process fuel cls ctl_ok thread_i [] p = (Some Process_Waiting, p)"
| "process fuel cls ctl_ok thread_i (a # answers) p =
     (if a = Wait_Error then (Some Process_Critical, p)
      else let events = (case a of Wait_Events evs \<Rightarrow> evs | _ \<Rightarrow> [])
           in case process_events fuel cls ctl_ok thread_i events False p of
                (None, p1) \<Rightarrow> (None, p1)
              | (Some Throw, p1) \<Rightarrow> (Some Process_Critical, p1)
              | (Some (Fault x), p1) \<Rightarrow> (Some (Process_Fault x), p1)
              | (Some (Return stop), p1) \<Rightarrow>
                  if stop then (Some Process_Stopped, p1)
                  else (case release_thread thread_i p1 of
                          (Return _, p2) \<Rightarrow> process fuel cls ctl_ok thread_i answers p2
                        | (Throw, p2) \<Rightarrow> (Some Process_Critical, p2)
                        | (Fault x, p2) \<Rightarrow> (Some (Process_Fault x), p2)))"

subsection \<open>Adding handlers\<close>

definition link_new_holder :: "nat \<Rightarrow> 'h poller \<Rightarrow> nat \<times> 'h poller" where
  "link_new_holder d p =
     (let hid = next_holder p
      in (hid, (set_holder hid (holder_new d) p)
           \<lparr>next_holder := Suc hid, linked := (linked p)(d := link_holder hid (linked p d))\<rparr>))"

text \<open>
  \<open>add\<close>: a handler already in the map keeps its holder, and the new one is destroyed at the end
  of the call, which unlinks it.
\<close>

definition poller_add ::
  "'h handler_class \<Rightarrow> epoll_answer \<Rightarrow> nat \<Rightarrow> 'h poller \<Rightarrow> bool call \<times> 'h poller" where
  "poller_add cls ctl_ok d p =
     (case link_new_holder d p of
        (hid, p1) \<Rightarrow>
          if handlers p1 d = None then
            let p2 = p1\<lparr>handlers := (handlers p1)(d \<mapsto> hid)\<rparr>
            in case epoll_ctl ctl_ok
                      (Epoll_Add (vfd cls (objects p2 d)) hid (EPOLL_FLAGS OR EPOLLIN OR EPOLLOUT)) p2 of
                 (Return _, p3) \<Rightarrow> (Return True, p3)
               | (Throw, p3) \<Rightarrow> (Throw, p3)
               | (Fault x, p3) \<Rightarrow> (Fault x, p3)
          else (Return True, reset_descriptor_handler hid p1))"

text \<open>
  The constructor adds the stop handler, the object at the address \<open>stop_handler\<close>; the threads are
  the workers of the base class. The destructor asks for every descriptor to be removed, ignores
  the answers and drops the map; the order of an \<open>unordered_map\<close> is the argument \<open>order\<close>.
\<close>

definition poller_new ::
  "'h handler_class \<Rightarrow> epoll_answer \<Rightarrow> nat \<Rightarrow> (nat \<Rightarrow> 'h) \<Rightarrow> nat \<Rightarrow> bool call \<times> 'h poller" where
  "poller_new cls ctl_ok threads objs stop_handler =
     poller_add cls ctl_ok stop_handler
       \<lparr>holders = (\<lambda>_. holder_new 0), next_holder = 0, objects = objs, linked = (\<lambda>_. []),
        handlers = (\<lambda>_. None), epoll_log = [], poller_cleaner = cleaner_new threads\<rparr>"

definition poller_delete ::
  "'h handler_class \<Rightarrow> epoll_answer \<Rightarrow> nat list \<Rightarrow> 'h poller \<Rightarrow> 'h poller" where
  "poller_delete cls ctl_ok order p =
     (fold (\<lambda>d p. snd (epoll_ctl ctl_ok (Epoll_Del (vfd cls (objects p d))) p)) order p)
       \<lparr>handlers := (\<lambda>_. None)\<rparr>"

subsection \<open>\<open>Proxy\<close>\<close>

text \<open>
  A proxy holds the poller's address until \<open>detach_\<close>. \<open>lock_owner_\<close> takes a shared pointer to it.
  \<open>add\<close> drops the owner's result and returns \<open>true\<close>.
\<close>

record proxy =
  owner :: "nat option"

definition proxy_new :: "nat \<Rightarrow> proxy" where
  "proxy_new p = \<lparr>owner = Some p\<rparr>"

definition lock_owner :: "proxy \<Rightarrow> nat option" where
  "lock_owner x = owner x"

definition proxy_detach :: "proxy \<Rightarrow> proxy" where
  "proxy_detach x = x\<lparr>owner := None\<rparr>"

definition proxy_add ::
  "(nat \<Rightarrow> 's \<Rightarrow> bool call \<times> 's) \<Rightarrow> nat \<Rightarrow> proxy \<times> 's \<Rightarrow> bool call \<times> (proxy \<times> 's)" where
  "proxy_add owner_add d s =
     (case lock_owner (fst s) of
        None \<Rightarrow> (Return False, s)
      | Some _ \<Rightarrow>
          (case owner_add d (snd s) of
             (Return _, t) \<Rightarrow> (Return True, (fst s, t))
           | (Throw, t) \<Rightarrow> (Throw, (fst s, t))
           | (Fault x, t) \<Rightarrow> (Fault x, (fst s, t))))"

subsection \<open>\<open>DescriptorHandlerPollerPool\<close>\<close>

record 'h pool =
  pollers :: "'h poller list"
  poller_it :: nat

definition pool_new :: "'h poller list \<Rightarrow> 'h pool" where
  "pool_new ps = \<lparr>pollers = ps, poller_it = 0\<rparr>"

text \<open>The iterator of an empty list cannot be incremented.\<close>

definition pool_add ::
  "'h handler_class \<Rightarrow> epoll_answer \<Rightarrow> nat \<Rightarrow> 'h pool \<Rightarrow> bool call \<times> 'h pool" where
  "pool_add cls ctl_ok d q =
     (if poller_it q < length (pollers q) then
        let it = poller_it q;
            it' = (if Suc it = length (pollers q) then 0 else Suc it)
        in case poller_add cls ctl_ok d (pollers q ! it) of
             (r, p) \<Rightarrow> (r, q\<lparr>poller_it := it', pollers := (pollers q)[it := p]\<rparr>)
      else (Fault Invalid_Iterator, q))"

subsection \<open>What a round leaves alone\<close>

text \<open>
  Calling the handler changes its object and, of the holder, only what the flags say.
\<close>

definition touches :: "nat \<Rightarrow> nat \<Rightarrow> 'h poller \<Rightarrow> 'h poller \<Rightarrow> bool" where
  "touches hid d p p1 \<longleftrightarrow>
     (\<forall>x. x \<noteq> hid \<longrightarrow> holders p1 x = holders p x) \<and> (\<forall>x. x \<noteq> d \<longrightarrow> objects p1 x = objects p x) \<and>
     descriptor_handler (holders p1 hid) = descriptor_handler (holders p hid) \<and>
     handling_finished (holders p1 hid) = handling_finished (holders p hid) \<and>
     next_holder p1 = next_holder p \<and> linked p1 = linked p \<and> handlers p1 = handlers p \<and>
     epoll_log p1 = epoll_log p \<and> poller_cleaner p1 = poller_cleaner p"

definition same_progress :: "nat \<Rightarrow> 'h poller \<Rightarrow> 'h poller \<Rightarrow> bool" where
  "same_progress hid p p1 \<longleftrightarrow>
     handle_in_progress (holders p1 hid) = handle_in_progress (holders p hid)"

lemma touches_refl [simp]: "touches hid d p p"
  by (simp add: touches_def)

lemma touches_trans: "touches hid d p p1 \<Longrightarrow> touches hid d p1 p2 \<Longrightarrow> touches hid d p p2"
  by (simp add: touches_def)

lemma call_handler_touches:
  "touches hid d p (snd (call_handler f hid d p)) \<and>
    same_progress hid p (snd (call_handler f hid d p))"
proof -
  obtain r obj where r: "f (objects p d) = (r, obj)" by fastforce
  show ?thesis
  proof (cases r)
    case (Return w)
    obtain stop h where a: "apply_state_modify (holders p hid) w = (stop, h)" by fastforce
    then show ?thesis
      using r Return apply_state_modify_frame [of "holders p hid" w]
      by (simp add: call_handler_def touches_def same_progress_def set_holder_def Let_def)
  qed (simp_all add: call_handler_def touches_def same_progress_def r)
qed

lemma round_parts_touches:
  "touches hid d p (snd (round_parts cls hid d p)) \<and>
    same_progress hid p (snd (round_parts cls hid d p))"
proof -
  have r: "touches hid d p (snd (handle_read_part cls hid d p)) \<and>
      same_progress hid p (snd (handle_read_part cls hid d p))"
    by (simp add: handle_read_part_def call_handler_touches, simp add: same_progress_def)
  have w: "touches hid d q (snd (handle_write_part cls hid d q)) \<and>
      same_progress hid q (snd (handle_write_part cls hid d q))" for q
    by (simp add: handle_write_part_def call_handler_touches, simp add: same_progress_def)
  obtain c1 p1 where c1: "handle_read_part cls hid d p = (c1, p1)" by fastforce
  obtain c2 p2 where c2: "handle_write_part cls hid d p1 = (c2, p2)" by fastforce
  from r w [of p1] show ?thesis
    by (cases c1; cases c2)
      (auto simp: round_parts_def c1 c2 same_progress_def elim: touches_trans)
qed

text \<open>A class whose calls return, and never ask to close the reading.\<close>

definition returns_open :: "('h \<Rightarrow> 64 word call \<times> 'h) \<Rightarrow> bool" where
  "returns_open f \<longleftrightarrow> (\<forall>obj. \<exists>w obj'. f obj = (Return w, obj') \<and> \<not> flag_set w CLOSE_READ_HANDLE)"

definition keeps_open :: "'h handler_class \<Rightarrow> bool" where
  "keeps_open cls \<longleftrightarrow> returns_open (vread cls) \<and> returns_open (vwrite cls)"

lemma call_handler_open:
  assumes "returns_open f" and "\<not> read_closed (holders p hid)"
  shows "\<exists>stop p1. call_handler f hid d p = (Return stop, p1) \<and> \<not> read_closed (holders p1 hid)"
proof -
  obtain w obj where w: "f (objects p d) = (Return w, obj)" "\<not> flag_set w CLOSE_READ_HANDLE"
    using assms(1) unfolding returns_open_def by blast
  obtain stop h where a: "apply_state_modify (holders p hid) w = (stop, h)" by fastforce
  then have "\<not> read_closed h"
    using w assms(2) apply_state_modify_closed(1) [of "holders p hid" w] by simp
  then show ?thesis using w a by (simp add: call_handler_def set_holder_def Let_def)
qed

lemma round_parts_open:
  assumes "keeps_open cls" and "\<not> read_closed (holders p hid)"
  shows "\<exists>stop p1. round_parts cls hid d p = (Return stop, p1) \<and> \<not> read_closed (holders p1 hid)"
proof -
  have c: "returns_open (vread cls)" "returns_open (vwrite cls)"
    using assms(1) by (simp_all add: keeps_open_def)
  obtain s1 p1 where r: "handle_read_part cls hid d p = (Return s1, p1)"
    "\<not> read_closed (holders p1 hid)"
    using call_handler_open [OF c(1) assms(2), of d] assms(2)
    by (cases "handle_read (holders p hid)") (auto simp: handle_read_part_def)
  obtain s2 p2 where "handle_write_part cls hid d p1 = (Return s2, p2)"
    "\<not> read_closed (holders p2 hid)"
    using call_handler_open [OF c(2) r(2), of d] r(2)
    by (cases "handle_write (holders p1 hid)") (auto simp: handle_write_part_def)
  with r show ?thesis by (simp add: round_parts_def)
qed

lemma add_in_progress_simps [simp]:
  "holders (add_in_progress n hid p) hid =
    (holders p hid)\<lparr>handle_in_progress := s32 (handle_in_progress (holders p hid) + n)\<rparr>"
  "x \<noteq> hid \<Longrightarrow> holders (add_in_progress n hid p) x = holders p x"
  "objects (add_in_progress n hid p) = objects p"
  "next_holder (add_in_progress n hid p) = next_holder p"
  "linked (add_in_progress n hid p) = linked p"
  "handlers (add_in_progress n hid p) = handlers p"
  "epoll_log (add_in_progress n hid p) = epoll_log p"
  "poller_cleaner (add_in_progress n hid p) = poller_cleaner p"
  by (simp_all add: add_in_progress_def set_holder_def)

lemma touches_add_in_progress [simp]: "touches hid d p (add_in_progress n hid p)"
  by (simp add: touches_def)

text \<open>
  Every handle that another thread leaves behind is served by a round, and the loop ends with
  the counter at 0.
\<close>

lemma handle_loop_open:
  assumes "keeps_open cls" and "\<not> read_closed (holders p hid)" and "0 \<le> prev"
    and "handle_in_progress (holders p hid) = int c" and "1 \<le> c"
    and "c + sum_list arrivals < 2 ^ 31" and "c + sum_list arrivals \<le> fuel"
  shows "\<exists>stop' p'. handle_loop fuel cls ctl_ok hid d arrivals prev stop rearm_fd p =
      (Some (Return (stop', True, 1)), p') \<and>
    touches hid d p p' \<and> handle_in_progress (holders p' hid) = 0 \<and> \<not> read_closed (holders p' hid)"
  using assms(2-)
proof (induction fuel arbitrary: arrivals prev stop rearm_fd p c)
  case (Suc fuel)
  obtain s1 p1 where r: "round_parts cls hid d p = (Return s1, p1)" "\<not> read_closed (holders p1 hid)"
    using round_parts_open [OF assms(1) Suc.prems(1), of d] by blast
  then have t1: "touches hid d p p1" "handle_in_progress (holders p1 hid) = int c"
    using round_parts_touches [of hid d p cls] Suc.prems(3) by (simp_all add: same_progress_def)
  define n where "n = (case arrivals of [] \<Rightarrow> 0 | n # _ \<Rightarrow> n)"
  define p2 where "p2 = (case arrivals of [] \<Rightarrow> p1 | n # _ \<Rightarrow> add_in_progress (int n) hid p1)"
  define p3 where "p3 = add_in_progress (- 1) hid p2"
  have sum: "sum_list arrivals = n + sum_list (tl arrivals)"
    by (cases arrivals) (simp_all add: n_def)
  have p2: "handle_in_progress (holders p2 hid) = int (c + n)" "touches hid d p1 p2"
    "\<not> read_closed (holders p2 hid)"
    using t1 r(2) Suc.prems(5) sum
    by (cases arrivals; simp add: p2_def n_def s32_id)+
  have p3: "handle_in_progress (holders p3 hid) = int (c + n - 1)" "touches hid d p2 p3"
    "\<not> read_closed (holders p3 hid)"
    using p2 Suc.prems(4,5) sum by (simp_all add: p3_def s32_id of_nat_diff)
  have t: "touches hid d p p3" using t1(1) p2(2) p3(2) by (blast intro: touches_trans)
  have step: "handle_loop (Suc fuel) cls ctl_ok hid d arrivals prev stop rearm_fd p =
      (if int (c + n) > 1
       then handle_loop fuel cls ctl_ok hid d (tl arrivals) (int (c + n)) (stop \<or> s1) True p3
       else (Some (Return (stop \<or> s1, True, int (c + n))), p3))"
    using Suc.prems(2) r p2(1)
    by (simp add: closed_both_def p2_def [symmetric] p3_def [symmetric] Let_def)
  show ?case
  proof (cases "c + n > 1")
    case True
    have "\<exists>stop' p'. handle_loop fuel cls ctl_ok hid d (tl arrivals) (int (c + n)) (stop \<or> s1) True p3 =
        (Some (Return (stop', True, 1)), p') \<and>
      touches hid d p3 p' \<and> handle_in_progress (holders p' hid) = 0 \<and> \<not> read_closed (holders p' hid)"
      using True Suc.prems sum p3 by (intro Suc.IH [where c = "c + n - 1"]) simp_all
    then show ?thesis
      using True t unfolding step by (auto intro: touches_trans)
  next
    case False
    then have "c + n = 1" using Suc.prems(4) by simp
    then show ?thesis using t p3 unfolding step by simp
  qed
qed simp

lemma release_thread_ok:
  assumes "cleaner_inv (poller_cleaner p)" and "thread_i < length (release_array (poller_cleaner p))"
  shows "\<exists>c. release_thread thread_i p = (Return (), p\<lparr>poller_cleaner := c\<rparr>) \<and>
    release thread_i (poller_cleaner p) = Inr c \<and> cleaner_inv c \<and>
    length (release_array c) = length (release_array (poller_cleaner p))"
  using release_progress [OF assms] by (auto simp: release_thread_def)

text \<open>A handle that nobody joins, and whose round leaves the holder open: it ends with the counter back at 0 and
  the descriptor armed again for what the round left in the holder.\<close>

lemma handle_single_round:
  assumes "descriptor_handler (holders p hid) = Some d"
    and "handle_in_progress (holders p hid) = 0" and "handling_finished (holders p hid) = 0"
    and "round_parts cls hid d (add_in_progress 1 hid p) = (Return stop, p1)"
    and "\<not> closed_both (holders p1 hid)" and "0 < fuel"
    and "cleaner_inv (poller_cleaner p)" and "thread_i < length (release_array (poller_cleaner p))"
    and "\<forall>log request. ctl_ok log request"
  obtains p' where "handle fuel cls ctl_ok thread_i hid [] p = (Some (Return stop), p')"
    and "objects p' = objects p1"
    and "holders p' = (holders p1)(hid := (holders p1 hid)\<lparr>handle_in_progress := 0\<rparr>)"
    and "epoll_log p' = epoll_log p @ [Epoll_Mod (vfd cls (objects p1 d)) hid
      (armed_events (handle_read (holders p1 hid)) (handle_write (holders p1 hid)))]"
    and "handlers p' = handlers p" and "linked p' = linked p" and "cleaner_inv (poller_cleaner p')"
    and "length (release_array (poller_cleaner p')) = length (release_array (poller_cleaner p))"
proof -
  let ?p0 = "add_in_progress 1 hid p"
  have t: "touches hid d ?p0 p1" "same_progress hid ?p0 p1"
    using round_parts_touches [of hid d ?p0 cls] assms(4) by simp_all
  then have k: "descriptor_handler (holders p1 hid) = Some d" "handle_in_progress (holders p1 hid) = 1"
    "epoll_log p1 = epoll_log p" "poller_cleaner p1 = poller_cleaner p" "handlers p1 = handlers p" "linked p1 = linked p"
    using assms(1,2) by (simp_all add: touches_def same_progress_def s32_def)
  let ?p2 = "add_in_progress (- 1) hid p1"
  have p2: "holders ?p2 = (holders p1)(hid := (holders p1 hid)\<lparr>handle_in_progress := 0\<rparr>)"
    using k(2) by (simp add: add_in_progress_def set_holder_def s32_def)
  have loop: "handle_loop fuel cls ctl_ok hid d [] 0 False False ?p0 = (Some (Return (stop, True, 1)), ?p2)"
    using assms(4-6) k(2) by (cases fuel) simp_all
  let ?req = "Epoll_Mod (vfd cls (objects p1 d)) hid
    (armed_events (handle_read (holders p1 hid)) (handle_write (holders p1 hid)))"
  let ?p3 = "?p2\<lparr>epoll_log := epoll_log p @ [?req]\<rparr>"
  have rearm: "epoll_rearm_handler cls ctl_ok hid ?p2 = (Return (), ?p3)"
    using assms(9) k by (simp add: epoll_rearm_handler_def epoll_rearm_fd_def epoll_ctl_def)
  obtain c where c: "release_thread thread_i ?p3 = (Return (), ?p3\<lparr>poller_cleaner := c\<rparr>)"
    "cleaner_inv c" "length (release_array c) = length (release_array (poller_cleaner p))"
    using release_thread_ok [of ?p3 thread_i] assms(7,8) k(4) by auto
  have "handle fuel cls ctl_ok thread_i hid [] p = (Some (Return stop), ?p3\<lparr>poller_cleaner := c\<rparr>)"
    using assms(1-3) loop rearm c(1) by (simp add: handle_def handle_finish_def)
  then show thesis
    using c p2 k by (intro that [of "?p3\<lparr>poller_cleaner := c\<rparr>"]) simp_all
qed

subsection \<open>Properties of handling\<close>

text \<open>C1: \<open>handle_\<close> of an open handler whose calls return. Whatever number of other threads
  leave their handles behind meanwhile, the loop ends (one round for each of them is fuel
  enough), the counter is back at 0, so that the next event is handled, and the descriptor is
  armed again exactly once, after the last round, for what the flags of the last calls left in the holder.\<close>

theorem handle_serves_and_rearms:
  assumes "keeps_open cls" and "descriptor_handler (holders p hid) = Some d"
    and "handle_in_progress (holders p hid) = 0" and "handling_finished (holders p hid) = 0"
    and "\<not> read_closed (holders p hid)"
    and "sum_list arrivals < 2 ^ 31 - 1" and "sum_list arrivals < fuel"
    and "cleaner_inv (poller_cleaner p)" and "thread_i < length (release_array (poller_cleaner p))"
    and "\<forall>request. ctl_ok (epoll_log p) request"
  shows "\<exists>b p'. handle fuel cls ctl_ok thread_i hid arrivals p = (Some (Return b), p') \<and>
    handle_in_progress (holders p' hid) = 0 \<and>
    epoll_log p' = epoll_log p @ [Epoll_Mod (vfd cls (objects p' d)) hid
      (armed_events (handle_read (holders p' hid)) (handle_write (holders p' hid)))]"
proof -
  let ?p1 = "add_in_progress 1 hid p"
  have one: "s32 1 = 1" by (simp add: s32_def)
  obtain stop' p2 where p2: "handle_loop fuel cls ctl_ok hid d arrivals 0 False False ?p1 =
      (Some (Return (stop', True, 1)), p2)" "touches hid d ?p1 p2"
    "handle_in_progress (holders p2 hid) = 0"
    using handle_loop_open [OF assms(1), of ?p1 hid 0 1 arrivals fuel ctl_ok d False False]
      assms(3,5,6,7) by (auto simp: one)
  have d: "descriptor_handler (holders p2 hid) = Some d" "epoll_log p2 = epoll_log p"
    "poller_cleaner p2 = poller_cleaner p"
    using p2(2) assms(2) by (simp_all add: touches_def)
  let ?req = "Epoll_Mod (vfd cls (objects p2 d)) hid
    (armed_events (handle_read (holders p2 hid)) (handle_write (holders p2 hid)))"
  let ?p3 = "p2\<lparr>epoll_log := epoll_log p2 @ [?req]\<rparr>"
  have rearm: "epoll_rearm_handler cls ctl_ok hid p2 = (Return (), ?p3)"
    using assms(10) by (simp add: epoll_rearm_handler_def epoll_rearm_fd_def epoll_ctl_def d)
  obtain c where c: "release_thread thread_i ?p3 = (Return (), ?p3\<lparr>poller_cleaner := c\<rparr>)"
    using release_thread_ok [of ?p3 thread_i] assms(8,9) d(3) by auto
  have "handle fuel cls ctl_ok thread_i hid arrivals p =
      (Some (Return stop'), ?p3\<lparr>poller_cleaner := c\<rparr>)"
    using assms(2-4) p2(1) rearm c by (simp add: handle_def handle_finish_def)
  then show ?thesis using d(2) p2(3) by simp
qed

text \<open>A handler that counts its reads and stops writing, in a poller of two threads.\<close>

definition counting_class :: "nat handler_class" where
  "counting_class = \<lparr>vfd = (\<lambda>_. 5), vread = (\<lambda>n. (Return CONTINUE_HANDLE, Suc n)),
     vwrite = (\<lambda>n. (Return STOP_WRITE_HANDLE, n)), vstopped = id\<rparr>"

definition counting_poller :: "nat poller" where
  "counting_poller = snd (poller_new counting_class (\<lambda>_ _. True) 2 (\<lambda>_. 0) 3)"

lemma counting_class_open: "keeps_open counting_class"
  by (simp add: keeps_open_def returns_open_def counting_class_def flag_set_def state_change_defs)

lemma counting_poller_state:
  "descriptor_handler (holders counting_poller 0) = Some 3"
  "handle_in_progress (holders counting_poller 0) = 0"
  "handling_finished (holders counting_poller 0) = 0"
  "\<not> read_closed (holders counting_poller 0)"
  "poller_cleaner counting_poller = cleaner_new 2"
  "length (epoll_log counting_poller) = 1"
  by (simp_all add: counting_poller_def poller_new_def poller_add_def link_new_holder_def
    epoll_ctl_def holder_new_def set_holder_def Let_def)

lemma cleaner_new_inv_2: "cleaner_inv (cleaner_new 2)"
  by (rule cleaner_inv_new) simp_all

theorem handle_serves_and_rearms_witness:
  "\<exists>b p'. handle 10 counting_class (\<lambda>_ _. True) 1 0 [2, 0, 1] counting_poller =
      (Some (Return b), p') \<and> handle_in_progress (holders p' 0) = 0 \<and>
    length (epoll_log p') = 2"
proof -
  have "1 < length (release_array (poller_cleaner counting_poller))"
    by (simp add: counting_poller_state(5)) (simp add: cleaner_new_def)
  then obtain b p' where "handle 10 counting_class (\<lambda>_ _. True) 1 0 [2, 0, 1] counting_poller =
      (Some (Return b), p')" "handle_in_progress (holders p' 0) = 0"
    "epoll_log p' = epoll_log counting_poller @ [Epoll_Mod (vfd counting_class (objects p' 3)) 0
      (armed_events (handle_read (holders p' 0)) (handle_write (holders p' 0)))]"
    using handle_serves_and_rearms [OF counting_class_open counting_poller_state(1-4),
        of "[2, 0, 1]" 10 1 "\<lambda>_ _. True"]
    by (auto simp: counting_poller_state(5) cleaner_new_inv_2)
  then show ?thesis using counting_poller_state(6) by auto
qed

lemma handle_delegated:
  fixes p :: "'h poller"
  assumes "handle_in_progress (holders p hid) \<noteq> 0 \<or> handling_finished (holders p hid) \<noteq> 0"
  shows "objects (snd (handle fuel cls ctl_ok thread_i hid arrivals p)) = objects p \<and>
    epoll_log (snd (handle fuel cls ctl_ok thread_i hid arrivals p)) = epoll_log p \<and>
    handlers (snd (handle fuel cls ctl_ok thread_i hid arrivals p)) = handlers p \<and>
    holders (snd (handle fuel cls ctl_ok thread_i hid arrivals p)) =
      (holders p)(hid := (holders p hid)
        \<lparr>handle_in_progress := s32 (handle_in_progress (holders p hid) + 1)\<rparr>)"
proof -
  let ?p1 = "add_in_progress 1 hid p"
  obtain r p2 where f: "handle_finish cls ctl_ok thread_i hid False False
      (handle_in_progress (holders p hid)) ?p1 = (r, p2)"
    by fastforce
  have "handle fuel cls ctl_ok thread_i hid arrivals p = (Some r, p2)"
    using assms f by (auto simp: handle_def Let_def)
  moreover have "\<exists>c. p2 = ?p1\<lparr>poller_cleaner := c\<rparr>"
  proof -
    have same: "\<exists>c. q = q\<lparr>poller_cleaner := c\<rparr>" for q :: "'h poller"
      by (rule exI [of _ "poller_cleaner q"]) simp
    show ?thesis
      using f same [of ?p1]
      by (auto simp: handle_finish_def release_thread_def split: if_splits sum.splits)
  qed
  ultimately show ?thesis by (auto simp: add_in_progress_def set_holder_def)
qed

lemma round_parts_read_throws:
  assumes "handle_read (holders p hid)" and "vread cls (objects p d) = (Throw, obj)"
  shows "round_parts cls hid d p = (Throw, p\<lparr>objects := (objects p)(d := obj)\<rparr>)"
  using assms by (simp add: round_parts_def handle_read_part_def call_handler_def)

text \<open>When \<open>read\<close> of a handler throws, \<open>handle_\<close> lets the exception out without taking back its
  own handle: \<open>handle_in_progress\<close> stays positive, and from then on no thread that gets an event of the
  holder calls the handler or arms the descriptor again.\<close>

theorem throw_wedges_holder:
  assumes "descriptor_handler (holders p hid) = Some d"
    and "handle_in_progress (holders p hid) = 0" and "handling_finished (holders p hid) = 0"
    and "handle_read (holders p hid)" and "vread cls (objects p d) = (Throw, obj)" and "0 < fuel"
  shows "\<exists>p'. handle fuel cls ctl_ok thread_i hid arrivals p = (Some Throw, p') \<and>
    handle_in_progress (holders p' hid) = 1 \<and>
    (\<forall>fuel' thread' arrivals'.
      objects (snd (handle fuel' cls ctl_ok thread' hid arrivals' p')) = objects p' \<and>
      epoll_log (snd (handle fuel' cls ctl_ok thread' hid arrivals' p')) = epoll_log p')"
proof -
  let ?p1 = "add_in_progress 1 hid p"
  let ?p2 = "?p1\<lparr>objects := (objects p)(d := obj)\<rparr>"
  have "round_parts cls hid d ?p1 = (Throw, ?p2)"
    using round_parts_read_throws [of ?p1 hid cls d obj] assms(4,5) by simp
  then have "handle fuel cls ctl_ok thread_i hid arrivals p = (Some Throw, ?p2)"
    using assms(1-3,6) by (cases fuel) (simp_all add: handle_def)
  moreover have "handle_in_progress (holders ?p2 hid) = 1"
    using assms(2) by (simp add: s32_def)
  moreover from this have "objects (snd (handle fuel' cls ctl_ok thread' hid arrivals' ?p2)) = objects ?p2 \<and>
      epoll_log (snd (handle fuel' cls ctl_ok thread' hid arrivals' ?p2)) = epoll_log ?p2"
    for fuel' thread' arrivals'
    using handle_delegated [of ?p2 hid] by simp
  ultimately show ?thesis by blast
qed

theorem throw_wedges_holder_witness:
  "handle_in_progress (holders (snd (handle 1 (counting_class\<lparr>vread := \<lambda>n. (Throw, n)\<rparr>)
      (\<lambda>_ _. True) 0 0 [] counting_poller)) 0) = 1"
proof -
  have "handle_read (holders counting_poller 0)"
    by (simp add: counting_poller_def poller_new_def poller_add_def link_new_holder_def
      epoll_ctl_def holder_new_def set_holder_def Let_def)
  from throw_wedges_holder [OF counting_poller_state(1-3) this,
      of "counting_class\<lparr>vread := \<lambda>n. (Throw, n)\<rparr>" _ 1 "\<lambda>_ _. True" 0 "[]"]
  show ?thesis by auto
qed

lemma close_handler_eq:
  assumes "ctl_ok (epoll_log p) (Epoll_Del (vfd cls (objects p d)))"
    and "descriptor_handler (holders p hid) = Some d"
  shows "close_handler cls ctl_ok hid d p =
    (Return (), p\<lparr>holders := (holders p)(hid := (holders p hid)
        \<lparr>handling_finished := 1, descriptor_handler := None\<rparr>),
      objects := (objects p)(d := vstopped cls (objects p d)),
      linked := (linked p)(d := unlink_holder hid (linked p d)),
      epoll_log := epoll_log p @ [Epoll_Del (vfd cls (objects p d))],
      poller_cleaner := cleaner_push hid (poller_cleaner p),
      handlers := (handlers p)(d := None)\<rparr>)"
  using assms
  by (simp add: close_handler_def epoll_del_fd_def epoll_ctl_def reset_descriptor_handler_def
    set_holder_def Let_def)

lemma release_keeps_waiting:
  assumes "cleaner_inv c" and "i < length (release_array c)" and "release i c = Inr c'"
    and "obj \<in> set (free_candidates c)"
  shows "obj \<in> set (free_candidates c') \<union> set (free c')"
  using assms(1,2)
proof (cases rule: release_cases)
  case finish
  then show ?thesis using assms(3,4) by simp
qed (use assms(3,4) in auto)

text \<open>A handle whose first round leaves the holder closed for reading and writing.\<close>

lemma handle_closing_round:
  assumes "descriptor_handler (holders p hid) = Some d"
    and "handle_in_progress (holders p hid) = 0" and "handling_finished (holders p hid) = 0"
    and "round_parts cls hid d (add_in_progress 1 hid p) = (Return stop, p1)"
    and "closed_both (holders p1 hid)" and "0 < fuel"
    and "ctl_ok (epoll_log p) (Epoll_Del (vfd cls (objects p1 d)))"
    and "cleaner_inv (poller_cleaner p)" and "thread_i < length (release_array (poller_cleaner p))"
  obtains p' where "handle fuel cls ctl_ok thread_i hid arrivals p = (Some (Return stop), p')"
    and "epoll_log p' = epoll_log p @ [Epoll_Del (vfd cls (objects p1 d))]"
    and "handlers p' = (handlers p)(d := None)" and "linked p' = (linked p)(d := unlink_holder hid (linked p d))"
    and "descriptor_handler (holders p' hid) = None" and "handling_finished (holders p' hid) = 1"
    and "hid \<in> set (free_candidates (poller_cleaner p')) \<union> set (free (poller_cleaner p'))"
    and "objects p' = (objects p1)(d := vstopped cls (objects p1 d))"
proof -
  let ?p0 = "add_in_progress 1 hid p"
  have t: "touches hid d ?p0 p1" "same_progress hid ?p0 p1"
    using round_parts_touches [of hid d ?p0 cls] assms(4) by simp_all
  have f: "descriptor_handler (holders p1 hid) = Some d" "epoll_log p1 = epoll_log p"
    "linked p1 = linked p" "poller_cleaner p1 = poller_cleaner p" "handlers p1 = handlers p"
    using t assms(1) by (simp_all add: touches_def)
  let ?p2 = "p1\<lparr>holders := (holders p1)(hid := (holders p1 hid)
        \<lparr>handling_finished := 1, descriptor_handler := None\<rparr>),
      objects := (objects p1)(d := vstopped cls (objects p1 d)),
      linked := (linked p1)(d := unlink_holder hid (linked p1 d)),
      epoll_log := epoll_log p1 @ [Epoll_Del (vfd cls (objects p1 d))],
      poller_cleaner := cleaner_push hid (poller_cleaner p1),
      handlers := (handlers p1)(d := None)\<rparr>"
  have close: "close_handler cls ctl_ok hid d p1 = (Return (), ?p2)"
    using assms(7) f by (intro close_handler_eq) simp_all
  have inv: "cleaner_inv (poller_cleaner ?p2)"
    "thread_i < length (release_array (poller_cleaner ?p2))"
    using assms(8,9) f(4) cleaner_inv_push by (simp_all add: cleaner_push_def cleaner_inv_def)
  obtain c where c: "release_thread thread_i ?p2 = (Return (), ?p2\<lparr>poller_cleaner := c\<rparr>)"
    and rel: "release thread_i (poller_cleaner ?p2) = Inr c"
    using release_thread_ok [OF inv] by blast
  have "hid \<in> set (free_candidates (poller_cleaner ?p2))" by (simp add: cleaner_push_def)
  then have wait: "hid \<in> set (free_candidates c) \<union> set (free c)"
    by (rule release_keeps_waiting [OF inv rel])
  have "handle fuel cls ctl_ok thread_i hid arrivals p = (Some (Return stop), ?p2\<lparr>poller_cleaner := c\<rparr>)"
    using assms(1-6) close c
    by (cases fuel) (simp_all add: handle_def handle_finish_def)
  then show thesis using f wait by (intro that [of "?p2\<lparr>poller_cleaner := c\<rparr>"]) simp_all
qed

text \<open>C7: when the first round of \<open>handle_\<close> leaves the holder closed for reading and writing, the
  descriptor is removed from the poll set and not armed again, the handler is erased from the
  map and unlinked, the holder keeps no reference to it, waits in the cleaner, and no later event
  of the holder reaches the handler.\<close>

theorem handle_closes:
  assumes "descriptor_handler (holders p hid) = Some d"
    and "handle_in_progress (holders p hid) = 0" and "handling_finished (holders p hid) = 0"
    and "round_parts cls hid d (add_in_progress 1 hid p) = (Return stop, p1)"
    and "closed_both (holders p1 hid)" and "distinct (linked p d)" and "0 < fuel"
    and "ctl_ok (epoll_log p) (Epoll_Del (vfd cls (objects p1 d)))"
    and "cleaner_inv (poller_cleaner p)" and "thread_i < length (release_array (poller_cleaner p))"
  shows "\<exists>p'. handle fuel cls ctl_ok thread_i hid arrivals p = (Some (Return stop), p') \<and>
    epoll_log p' = epoll_log p @ [Epoll_Del (vfd cls (objects p1 d))] \<and>
    handlers p' d = None \<and> hid \<notin> set (linked p' d) \<and>
    descriptor_handler (holders p' hid) = None \<and>
    hid \<in> set (free_candidates (poller_cleaner p')) \<union> set (free (poller_cleaner p')) \<and>
    objects p' d = vstopped cls (objects p1 d) \<and>
    (\<forall>fuel' thread' arrivals'.
      objects (snd (handle fuel' cls ctl_ok thread' hid arrivals' p')) = objects p')"
proof -
  obtain p' where p': "handle fuel cls ctl_ok thread_i hid arrivals p = (Some (Return stop), p')"
    "epoll_log p' = epoll_log p @ [Epoll_Del (vfd cls (objects p1 d))]"
    "handlers p' = (handlers p)(d := None)" "linked p' = (linked p)(d := unlink_holder hid (linked p d))"
    "descriptor_handler (holders p' hid) = None" "handling_finished (holders p' hid) = 1"
    "hid \<in> set (free_candidates (poller_cleaner p')) \<union> set (free (poller_cleaner p'))"
    "objects p' = (objects p1)(d := vstopped cls (objects p1 d))"
    using handle_closing_round [where ctl_ok = ctl_ok and arrivals = arrivals, OF assms(1-5,7-10)] by metis
  moreover have "objects (snd (handle fuel' cls ctl_ok thread' hid arrivals' p')) = objects p'"
    for fuel' thread' arrivals'
    using handle_delegated [of p' hid] p'(6) by simp
  ultimately show ?thesis using assms(6) by auto
qed

text \<open>A handler that closes both directions on its second read.\<close>

definition closing_class :: "nat handler_class" where
  "closing_class = \<lparr>vfd = (\<lambda>_. 5),
     vread = (\<lambda>n. (Return (if n = 0 then CONTINUE_HANDLE
       else CLOSE_READ_HANDLE OR CLOSE_WRITE_HANDLE), Suc n)),
     vwrite = (\<lambda>n. (Return STOP_WRITE_HANDLE, n)), vstopped = (\<lambda>n. n + 100)\<rparr>"

definition closing_poller :: "nat \<Rightarrow> nat poller" where
  "closing_poller n = snd (poller_new closing_class (\<lambda>_ _. True) 2 (\<lambda>_. n) 3)"

lemma closing_poller_state:
  "descriptor_handler (holders (closing_poller n) 0) = Some 3"
  "handle_in_progress (holders (closing_poller n) 0) = 0"
  "handling_finished (holders (closing_poller n) 0) = 0"
  "distinct (linked (closing_poller n) 3)"
  "poller_cleaner (closing_poller n) = cleaner_new 2"
  "objects (closing_poller n) = (\<lambda>_. n)"
  "handle_read (holders (closing_poller n) 0)" "handle_write (holders (closing_poller n) 0)"
  "\<not> read_closed (holders (closing_poller n) 0)" "\<not> write_closed (holders (closing_poller n) 0)"
  by (simp_all add: closing_poller_def poller_new_def poller_add_def link_new_holder_def
    epoll_ctl_def holder_new_def set_holder_def Let_def link_holder_def)

lemma call_handler_return:
  "f (objects p d) = (Return w, obj) \<Longrightarrow> call_handler f hid d p =
    (Return (flag_set w STOP_PROCESSING), set_holder hid (snd (apply_state_modify (holders p hid) w))
      (p\<lparr>objects := (objects p)(d := obj)\<rparr>))"
  using apply_state_modify_stop [of "holders p hid" w]
  by (cases "apply_state_modify (holders p hid) w") (simp add: call_handler_def Let_def)

text \<open>One round of the closing handler, on an open holder armed for reading.\<close>

lemma closing_round:
  assumes "handle_read (holders p 0)" and "\<not> read_closed (holders p 0)" and "\<not> write_closed (holders p 0)"
  defines "r \<equiv> round_parts closing_class 0 3 p"
  shows "r = (Return False, snd r)" and "closed_both (holders (snd r) 0) \<longleftrightarrow> objects p 3 \<noteq> 0"
    and "objects (snd r) 3 = Suc (objects p 3)"
    and "objects p 3 = 0 \<Longrightarrow> handle_read (holders (snd r) 0) \<and>
      \<not> read_closed (holders (snd r) 0) \<and> \<not> write_closed (holders (snd r) 0)"
proof -
  have c: "vread closing_class n = (Return (if n = 0 then CONTINUE_HANDLE
       else CLOSE_READ_HANDLE OR CLOSE_WRITE_HANDLE), Suc n)"
    "vwrite closing_class n = (Return STOP_WRITE_HANDLE, n)" for n
    by (simp_all add: closing_class_def)
  have f: "\<not> flag_set STOP_WRITE_HANDLE x" if "x \<in> {STOP_PROCESSING, CLOSE_READ_HANDLE,
      CLOSE_WRITE_HANDLE, START_READ_HANDLE, STOP_READ_HANDLE, START_WRITE_HANDLE}" for x
    using that by (auto simp: flag_set_def state_change_defs)
  have g: "\<not> flag_set CONTINUE_HANDLE x" for x by (simp add: flag_set_def state_change_defs)
  have h: "\<not> flag_set (CLOSE_READ_HANDLE OR CLOSE_WRITE_HANDLE) STOP_PROCESSING"
    "flag_set (CLOSE_READ_HANDLE OR CLOSE_WRITE_HANDLE) CLOSE_READ_HANDLE"
    "flag_set (CLOSE_READ_HANDLE OR CLOSE_WRITE_HANDLE) CLOSE_WRITE_HANDLE"
    by (simp_all add: flag_set_def state_change_defs)
  define n where "n = objects p 3"
  obtain p1 where p1: "handle_read_part closing_class 0 3 p = (Return False, p1)"
    "read_closed (holders p1 0) \<longleftrightarrow> n \<noteq> 0" "write_closed (holders p1 0) \<longleftrightarrow> n \<noteq> 0"
    "n = 0 \<longrightarrow> handle_read (holders p1 0)" "objects p1 3 = Suc n"
    using assms(1-3)
    by (cases "n = 0") (simp_all add: handle_read_part_def call_handler_return [OF c(1)] g h
      set_holder_def n_def)
  obtain p2 where p2: "handle_write_part closing_class 0 3 p1 = (Return False, p2)"
    "read_closed (holders p2 0) = read_closed (holders p1 0)"
    "write_closed (holders p2 0) = write_closed (holders p1 0)"
    "handle_read (holders p2 0) = handle_read (holders p1 0)" "objects p2 3 = objects p1 3"
    by (cases "handle_write (holders p1 0)") (simp_all add: handle_write_part_def
      call_handler_return [OF c(2)] f set_holder_def)
  have "r = (Return False, p2)" by (simp add: r_def round_parts_def p1(1) p2(1))
  then show "r = (Return False, snd r)" and "closed_both (holders (snd r) 0) \<longleftrightarrow> objects p 3 \<noteq> 0"
    and "objects (snd r) 3 = Suc (objects p 3)"
    and "objects p 3 = 0 \<Longrightarrow> handle_read (holders (snd r) 0) \<and>
      \<not> read_closed (holders (snd r) 0) \<and> \<not> write_closed (holders (snd r) 0)"
    using p1 p2 by (simp_all add: closed_both_def n_def)
qed

theorem handle_closes_witness:
  "\<exists>p'. handle 5 closing_class (\<lambda>_ _. True) 0 0 [] (closing_poller 1) = (Some (Return False), p') \<and>
    handlers p' 3 = None \<and> objects p' 3 = 102"
proof -
  obtain p1 where p1: "round_parts closing_class 0 3 (add_in_progress 1 0 (closing_poller 1)) =
      (Return False, p1)" "closed_both (holders p1 0)" "objects p1 3 = 2"
    using closing_round [of "add_in_progress 1 0 (closing_poller 1)"] closing_poller_state [of 1]
    by simp
  have "0 < length (release_array (poller_cleaner (closing_poller 1)))"
    by (simp add: closing_poller_state(5)) (simp add: cleaner_new_def)
  from handle_closes [OF closing_poller_state(1-3) p1(1,2) closing_poller_state(4), of 5
      "\<lambda>_ _. True" 0 "[]"] this
  obtain p' where "handle 5 closing_class (\<lambda>_ _. True) 0 0 [] (closing_poller 1) =
      (Some (Return False), p')" "handlers p' 3 = None" "objects p' 3 = vstopped closing_class 2"
    by (auto simp: p1(3) closing_poller_state(5) cleaner_new_inv_2)
  then show ?thesis by (auto simp: closing_class_def)
qed

text \<open>C8: the flag \<open>rearm_fd\<close> outlives the close. When a thread left its handle during a round that kept
  the holder open, and the next round closes it, \<open>handle_\<close> goes on to arm the holder it has just
  reset and reads the descriptor through the null handler.\<close>

theorem close_in_later_round_faults:
  assumes "descriptor_handler (holders p hid) = Some d"
    and "handle_in_progress (holders p hid) = 0" and "handling_finished (holders p hid) = 0"
    and "round_parts cls hid d (add_in_progress 1 hid p) = (Return stop1, p1)"
    and "\<not> closed_both (holders p1 hid)" and "0 < n" and "int n < 2 ^ 31 - 1"
    and "round_parts cls hid d (add_in_progress (- 1) hid (add_in_progress (int n) hid p1)) =
      (Return stop2, p2)"
    and "closed_both (holders p2 hid)" and "\<forall>log. ctl_ok log (Epoll_Del (vfd cls (objects p2 d)))"
    and "2 \<le> fuel"
  shows "fst (handle fuel cls ctl_ok thread_i hid (n # arrivals) p) =
    Some (Fault Null_Dereference)"
proof -
  let ?p0 = "add_in_progress 1 hid p"
  let ?q = "add_in_progress (int n) hid p1"
  let ?q' = "add_in_progress (- 1) hid ?q"
  obtain fuel' where fuel: "fuel = Suc (Suc fuel')"
    using assms(11) by (auto simp: numeral_2_eq_2 Suc_le_eq dest!: gr0_implies_Suc less_imp_Suc_add)
  have "touches hid d ?p0 p1" "same_progress hid ?p0 p1"
    using round_parts_touches [of hid d ?p0 cls] assms(4) by simp_all
  then have in1: "handle_in_progress (holders p1 hid) = 1" "descriptor_handler (holders p1 hid) = Some d"
    using assms(1,2) by (simp_all add: touches_def same_progress_def s32_def)
  have "touches hid d ?q' p2"
    using round_parts_touches [of hid d ?q' cls] assms(8) by simp
  then have d2: "descriptor_handler (holders p2 hid) = Some d"
    using in1(2) by (simp add: touches_def)
  have many: "handle_in_progress (holders ?q hid) > 1"
    using in1(1) assms(6,7) by (simp add: s32_id)
  obtain p3 where p3: "close_handler cls ctl_ok hid d p2 = (Return (), p3)"
    "descriptor_handler (holders p3 hid) = None"
    using close_handler_eq [of ctl_ok p2 cls d hid] d2 assms(10) by simp
  have "handle_loop fuel cls ctl_ok hid d (n # arrivals) 0 False False ?p0 =
      (Some (Return (stop1 \<or> stop2, True, handle_in_progress (holders ?q hid))), p3)"
    using assms(4,5,8,9) many p3(1) by (simp add: fuel Let_def)
  then show ?thesis
    using assms(1-3) p3(2)
    by (simp add: handle_def handle_finish_def epoll_rearm_handler_def epoll_rearm_fd_def)
qed

theorem close_in_later_round_faults_witness:
  "fst (handle 5 closing_class (\<lambda>_ _. True) 0 0 [1] (closing_poller 0)) =
    Some (Fault Null_Dereference)"
proof -
  let ?p = "add_in_progress 1 0 (closing_poller 0)"
  let ?p1 = "snd (round_parts closing_class 0 3 ?p)"
  let ?q = "add_in_progress (- 1) 0 (add_in_progress (int 1) 0 ?p1)"
  have p: "handle_read (holders ?p 0)" "\<not> read_closed (holders ?p 0)" "\<not> write_closed (holders ?p 0)"
    "objects ?p 3 = 0"
    by (simp_all add: closing_poller_state)
  note r1 = closing_round [OF p(1-3)]
  have q: "handle_read (holders ?q 0)" "\<not> read_closed (holders ?q 0)" "\<not> write_closed (holders ?q 0)"
    "objects ?q 3 = 1"
    using r1(3,4) p(4) by simp_all
  note r2 = closing_round [OF q(1-3)]
  have "\<not> closed_both (holders ?p1 0)" "closed_both (holders (snd (round_parts closing_class 0 3 ?q)) 0)"
    using r1(2) r2(2) p(4) q(4) by simp_all
  note closed = this
  show ?thesis
    by (rule close_in_later_round_faults [OF closing_poller_state(1-3) r1(1) closed(1) _ _ r2(1) closed(2)])
      simp_all
qed

end
