(* ===== verification/PollerLinks.thy ===== *)
theory PollerLinks
  imports Poller
begin

section \<open>The map, the holders and the links of a poller agree\<close>

text \<open>
  Three structures of a poller say which holder belongs to which handler: the map \<open>handlers_\<close>, the
  pointer of the holder and the list of holders linked to the handler. The relation below is any
  sequence of the poller's operations (whatever they answer: exceptions and faults included);
  the theorems say that the three agree in every state it reaches, so that \<open>rearm\<close> of a handler
  (used to wake a connection) reaches exactly the holder the poll set knows, and never a null one.
\<close>

definition links_agree :: "'h poller \<Rightarrow> bool" where
  "links_agree p \<longleftrightarrow>
     (\<forall>hid d. hid < next_holder p \<and> descriptor_handler (holders p hid) = Some d \<longleftrightarrow>
       handlers p d = Some hid) \<and>
     (\<forall>d. linked p d = (case handlers p d of None \<Rightarrow> [] | Some hid \<Rightarrow> [hid]))"

inductive poller_step :: "'h handler_class \<Rightarrow> epoll_answer \<Rightarrow> 'h poller \<Rightarrow> 'h poller \<Rightarrow> bool"
  for cls ctl_ok where
  poller_step_add: "poller_step cls ctl_ok p (snd (poller_add cls ctl_ok d p))"
| poller_step_handle: "hid < next_holder p \<Longrightarrow>
    poller_step cls ctl_ok p (snd (handle fuel cls ctl_ok thread_i hid arrivals p))"
| poller_step_rearm: "poller_step cls ctl_ok p (snd (handler_rearm cls ctl_ok d hread hwrite p))"
| poller_step_release: "poller_step cls ctl_ok p (snd (release_thread thread_i p))"

inductive poller_reachable :: "'h handler_class \<Rightarrow> epoll_answer \<Rightarrow> 'h poller \<Rightarrow> bool"
  for cls ctl_ok where
  poller_init: "poller_reachable cls ctl_ok (snd (poller_new cls ctl_ok threads objs d))"
| poller_next: "poller_reachable cls ctl_ok p \<Longrightarrow> poller_step cls ctl_ok p p' \<Longrightarrow>
    poller_reachable cls ctl_ok p'"

lemma links_agree_cong:
  assumes "links_agree p" and "next_holder p' = next_holder p" and "linked p' = linked p"
    and "handlers p' = handlers p"
    and "\<And>x. descriptor_handler (holders p' x) = descriptor_handler (holders p x)"
  shows "links_agree p'"
  using assms(1) unfolding links_agree_def assms(2-5) .

lemma links_agree_touches: "links_agree p \<Longrightarrow> touches hid d p p' \<Longrightarrow> links_agree p'"
proof (rule links_agree_cong [of p])
  fix x assume "touches hid d p p'"
  then show "descriptor_handler (holders p' x) = descriptor_handler (holders p x)"
    by (cases "x = hid") (simp_all add: touches_def)
qed (simp_all add: touches_def)

lemma links_agree_log [simp]: "links_agree (p\<lparr>epoll_log := l\<rparr>) \<longleftrightarrow> links_agree p"
  by (simp add: links_agree_def)

lemma links_agree_cleaner [simp]: "links_agree (p\<lparr>poller_cleaner := c\<rparr>) \<longleftrightarrow> links_agree p"
  by (simp add: links_agree_def)

lemma links_agree_objects [simp]: "links_agree (p\<lparr>objects := f\<rparr>) \<longleftrightarrow> links_agree p"
  by (simp add: links_agree_def)

lemma links_agree_add_in_progress [simp]: "links_agree (add_in_progress n hid p) \<longleftrightarrow> links_agree p"
  by (auto simp: links_agree_def add_in_progress_def set_holder_def)

lemma links_agree_ctl [simp]: "links_agree (snd (epoll_ctl ctl_ok r p)) \<longleftrightarrow> links_agree p"
  by (simp add: epoll_ctl_def)

lemma links_agree_rearm [simp]:
  "links_agree (snd (epoll_rearm_fd cls ctl_ok hid hread hwrite p)) \<longleftrightarrow> links_agree p"
  by (simp add: epoll_rearm_fd_def split: option.splits)

lemma links_agree_release [simp]: "links_agree (snd (release_thread t p)) \<longleftrightarrow> links_agree p"
  by (simp add: release_thread_def split: sum.splits)

lemma links_agree_finished [simp]:
  "links_agree (set_holder hid ((holders p hid)\<lparr>handling_finished := n\<rparr>) p) \<longleftrightarrow> links_agree p"
  by (auto simp: links_agree_def set_holder_def)

text \<open>Unlinking a holder and erasing its handler, together.\<close>

lemma links_agree_erase:
  assumes "links_agree p" and "hid < next_holder p" and "descriptor_handler (holders p hid) = Some d"
  shows "links_agree ((reset_descriptor_handler hid p)\<lparr>handlers := (handlers p)(d := None)\<rparr>)"
proof -
  have h: "handlers p d = Some hid" using assms by (auto simp: links_agree_def)
  then have l: "linked p d = [hid]" using assms(1) by (simp add: links_agree_def)
  have agree: "handlers p x = Some y \<longleftrightarrow> y < next_holder p \<and> descriptor_handler (holders p y) = Some x"
    "linked p x = (case handlers p x of None \<Rightarrow> [] | Some y \<Rightarrow> [y])" for x y
    using assms(1) unfolding links_agree_def by blast+
  let ?p = "p\<lparr>holders := (holders p)(hid := (holders p hid)\<lparr>descriptor_handler := None\<rparr>),
    linked := (linked p)(d := []), handlers := (handlers p)(d := None)\<rparr>"
  have "(y < next_holder ?p \<and> descriptor_handler (holders ?p y) = Some x) \<longleftrightarrow> handlers ?p x = Some y" for x y
    using agree(1) [of x y] assms(3) h by auto
  moreover have "linked ?p x = (case handlers ?p x of None \<Rightarrow> [] | Some y \<Rightarrow> [y])" for x
    using agree(2) [of x] by simp
  ultimately have "links_agree ?p" unfolding links_agree_def by blast
  moreover have "(reset_descriptor_handler hid p)\<lparr>handlers := (handlers p)(d := None)\<rparr> = ?p"
    using assms(3) l by (simp add: reset_descriptor_handler_def set_holder_def unlink_holder_def)
  ultimately show ?thesis by simp
qed

lemma links_agree_close:
  assumes "links_agree p" and "hid < next_holder p" and "descriptor_handler (holders p hid) = Some d"
  shows "links_agree (snd (close_handler cls ctl_ok hid d p))"
proof -
  define p1 where "p1 = set_holder hid ((holders p hid)\<lparr>handling_finished := 1\<rparr>) p"
  obtain r p2 where p2: "epoll_del_fd ctl_ok (vfd cls (objects p1 d)) p1 = (r, p2)" by fastforce
  have agree: "links_agree p2" "hid < next_holder p2" "descriptor_handler (holders p2 hid) = Some d"
  proof -
    have e: "p2 = p1\<lparr>epoll_log := epoll_log p1 @ [Epoll_Del (vfd cls (objects p1 d))]\<rparr>"
      using p2 by (simp add: epoll_del_fd_def epoll_ctl_def)
    show "links_agree p2" using assms(1) by (simp add: e p1_def)
    show "hid < next_holder p2" "descriptor_handler (holders p2 hid) = Some d"
      using assms(2,3) by (simp_all add: e p1_def set_holder_def)
  qed
  define p3 where "p3 = p2\<lparr>objects := (objects p2)(d := vstopped cls (objects p2 d))\<rparr>"
  have "links_agree ((reset_descriptor_handler hid p3)\<lparr>handlers := (handlers p3)(d := None)\<rparr>)"
    using agree by (intro links_agree_erase) (simp_all add: p3_def)
  moreover have "handlers (reset_descriptor_handler hid p3) = handlers p3"
    by (simp add: reset_descriptor_handler_def set_holder_def split: option.splits)
  moreover have "links_agree (q\<lparr>poller_cleaner := c, handlers := h\<rparr>) \<longleftrightarrow> links_agree (q\<lparr>handlers := h\<rparr>)"
    for q :: "'a poller" and c h
    by (simp add: links_agree_def)
  ultimately show ?thesis
    using agree(1)
    by (cases r) (simp_all add: close_handler_def Let_def p1_def [symmetric] p2 p3_def [symmetric])
qed

lemma links_agree_loop:
  assumes "links_agree p" and "hid < next_holder p" and "descriptor_handler (holders p hid) = Some d"
  shows "links_agree (snd (handle_loop fuel cls ctl_ok hid d arrivals prev stop rearm_fd p))"
  using assms
proof (induction fuel arbitrary: arrivals prev stop rearm_fd p)
  case (Suc fuel)
  obtain r p1 where r: "round_parts cls hid d p = (r, p1)" by fastforce
  have t: "touches hid d p p1" using round_parts_touches [of hid d p cls] r by simp
  have p1: "links_agree p1" "hid < next_holder p1" "descriptor_handler (holders p1 hid) = Some d"
    using links_agree_touches [OF Suc.prems(1) t] t Suc.prems by (simp_all add: touches_def)
  define p2 where "p2 = (case arrivals of [] \<Rightarrow> p1 | n # _ \<Rightarrow> add_in_progress (int n) hid p1)"
  have p2: "links_agree p2" "hid < next_holder p2" "descriptor_handler (holders p2 hid) = Some d"
    using p1 by (auto simp: p2_def split: list.splits)
  define p3 where "p3 = add_in_progress (- 1) hid p2"
  have p3: "links_agree p3" "hid < next_holder p3" "descriptor_handler (holders p3 hid) = Some d"
    using p2 by (auto simp: p3_def)
  obtain r4 p4 where p4: "close_handler cls ctl_ok hid d p1 = (r4, p4)" by fastforce
  have agree4: "links_agree p4" using links_agree_close [OF p1, of cls ctl_ok] p4 by simp
  show ?case
  proof (cases "prev < 0")
    case True
    then show ?thesis using Suc.prems(1) by simp
  next
    case False
    then show ?thesis
      using p1(1) p3(1) agree4 Suc.IH [OF p3]
      by (cases r; cases r4) (simp_all add: r p4 p2_def [symmetric] p3_def [symmetric] Let_def)
  qed
qed simp

lemma links_agree_handle_finish:
  assumes "links_agree p"
  shows "links_agree (snd (handle_finish cls ctl_ok t hid stop rearm_fd prev p))"
proof -
  obtain r1 p1 where 1: "(if rearm_fd then epoll_rearm_handler cls ctl_ok hid p else (Return (), p)) = (r1, p1)"
    by fastforce
  then have "links_agree p1"
    using assms links_agree_rearm [of cls ctl_ok hid "handle_read (holders p hid)"
        "handle_write (holders p hid)" p]
    by (auto simp: epoll_rearm_handler_def simp del: links_agree_rearm split: if_splits)
  moreover obtain r2 p2 where 2: "release_thread t p1 = (r2, p2)" by fastforce
  moreover from this have "links_agree p2 = links_agree p1"
    using links_agree_release [of t p1] by (simp del: links_agree_release)
  ultimately show ?thesis
    by (cases r1; cases r2) (simp_all add: handle_finish_def 1)
qed

lemma links_agree_handle:
  assumes "links_agree p" and "hid < next_holder p"
  shows "links_agree (snd (handle fuel cls ctl_ok t hid arrivals p))"
proof -
  define prev where "prev = handle_in_progress (holders p hid)"
  define p1 where "p1 = add_in_progress 1 hid p"
  have p1: "links_agree p1" "hid < next_holder p1" using assms by (simp_all add: p1_def)
  show ?thesis
  proof (cases "handling_finished (holders p1 hid) = 0 \<and> prev = 0")
    case False
    obtain r p2 where f: "handle_finish cls ctl_ok t hid False False prev p1 = (r, p2)" by fastforce
    then have "links_agree p2"
      using links_agree_handle_finish [OF p1(1), of cls ctl_ok t hid False False prev] by simp
    moreover have "handle fuel cls ctl_ok t hid arrivals p = (Some r, p2)"
      using False f by (auto simp: handle_def prev_def [symmetric] p1_def [symmetric] Let_def)
    ultimately show ?thesis by simp
  next
    case True
    show ?thesis
    proof (cases "descriptor_handler (holders p1 hid)")
      case None
      then show ?thesis
        using True p1(1) by (simp add: handle_def prev_def [symmetric] p1_def [symmetric] Let_def)
    next
      case (Some d)
      obtain r p2 where l: "handle_loop fuel cls ctl_ok hid d arrivals prev False False p1 = (r, p2)"
        by fastforce
      then have p2: "links_agree p2"
        using links_agree_loop [OF p1 Some, of fuel cls ctl_ok arrivals prev False False] by simp
      then show ?thesis
        using True Some l links_agree_handle_finish [OF p2, of cls ctl_ok t hid]
        by (simp add: handle_def prev_def [symmetric] p1_def [symmetric] Let_def
          split: option.splits call.splits prod.splits) (metis snd_conv)
    qed
  qed
qed

lemma links_agree_add:
  assumes "links_agree p"
  shows "links_agree (snd (poller_add cls ctl_ok d p))"
proof -
  let ?hid = "next_holder p"
  have fresh: "handlers p x \<noteq> Some ?hid" for x
    using assms by (auto simp: links_agree_def)
  have agree: "(hid < next_holder p \<and> descriptor_handler (holders p hid) = Some x) \<longleftrightarrow>
      handlers p x = Some hid" "linked p x = (case handlers p x of None \<Rightarrow> [] | Some hid \<Rightarrow> [hid])" for hid x
    using assms by (simp_all add: links_agree_def)
  show ?thesis
  proof (cases "handlers p d")
    case None
    then have "links_agree (p\<lparr>holders := (holders p)(?hid := holder_new d), next_holder := Suc ?hid,
        linked := (linked p)(d := [?hid]), handlers := (handlers p)(d \<mapsto> ?hid)\<rparr>)"
      using agree fresh by (auto simp: links_agree_def holder_new_def less_Suc_eq)
    then show ?thesis
      using None agree(2) [of d]
      by (simp add: poller_add_def link_new_holder_def set_holder_def epoll_ctl_def Let_def
        link_holder_def)
  next
    case (Some h)
    then have "h \<noteq> ?hid" using fresh by metis
    then show ?thesis
      using Some agree agree(2) [of d] fresh
      by (simp add: poller_add_def link_new_holder_def set_holder_def Let_def link_holder_def
        reset_descriptor_handler_def holder_new_def unlink_holder_def)
        (auto simp: links_agree_def less_Suc_eq)
  qed
qed

lemma rearm_linked_agree:
  "links_agree p \<Longrightarrow> links_agree (snd (rearm_linked cls ctl_ok hids hread hwrite p))"
proof (induction hids arbitrary: p)
  case (Cons hid hids)
  obtain r p1 where "epoll_rearm_fd cls ctl_ok hid hread hwrite p = (r, p1)" by fastforce
  moreover from this have "links_agree p1"
    using links_agree_rearm [of cls ctl_ok hid hread hwrite p] Cons.prems by simp
  ultimately show ?case using Cons.IH by (cases r) simp_all
qed simp

lemma links_agree_new: "links_agree (snd (poller_new cls ctl_ok threads objs d))"
  unfolding poller_new_def by (rule links_agree_add) (simp add: links_agree_def)

lemma links_agree_step: "poller_step cls ctl_ok p p' \<Longrightarrow> links_agree p \<Longrightarrow> links_agree p'"
  by (induction rule: poller_step.induct)
    (simp_all add: links_agree_add links_agree_handle handler_rearm_def rearm_linked_agree)

lemma links_agree_reachable: "poller_reachable cls ctl_ok p \<Longrightarrow> links_agree p"
  by (induction rule: poller_reachable.induct) (auto intro: links_agree_new links_agree_step)


lemma counting_poller_reachable:
  "poller_reachable counting_class (\<lambda>_ _. True) counting_poller"
  unfolding counting_poller_def by (rule poller_init)


text \<open>Waking a handler is safe in every such state: \<open>rearm\<close> makes one request, for the descriptor
  of the handler and the holder the map gives it (none for a handler the poller does not have), and never
  goes through a null handler.\<close>

theorem rearm_reaches_the_holder:
  assumes "poller_reachable cls ctl_ok p"
  shows "handler_rearm cls ctl_ok d hread hwrite p =
    (case handlers p d of
       None \<Rightarrow> (Return (), p)
     | Some hid \<Rightarrow>
         epoll_ctl ctl_ok (Epoll_Mod (vfd cls (objects p d)) hid (armed_events hread hwrite)) p)"
proof (cases "handlers p d")
  case None
  then show ?thesis
    using links_agree_reachable [OF assms] by (simp add: links_agree_def handler_rearm_def)
next
  case (Some hid)
  then have "linked p d = [hid]" "descriptor_handler (holders p hid) = Some d"
    using links_agree_reachable [OF assms] by (auto simp: links_agree_def)
  then show ?thesis
    using Some by (simp add: handler_rearm_def epoll_rearm_fd_def epoll_ctl_def split: prod.splits call.splits)
qed

theorem rearm_reaches_the_holder_witness:
  "fst (handler_rearm counting_class (\<lambda>_ _. True) 3 False True counting_poller) = Return ()"
  using rearm_reaches_the_holder [OF counting_poller_reachable, of 3 False True]
  by (simp add: epoll_ctl_def split: option.splits)

end
