(* ===== verification/PollSet.thy ===== *)
theory PollSet
  imports PollerLinks
begin

section \<open>The poll set of a poller (litemq/DescriptorHandlerPoller.cpp)\<close>

text \<open>
  The kernel keeps for each descriptor in the poll set the address the poller gave it, and hands it back with every
  event; \<open>process_\<close> takes it for a holder. \<open>registered\<close> is that set as \<open>epoll_ctl\<close> documents it, computed from the
  requests a poller has made and the answers it got. Handlers do not change their descriptors (\<open>fds_fixed\<close>).

  The theorems: whatever the answers, every address in the poll set is that of a holder in use whose handler has this
  descriptor, so no event can lead to a holder that has been given up; and while \<open>epoll_ctl\<close> does not fail, the poll set
  is exactly the handler map.
\<close>

subsection \<open>What the kernel has\<close>

fun poll_request :: "epoll_request \<Rightarrow> (int \<rightharpoonup> nat) \<Rightarrow> (int \<rightharpoonup> nat)" where
  "poll_request (Epoll_Add fd hid events) m = m(fd \<mapsto> hid)"
| "poll_request (Epoll_Mod fd hid events) m = (if m fd = None then m else m(fd \<mapsto> hid))"
| "poll_request (Epoll_Del fd) m = m(fd := None)"

fun registered_rev :: "epoll_answer \<Rightarrow> epoll_request list \<Rightarrow> (int \<rightharpoonup> nat)" where
  "registered_rev ctl_ok [] = (\<lambda>_. None)"
| "registered_rev ctl_ok (r # log) =
     (if ctl_ok (rev log) r then poll_request r (registered_rev ctl_ok log) else registered_rev ctl_ok log)"

definition registered :: "epoll_answer \<Rightarrow> epoll_request list \<Rightarrow> (int \<rightharpoonup> nat)" where
  "registered ctl_ok log = registered_rev ctl_ok (rev log)"

lemma registered_simps [simp]:
  "registered ctl_ok [] = (\<lambda>_. None)"
  "registered ctl_ok (log @ [r]) = (if ctl_ok log r then poll_request r (registered ctl_ok log) else registered ctl_ok log)"
  by (simp_all add: registered_def)

subsection \<open>The invariant\<close>

definition fds :: "'h handler_class \<Rightarrow> 'h poller \<Rightarrow> nat \<Rightarrow> int" where
  "fds cls p d = vfd cls (objects p d)"

definition fds_fixed :: "'h handler_class \<Rightarrow> bool" where
  "fds_fixed cls \<longleftrightarrow> (\<forall>obj. vfd cls (snd (vread cls obj)) = vfd cls obj \<and>
     vfd cls (snd (vwrite cls obj)) = vfd cls obj \<and> vfd cls (vstopped cls obj) = vfd cls obj)"

text \<open>The poll set against the handler map, in both directions.\<close>

definition backed :: "(int \<rightharpoonup> nat) \<Rightarrow> (nat \<rightharpoonup> nat) \<Rightarrow> (nat \<Rightarrow> int) \<Rightarrow> bool" where
  "backed R H F \<longleftrightarrow> (\<forall>fd hid. R fd = Some hid \<longrightarrow> (\<exists>d. H d = Some hid \<and> F d = fd))"

definition covers :: "(int \<rightharpoonup> nat) \<Rightarrow> (nat \<rightharpoonup> nat) \<Rightarrow> (nat \<Rightarrow> int) \<Rightarrow> bool" where
  "covers R H F \<longleftrightarrow> (\<forall>d hid. H d = Some hid \<longrightarrow> R (F d) = Some hid)"

lemma backedD: "backed R H F \<Longrightarrow> R fd = Some hid \<Longrightarrow> \<exists>d. H d = Some hid \<and> F d = fd"
  by (simp add: backed_def)

lemma backed_upd: "backed R H F \<Longrightarrow> H d = Some hid \<Longrightarrow> backed (R(F d \<mapsto> hid)) H F"
  unfolding backed_def by (metis fun_upd_apply option.inject)

lemma backed_mono: "backed R H F \<Longrightarrow> H d = None \<Longrightarrow> backed R (H(d \<mapsto> hid)) F"
  unfolding backed_def by (metis fun_upd_apply option.distinct(1))

lemma backed_del: "backed R H F \<Longrightarrow> backed (R(F d := None)) (H(d := None)) F"
  unfolding backed_def by (metis fun_upd_apply option.distinct(1))

lemma covers_upd: "covers R H F \<Longrightarrow> H d = Some hid \<Longrightarrow> R(F d \<mapsto> hid) = R"
  unfolding covers_def by (auto intro: fun_upd_idem)

lemma covers_add: "covers R H F \<Longrightarrow> inj F \<Longrightarrow> covers (R(F d \<mapsto> hid)) (H(d \<mapsto> hid)) F"
  unfolding covers_def by (auto dest: injD)

lemma covers_del: "covers R H F \<Longrightarrow> inj F \<Longrightarrow> covers (R(F d := None)) (H(d := None)) F"
  unfolding covers_def by (auto dest: injD)

text \<open>\<open>full\<close> asks for both directions; the second needs different descriptors and an \<open>epoll_ctl\<close> that does not fail.\<close>

definition poll_agrees :: "bool \<Rightarrow> 'h handler_class \<Rightarrow> epoll_answer \<Rightarrow> 'h poller \<Rightarrow> bool" where
  "poll_agrees full cls ctl_ok p \<longleftrightarrow>
     backed (registered ctl_ok (epoll_log p)) (handlers p) (fds cls p) \<and>
     (full \<longrightarrow> covers (registered ctl_ok (epoll_log p)) (handlers p) (fds cls p))"

definition full_ok :: "bool \<Rightarrow> epoll_answer \<Rightarrow> (nat \<Rightarrow> int) \<Rightarrow> bool" where
  "full_ok full ctl_ok F \<longleftrightarrow> (full \<longrightarrow> (\<forall>log r. ctl_ok log r) \<and> inj F)"

lemma poll_agrees_cong:
  "poll_agrees full cls ctl_ok p \<Longrightarrow> handlers p' = handlers p \<Longrightarrow> epoll_log p' = epoll_log p \<Longrightarrow> fds cls p' = fds cls p \<Longrightarrow>
    poll_agrees full cls ctl_ok p'"
  by (simp add: poll_agrees_def)

lemma fds_simps [simp]:
  "fds cls (p\<lparr>epoll_log := l\<rparr>) = fds cls p" "fds cls (p\<lparr>handlers := h\<rparr>) = fds cls p"
  "fds cls (p\<lparr>poller_cleaner := c\<rparr>) = fds cls p" "fds cls (set_holder hid x p) = fds cls p"
  "fds cls (add_in_progress n hid p) = fds cls p" "fds cls (reset_descriptor_handler hid p) = fds cls p"
  "fds cls (snd (release_thread t p)) = fds cls p" "fds cls (snd (epoll_ctl ctl_ok r p)) = fds cls p"
  "fds cls (snd (epoll_rearm_fd cls ctl_ok hid hread hwrite p)) = fds cls p"
  by (auto simp: fds_def fun_eq_iff set_holder_def add_in_progress_def reset_descriptor_handler_def release_thread_def
    epoll_ctl_def epoll_rearm_fd_def split: option.splits sum.splits)

lemma fds_updates [simp]:
  "fds cls (p\<lparr>holders := h\<rparr>) = fds cls p" "fds cls (p\<lparr>next_holder := n\<rparr>) = fds cls p" "fds cls (p\<lparr>linked := l\<rparr>) = fds cls p"
  by (simp_all add: fds_def fun_eq_iff)

lemma poll_agrees_simps [simp]:
  "poll_agrees full cls ctl_ok (add_in_progress n hid p) \<longleftrightarrow> poll_agrees full cls ctl_ok p"
  "poll_agrees full cls ctl_ok (set_holder hid x p) \<longleftrightarrow> poll_agrees full cls ctl_ok p"
  "poll_agrees full cls ctl_ok (p\<lparr>poller_cleaner := c\<rparr>) \<longleftrightarrow> poll_agrees full cls ctl_ok p"
  "poll_agrees full cls ctl_ok (snd (release_thread t p)) \<longleftrightarrow> poll_agrees full cls ctl_ok p"
  by (auto simp: poll_agrees_def release_thread_def set_holder_def add_in_progress_def split: sum.splits)

text \<open>The three requests.\<close>

lemma poll_agrees_mod:
  assumes "poll_agrees full cls ctl_ok p" and "handlers p d = Some hid"
  shows "poll_agrees full cls ctl_ok (snd (epoll_ctl ctl_ok (Epoll_Mod (fds cls p d) hid e) p))"
  using assms backed_upd [of "registered ctl_ok (epoll_log p)" "handlers p" "fds cls p" d hid]
    covers_upd [of "registered ctl_ok (epoll_log p)" "handlers p" "fds cls p" d hid]
  by (auto simp: poll_agrees_def epoll_ctl_def)

lemma poll_agrees_add_request:
  assumes "poll_agrees full cls ctl_ok p" and "handlers p d = None" and "full_ok full ctl_ok (fds cls p)"
  shows "poll_agrees full cls ctl_ok
    (snd (epoll_ctl ctl_ok (Epoll_Add (fds cls p d) hid e) (p\<lparr>handlers := (handlers p)(d \<mapsto> hid)\<rparr>)))"
proof -
  have "backed (registered ctl_ok (epoll_log p)) ((handlers p)(d \<mapsto> hid)) (fds cls p)"
    using assms(1,2) by (simp add: poll_agrees_def backed_mono)
  then show ?thesis
    using assms(1,3) backed_upd [of _ "(handlers p)(d \<mapsto> hid)" "fds cls p" d hid]
    by (auto simp: poll_agrees_def epoll_ctl_def full_ok_def intro: covers_add)
qed

lemma poll_agrees_del_request:
  assumes "poll_agrees full cls ctl_ok p" and "full_ok full ctl_ok (fds cls p)"
    and "epoll_ctl ctl_ok (Epoll_Del (fds cls p d)) p = (r, p')"
  shows "poll_agrees full cls ctl_ok (if r = Return () then p'\<lparr>handlers := (handlers p)(d := None)\<rparr> else p')"
  using assms by (auto simp: poll_agrees_def epoll_ctl_def full_ok_def intro: backed_del covers_del)

subsection \<open>Every operation keeps it\<close>

lemma call_handler_quiet:
  assumes "vfd cls (snd (f (objects p d))) = vfd cls (objects p d)"
  shows "handlers (snd (call_handler f hid d p)) = handlers p \<and> epoll_log (snd (call_handler f hid d p)) = epoll_log p \<and>
    fds cls (snd (call_handler f hid d p)) = fds cls p"
proof -
  obtain r obj where "f (objects p d) = (r, obj)" by fastforce
  then show ?thesis
    using assms by (cases r) (auto simp: call_handler_def fds_def fun_eq_iff set_holder_def split: prod.splits)
qed

lemma round_parts_quiet:
  assumes "fds_fixed cls"
  shows "handlers (snd (round_parts cls hid d p)) = handlers p \<and> epoll_log (snd (round_parts cls hid d p)) = epoll_log p \<and>
    fds cls (snd (round_parts cls hid d p)) = fds cls p"
proof -
  have r: "handlers (snd (handle_read_part cls hid d q)) = handlers q \<and>
      epoll_log (snd (handle_read_part cls hid d q)) = epoll_log q \<and> fds cls (snd (handle_read_part cls hid d q)) = fds cls q"
    and w: "handlers (snd (handle_write_part cls hid d q)) = handlers q \<and>
      epoll_log (snd (handle_write_part cls hid d q)) = epoll_log q \<and> fds cls (snd (handle_write_part cls hid d q)) = fds cls q" for q
    using assms call_handler_quiet [of cls "vread cls" q d hid] call_handler_quiet [of cls "vwrite cls" q d hid]
    by (simp_all add: handle_read_part_def handle_write_part_def fds_fixed_def)
  obtain r1 p1 where 1: "handle_read_part cls hid d p = (r1, p1)" by fastforce
  obtain r2 p2 where 2: "handle_write_part cls hid d p1 = (r2, p2)" by fastforce
  show ?thesis using r [of p] w [of p1] 1 2 by (cases r1; cases r2) (simp_all add: round_parts_def)
qed

lemma close_handler_poll:
  assumes "poll_agrees full cls ctl_ok p" and "full_ok full ctl_ok (fds cls p)" and "fds_fixed cls"
  shows "poll_agrees full cls ctl_ok (snd (close_handler cls ctl_ok hid d p)) \<and>
    fds cls (snd (close_handler cls ctl_ok hid d p)) = fds cls p"
proof -
  let ?p1 = "set_holder hid ((holders p hid)\<lparr>handling_finished := 1\<rparr>) p"
  obtain r p2 where del: "epoll_ctl ctl_ok (Epoll_Del (fds cls ?p1 d)) ?p1 = (r, p2)" by fastforce
  have pre: "poll_agrees full cls ctl_ok ?p1" "full_ok full ctl_ok (fds cls ?p1)" "handlers ?p1 = handlers p"
    using assms(1,2) by simp_all (simp add: set_holder_def)
  have agrees: "poll_agrees full cls ctl_ok (if r = Return () then p2\<lparr>handlers := (handlers p)(d := None)\<rparr> else p2)"
    using poll_agrees_del_request [OF pre(1,2) del] unfolding pre(3) .
  have p2: "fds cls p2 = fds cls p" "handlers p2 = handlers p"
    using del by (auto simp: epoll_ctl_def set_holder_def)
  have vfd: "epoll_del_fd ctl_ok (vfd cls (objects ?p1 d)) ?p1 = (r, p2)"
    using del by (simp add: epoll_del_fd_def fds_def set_holder_def)
  have stopped: "fds cls (p2\<lparr>objects := (objects p2)(d := vstopped cls (objects p2 d))\<rparr>) = fds cls p2"
    using assms(3) by (auto simp: fds_def fds_fixed_def fun_eq_iff)
  show ?thesis
  proof (cases "r = Return ()")
    case True
    let ?p3 = "p2\<lparr>objects := (objects p2)(d := vstopped cls (objects p2 d))\<rparr>"
    let ?p4 = "reset_descriptor_handler hid ?p3"
    let ?p5 = "?p4\<lparr>poller_cleaner := cleaner_push hid (poller_cleaner ?p4)\<rparr>"
    have c: "close_handler cls ctl_ok hid d p = (Return (), ?p5\<lparr>handlers := (handlers ?p5)(d := None)\<rparr>)"
      using True vfd by (simp add: close_handler_def Let_def)
    have h: "handlers ?p4 = handlers p" "epoll_log ?p4 = epoll_log p2"
      using p2(2) by (simp_all add: reset_descriptor_handler_def set_holder_def split: option.splits)
    have f: "fds cls (snd (close_handler cls ctl_ok hid d p)) = fds cls p"
      using c stopped p2(1) by simp
    show ?thesis
      using f agrees True c h p2 by (auto intro: poll_agrees_cong)
  next
    case False
    then show ?thesis using agrees vfd p2 by (cases r) (simp_all add: close_handler_def Let_def)
  qed
qed

lemma next_holder_kept:
  "next_holder (snd (close_handler cls ctl_ok hid d p)) = next_holder p"
  "next_holder (snd (epoll_rearm_fd cls ctl_ok hid hread hwrite p)) = next_holder p"
  by (simp_all add: close_handler_def epoll_del_fd_def epoll_rearm_fd_def epoll_ctl_def set_holder_def
    reset_descriptor_handler_def Let_def split: option.splits)

lemma rearm_poll:
  assumes "poll_agrees full cls ctl_ok p" and "links_agree p" and "hid < next_holder p"
  shows "poll_agrees full cls ctl_ok (snd (epoll_rearm_fd cls ctl_ok hid hread hwrite p))"
proof (cases "descriptor_handler (holders p hid)")
  case (Some d)
  then have "handlers p d = Some hid" using assms(2,3) unfolding links_agree_def by blast
  from poll_agrees_mod [OF assms(1) this] show ?thesis using Some by (simp add: epoll_rearm_fd_def fds_def)
qed (simp add: epoll_rearm_fd_def assms(1))

lemma handle_finish_poll:
  assumes "poll_agrees full cls ctl_ok p" and "links_agree p" and "hid < next_holder p"
  shows "poll_agrees full cls ctl_ok (snd (handle_finish cls ctl_ok t hid stop rearm_fd prev p)) \<and>
    fds cls (snd (handle_finish cls ctl_ok t hid stop rearm_fd prev p)) = fds cls p"
proof -
  obtain r1 p1 where 1: "(if rearm_fd then epoll_rearm_handler cls ctl_ok hid p else (Return (), p)) = (r1, p1)"
    by fastforce
  then have p1: "poll_agrees full cls ctl_ok p1" "fds cls p1 = fds cls p"
    using rearm_poll [OF assms, of "handle_read (holders p hid)" "handle_write (holders p hid)"] assms(1)
      fds_simps(9) [of cls ctl_ok hid "handle_read (holders p hid)" "handle_write (holders p hid)" p]
    by (auto simp: epoll_rearm_handler_def simp del: fds_simps split: if_splits)
  obtain r2 p2 where 2: "release_thread t p1 = (r2, p2)" by fastforce
  then have "poll_agrees full cls ctl_ok p2" "fds cls p2 = fds cls p1"
    using poll_agrees_simps(4) [of full cls ctl_ok t p1] fds_simps(7) [of cls t p1] p1(1) by simp_all
  then show ?thesis using p1 2 by (cases r1; cases r2) (simp_all add: handle_finish_def 1)
qed

lemma handle_loop_poll:
  assumes "fds_fixed cls" and "poll_agrees full cls ctl_ok p" and "full_ok full ctl_ok (fds cls p)" and "links_agree p"
    and "hid < next_holder p" and "descriptor_handler (holders p hid) = Some d"
  shows "poll_agrees full cls ctl_ok (snd (handle_loop fuel cls ctl_ok hid d arrivals prev stop rearm_fd p)) \<and>
    fds cls (snd (handle_loop fuel cls ctl_ok hid d arrivals prev stop rearm_fd p)) = fds cls p \<and>
    next_holder (snd (handle_loop fuel cls ctl_ok hid d arrivals prev stop rearm_fd p)) = next_holder p"
  using assms(2-)
proof (induction fuel arbitrary: arrivals prev stop rearm_fd p)
  case (Suc fuel)
  obtain r p1 where r: "round_parts cls hid d p = (r, p1)" by fastforce
  have t: "touches hid d p p1" using round_parts_touches [of hid d p cls] r by simp
  have p1: "links_agree p1" "hid < next_holder p1" "descriptor_handler (holders p1 hid) = Some d" "next_holder p1 = next_holder p"
    using links_agree_touches [OF Suc.prems(3) t] t Suc.prems by (simp_all add: touches_def)
  have q1: "fds cls p1 = fds cls p" "poll_agrees full cls ctl_ok p1"
    using round_parts_quiet [OF assms(1), of hid d p] r Suc.prems(1) by (auto intro: poll_agrees_cong)
  define p2 where "p2 = (case arrivals of [] \<Rightarrow> p1 | n # _ \<Rightarrow> add_in_progress (int n) hid p1)"
  define p3 where "p3 = add_in_progress (- 1) hid p2"
  have p3: "links_agree p3" "hid < next_holder p3" "descriptor_handler (holders p3 hid) = Some d" "next_holder p3 = next_holder p"
    "fds cls p3 = fds cls p" "poll_agrees full cls ctl_ok p3"
    using p1 q1 by (auto simp: p3_def p2_def split: list.splits)
  obtain r4 p4 where p4: "close_handler cls ctl_ok hid d p1 = (r4, p4)" by fastforce
  have agree4: "poll_agrees full cls ctl_ok p4" "fds cls p4 = fds cls p" "next_holder p4 = next_holder p"
    using close_handler_poll [OF q1(2) _ assms(1), of hid d] q1 Suc.prems(2) p4 p1(4) next_holder_kept(1) [of cls ctl_ok hid d p1]
    by simp_all
  show ?case
  proof (cases "prev < 0")
    case True
    then show ?thesis using Suc.prems(1) by simp
  next
    case False
    then show ?thesis
      using p1 q1 p3 agree4 Suc.IH [OF p3(6) _ p3(1-3)] Suc.prems(2)
      by (cases r; cases r4) (simp_all add: r p4 p2_def [symmetric] p3_def [symmetric] Let_def)
  qed
qed simp

lemma handle_poll:
  assumes "fds_fixed cls" and "poll_agrees full cls ctl_ok p" and "full_ok full ctl_ok (fds cls p)" and "links_agree p"
    and "hid < next_holder p"
  shows "poll_agrees full cls ctl_ok (snd (handle fuel cls ctl_ok t hid arrivals p)) \<and>
    fds cls (snd (handle fuel cls ctl_ok t hid arrivals p)) = fds cls p"
proof -
  define prev where "prev = handle_in_progress (holders p hid)"
  define p1 where "p1 = add_in_progress 1 hid p"
  have p1: "links_agree p1" "hid < next_holder p1" "poll_agrees full cls ctl_ok p1" "fds cls p1 = fds cls p"
    using assms by (simp_all add: p1_def)
  show ?thesis
  proof (cases "handling_finished (holders p1 hid) = 0 \<and> prev = 0")
    case False
    obtain r p2 where f: "handle_finish cls ctl_ok t hid False False prev p1 = (r, p2)" by fastforce
    then have "poll_agrees full cls ctl_ok p2 \<and> fds cls p2 = fds cls p"
      using handle_finish_poll [OF p1(3,1,2), of t False False prev] p1(4) by simp
    moreover have "handle fuel cls ctl_ok t hid arrivals p = (Some r, p2)"
      using False f by (auto simp: handle_def prev_def [symmetric] p1_def [symmetric] Let_def)
    ultimately show ?thesis by simp
  next
    case True
    show ?thesis
    proof (cases "descriptor_handler (holders p1 hid)")
      case None
      then show ?thesis
        using True p1 by (simp add: handle_def prev_def [symmetric] p1_def [symmetric] Let_def)
    next
      case (Some d)
      obtain r p2 where l: "handle_loop fuel cls ctl_ok hid d arrivals prev False False p1 = (r, p2)"
        by fastforce
      have "full_ok full ctl_ok (fds cls p1)" using assms(3) p1(4) by simp
      then have p2: "poll_agrees full cls ctl_ok p2" "fds cls p2 = fds cls p" "hid < next_holder p2"
        using handle_loop_poll [OF assms(1) p1(3) _ p1(1,2) Some, of fuel arrivals prev False False] l p1(2,4) by simp_all
      moreover have "links_agree p2"
        using links_agree_loop [OF p1(1,2) Some, of fuel cls ctl_ok arrivals prev False False] l by simp
      ultimately show ?thesis
        using True Some l handle_finish_poll [of full cls ctl_ok p2 hid t]
        by (simp add: handle_def prev_def [symmetric] p1_def [symmetric] Let_def
          split: option.splits call.splits prod.splits) (metis snd_conv)
    qed
  qed
qed

lemma poller_add_poll:
  assumes "poll_agrees full cls ctl_ok p" and "full_ok full ctl_ok (fds cls p)"
  shows "poll_agrees full cls ctl_ok (snd (poller_add cls ctl_ok d p)) \<and> fds cls (snd (poller_add cls ctl_ok d p)) = fds cls p"
proof -
  obtain hid p1 where l: "link_new_holder d p = (hid, p1)" by fastforce
  then have p1: "handlers p1 = handlers p" "epoll_log p1 = epoll_log p" "fds cls p1 = fds cls p"
    by (auto simp: link_new_holder_def set_holder_def Let_def)
  then have q1: "poll_agrees full cls ctl_ok p1" "full_ok full ctl_ok (fds cls p1)"
    using assms by (auto intro: poll_agrees_cong)
  show ?thesis
  proof (cases "handlers p1 d")
    case None
    let ?p2 = "p1\<lparr>handlers := (handlers p1)(d \<mapsto> hid)\<rparr>"
    let ?r = "Epoll_Add (fds cls p1 d) hid (EPOLL_FLAGS OR EPOLLIN OR EPOLLOUT)"
    have "snd (poller_add cls ctl_ok d p) = snd (epoll_ctl ctl_ok ?r ?p2)"
      using None l by (simp add: poller_add_def fds_def epoll_ctl_def Let_def)
    then show ?thesis using poll_agrees_add_request [OF q1(1) None q1(2)] p1(3) by simp
  next
    case (Some h)
    then have "snd (poller_add cls ctl_ok d p) = reset_descriptor_handler hid p1"
      using l by (simp add: poller_add_def)
    moreover have "handlers (reset_descriptor_handler hid p1) = handlers p1" "epoll_log (reset_descriptor_handler hid p1) = epoll_log p1"
      by (simp_all add: reset_descriptor_handler_def set_holder_def split: option.splits)
    ultimately show ?thesis using q1(1) p1(3) by (auto intro: poll_agrees_cong)
  qed
qed

lemma rearm_linked_poll:
  "poll_agrees full cls ctl_ok p \<Longrightarrow> links_agree p \<Longrightarrow> \<forall>hid \<in> set hids. hid < next_holder p \<Longrightarrow>
    poll_agrees full cls ctl_ok (snd (rearm_linked cls ctl_ok hids hread hwrite p)) \<and>
    fds cls (snd (rearm_linked cls ctl_ok hids hread hwrite p)) = fds cls p"
proof (induction hids arbitrary: p)
  case (Cons hid hids)
  obtain r p1 where r: "epoll_rearm_fd cls ctl_ok hid hread hwrite p = (r, p1)" by fastforce
  moreover from this have "links_agree p1" "poll_agrees full cls ctl_ok p1" "fds cls p1 = fds cls p" "next_holder p1 = next_holder p"
    using links_agree_rearm [of cls ctl_ok hid hread hwrite p] Cons.prems rearm_poll [of full cls ctl_ok p hid hread hwrite]
      fds_simps(9) [of cls ctl_ok hid hread hwrite p] next_holder_kept(2) [of cls ctl_ok hid hread hwrite p]
    by simp_all
  ultimately show ?case using Cons.IH [of p1] Cons.prems(3) by (cases r) simp_all
qed simp

lemma handler_rearm_poll:
  assumes "poll_agrees full cls ctl_ok p" and "links_agree p"
  shows "poll_agrees full cls ctl_ok (snd (handler_rearm cls ctl_ok d hread hwrite p)) \<and>
    fds cls (snd (handler_rearm cls ctl_ok d hread hwrite p)) = fds cls p"
proof -
  have "\<forall>hid \<in> set (linked p d). hid < next_holder p"
  proof
    fix hid assume "hid \<in> set (linked p d)"
    then have "handlers p d = Some hid" using assms(2) by (auto simp: links_agree_def split: option.splits)
    then show "hid < next_holder p" using assms(2) unfolding links_agree_def by blast
  qed
  from rearm_linked_poll [OF assms this] show ?thesis by (simp add: handler_rearm_def)
qed

lemma poller_step_poll:
  assumes "poller_step cls ctl_ok p p'" and "fds_fixed cls" and "links_agree p" and "poll_agrees full cls ctl_ok p"
    and "full_ok full ctl_ok (fds cls p)"
  shows "poll_agrees full cls ctl_ok p' \<and> fds cls p' = fds cls p"
  using assms
  by (cases rule: poller_step.cases) (simp_all add: poller_add_poll handle_poll handler_rearm_poll)

lemma poll_agrees_new:
  assumes "full_ok full ctl_ok (\<lambda>d. vfd cls (objs d))"
  shows "poll_agrees full cls ctl_ok (snd (poller_new cls ctl_ok threads objs d))"
  unfolding poller_new_def
  by (rule conjunct1 [OF poller_add_poll])
    (use assms in \<open>simp_all add: poll_agrees_def backed_def covers_def full_ok_def fds_def [abs_def]\<close>)

lemma fds_new: "fds cls (snd (poller_new cls ctl_ok threads objs d)) = (\<lambda>d. vfd cls (objs d))"
  by (simp add: fds_def fun_eq_iff poller_new_def poller_add_def link_new_holder_def set_holder_def epoll_ctl_def Let_def)

lemma poller_reachable_fds:
  assumes "poller_reachable cls ctl_ok p" and "fds_fixed cls" and "full_ok full ctl_ok (fds cls p)"
  shows "poll_agrees full cls ctl_ok p"
proof -
  have "poll_agrees False cls ctl_ok p \<and> (full_ok full ctl_ok (fds cls p) \<longrightarrow> poll_agrees full cls ctl_ok p)"
    using assms(1)
  proof induction
    case (poller_init threads objs d)
    have "full_ok False ctl_ok (\<lambda>d. vfd cls (objs d))" by (simp add: full_ok_def)
    then show ?case using poll_agrees_new unfolding fds_new by blast
  next
    case (poller_next p p')
    have l: "links_agree p" by (rule links_agree_reachable [OF poller_next.hyps(1)])
    note step = poller_step_poll [OF poller_next.hyps(2) assms(2) l]
    have "poll_agrees False cls ctl_ok p' \<and> fds cls p' = fds cls p"
      using poller_next.IH by (intro step) (simp_all add: full_ok_def)
    then show ?case using step [of full] poller_next.IH by metis
  qed
  then show ?thesis using assms(3) by blast
qed

subsection \<open>Properties\<close>


text \<open>A poller of two handlers with the descriptors 5 and 6.\<close>

definition numbered_class :: "(int \<times> nat) handler_class" where
  "numbered_class = \<lparr>vfd = fst, vread = (\<lambda>(fd, n). (Return CONTINUE_HANDLE, (fd, Suc n))),
     vwrite = (\<lambda>obj. (Return STOP_WRITE_HANDLE, obj)), vstopped = id\<rparr>"

definition numbered_poller :: "(int \<times> nat) poller" where
  "numbered_poller = snd (poller_add numbered_class (\<lambda>_ _. True) 4
     (snd (poller_new numbered_class (\<lambda>_ _. True) 2 (\<lambda>d. (int d + 2, 0)) 3)))"

lemma numbered_poller_reachable: "poller_reachable numbered_class (\<lambda>_ _. True) numbered_poller"
  unfolding numbered_poller_def by (rule poller_next [OF poller_init poller_step_add])

lemma numbered_class_fixed: "fds_fixed numbered_class"
  by (simp add: fds_fixed_def numbered_class_def split: prod.splits)

lemma numbered_poller_log: "registered (\<lambda>_ _. True) (epoll_log numbered_poller) 6 = Some 1"
  "fds numbered_class numbered_poller = (\<lambda>d. int d + 2)"
  by (simp_all add: numbered_poller_def numbered_class_def poller_new_def poller_add_def link_new_holder_def epoll_ctl_def
    set_holder_def registered_def fds_def fun_eq_iff Let_def)


text \<open>While \<open>epoll_ctl\<close> does not fail and different handlers have different descriptors, the poll set of the kernel is the
  handler map of the poller: a descriptor is registered with a holder exactly when the map has a handler with that descriptor under that
  holder.\<close>

theorem poll_set_refines_handler_map:
  assumes "poller_reachable cls ctl_ok p" and "fds_fixed cls" and "inj (\<lambda>d. vfd cls (objects p d))"
    and "\<forall>log request. ctl_ok log request"
  shows "registered ctl_ok (epoll_log p) fd = Some hid \<longleftrightarrow> (\<exists>d. handlers p d = Some hid \<and> vfd cls (objects p d) = fd)"
proof -
  have "fds cls p = (\<lambda>d. vfd cls (objects p d))" by (simp add: fds_def fun_eq_iff)
  then have "poll_agrees True cls ctl_ok p"
    using assms by (intro poller_reachable_fds [OF assms(1,2)]) (simp add: full_ok_def)
  then show ?thesis by (auto simp: poll_agrees_def backed_def covers_def fds_def)
qed

theorem poll_set_refines_handler_map_witness:
  "\<exists>d. handlers numbered_poller d = Some 1 \<and> vfd numbered_class (objects numbered_poller d) = 6"
proof -
  have "(\<lambda>d. vfd numbered_class (objects numbered_poller d)) = (\<lambda>d. int d + 2)"
    using numbered_poller_log(2) by (simp add: fds_def fun_eq_iff)
  moreover have "inj (\<lambda>d. int d + 2)" by (simp add: inj_def)
  ultimately show ?thesis
    using poll_set_refines_handler_map [OF numbered_poller_reachable numbered_class_fixed, of 6 1] numbered_poller_log(1) by simp
qed

end
