(* ===== verification/PollerThreads.thy ===== *)
theory PollerThreads
  imports DescHandlers
begin

section \<open>The threads of a poller inside \<open>handle_\<close> (litemq/DescriptorHandlerPoller.cpp)\<close>

text \<open>
  Several threads can be in \<open>handle_\<close> for the same holder. The lock is the pair of the atomic
  counter \<open>handle_in_progress\<close> and the flag \<open>handling_finished\<close>: the thread whose increment
  returns 0 runs the rounds, a later one leaves its increment for it. This theory is the step
  relation of these atomic accesses, one step each, in any interleaving of the threads.

  \<open>running\<close> is the set of the threads between the test and the exit of the loop, \<open>unserved\<close> counts the
  events that came since the start of the latest round, \<open>events\<close> counts all of them.
  The theorems: at most one thread calls the handler at any time, and when nobody is inside, no
  event is left without a round that started after it.
\<close>

record handling =
  in_progress :: int
  finished :: bool
  thrown :: bool
  running :: "nat set"
  unserved :: nat
  events :: nat

definition handling_new :: handling where
  "handling_new = \<lparr>in_progress = 0, finished = False, thrown = False, running = {},
     unserved = 0, events = 0\<rparr>"

text \<open>\<open>handle_in_progress++\<close> and the test: the thread runs the first round or leaves.\<close>

definition enter :: "nat \<Rightarrow> handling \<Rightarrow> handling" where
  "enter t s =
     (let prev = in_progress s;
          s1 = s\<lparr>in_progress := s32 (prev + 1), events := Suc (events s), unserved := Suc (unserved s)\<rparr>
      in if \<not> finished s \<and> prev = 0
         then s1\<lparr>running := insert t (running s1), unserved := 0\<rparr> else s1)"

text \<open>The test \<open>(prev = handle_in_progress--) > 1\<close> at the end of a round.\<close>

definition leave :: "nat \<Rightarrow> handling \<Rightarrow> handling" where
  "leave t s =
     (let prev = in_progress s;
          s1 = s\<lparr>in_progress := s32 (prev - 1)\<rparr>
      in if prev > 1 then s1\<lparr>unserved := 0\<rparr> else s1\<lparr>running := running s1 - {t}\<rparr>)"

definition close_holder :: "nat \<Rightarrow> handling \<Rightarrow> handling" where
  "close_holder t s = s\<lparr>finished := True, running := running s - {t}\<rparr>"

definition throw_out :: "nat \<Rightarrow> handling \<Rightarrow> handling" where
  "throw_out t s = s\<lparr>thrown := True, running := running s - {t}\<rparr>"

inductive handling_step :: "handling \<Rightarrow> handling \<Rightarrow> bool" where
  step_enter: "t \<notin> running s \<Longrightarrow> handling_step s (enter t s)"
| step_leave: "t \<in> running s \<Longrightarrow> handling_step s (leave t s)"
| step_close: "t \<in> running s \<Longrightarrow> handling_step s (close_holder t s)"
| step_throw: "t \<in> running s \<Longrightarrow> handling_step s (throw_out t s)"

inductive handling_reachable :: "handling \<Rightarrow> bool" where
  handling_init: "handling_reachable handling_new"
| handling_next: "handling_reachable s \<Longrightarrow> handling_step s s' \<Longrightarrow> handling_reachable s'"

text \<open>
  The invariant, while fewer events than \<open>int\<close> can count have come.
\<close>

definition handling_inv :: "handling \<Rightarrow> bool" where
  "handling_inv s \<longleftrightarrow>
     0 \<le> in_progress s \<and> in_progress s \<le> int (events s) \<and>
     (running s = {} \<or> (\<exists>t. running s = {t})) \<and>
     (running s \<noteq> {} \<longrightarrow> int (unserved s) < in_progress s \<and> \<not> finished s \<and> \<not> thrown s) \<and>
     (running s = {} \<and> \<not> finished s \<and> \<not> thrown s \<longrightarrow> in_progress s = 0 \<and> unserved s = 0) \<and>
     (finished s \<or> thrown s \<longrightarrow> 0 < in_progress s)"

lemma handling_inv_new: "handling_inv handling_new"
  by (simp add: handling_inv_def handling_new_def)

lemma handling_inv_enter:
  assumes "handling_inv s" and "int (events s) < 2 ^ 31 - 1"
  shows "handling_inv (enter t s)"
proof -
  have "s32 (in_progress s + 1) = in_progress s + 1"
    using assms by (intro s32_id) (simp_all add: handling_inv_def)
  then show ?thesis
    using assms(1) by (auto simp: handling_inv_def enter_def Let_def)
qed

lemma handling_inv_leave:
  assumes "handling_inv s" and "t \<in> running s" and "int (events s) < 2 ^ 31"
  shows "handling_inv (leave t s)"
proof -
  have "running s = {t}" "int (unserved s) < in_progress s" "\<not> finished s" "\<not> thrown s"
    using assms(1,2) by (auto simp: handling_inv_def)
  moreover from this have "s32 (in_progress s - 1) = in_progress s - 1"
    using assms by (intro s32_id) (simp_all add: handling_inv_def)
  ultimately show ?thesis
    using assms(1) by (auto simp: handling_inv_def leave_def Let_def)
qed

lemma handling_inv_exit:
  assumes "handling_inv s" and "t \<in> running s"
  shows "handling_inv (close_holder t s)" and "handling_inv (throw_out t s)"
proof -
  have "running s = {t}" "int (unserved s) < in_progress s"
    using assms by (auto simp: handling_inv_def)
  then show "handling_inv (close_holder t s)" and "handling_inv (throw_out t s)"
    using assms(1) by (auto simp: handling_inv_def close_holder_def throw_out_def)
qed

lemma events_mono: "handling_step s s' \<Longrightarrow> events s \<le> events s'"
  by (induction rule: handling_step.induct)
    (auto simp: enter_def leave_def close_holder_def throw_out_def Let_def)

lemma handling_inv_reachable:
  "handling_reachable s \<Longrightarrow> int (events s) < 2 ^ 31 \<Longrightarrow> handling_inv s"
proof (induction rule: handling_reachable.induct)
  case (handling_next s s')
  have ev: "int (events s) < 2 ^ 31"
    using events_mono [OF handling_next.hyps(2)] handling_next.prems by simp
  note inv = handling_next.IH [OF ev]
  from handling_next.hyps(2) show ?case
  proof cases
    case (step_enter t)
    then have "events s' = Suc (events s)" by (simp add: enter_def Let_def)
    then show ?thesis using handling_inv_enter [OF inv] handling_next.prems step_enter by simp
  next
    case (step_leave t)
    then show ?thesis using handling_inv_leave [OF inv _ ev] by simp
  qed (use handling_inv_exit [OF inv] in auto)
qed (rule handling_inv_new)

text \<open>C2: in every interleaving, as long as \<open>int\<close> can count the events of the holder, at most one
  thread is between the test and the end of the loop, so \<open>read\<close> and \<open>write\<close> of a handler never
  run at the same time; and once a holder is closed nobody runs.\<close>

theorem one_thread_handles:
  assumes "handling_reachable s" and "int (events s) < 2 ^ 31"
    and "t1 \<in> running s" and "t2 \<in> running s"
  shows "t1 = t2 \<and> \<not> finished s \<and> 0 < in_progress s"
  using handling_inv_reachable [OF assms(1,2)] assms(3,4) by (auto simp: handling_inv_def)

lemma handling_example:
  "handling_reachable (enter 2 (enter 1 handling_new))"
  by (intro handling_next [OF _ step_enter] handling_init) (auto simp: handling_new_def enter_def)

theorem one_thread_handles_witness:
  "running (enter 2 (enter 1 handling_new)) = {1} \<and> 0 < in_progress (enter 2 (enter 1 handling_new))"
proof -
  have e: "running (enter 2 (enter 1 handling_new)) = {1}" "events (enter 2 (enter 1 handling_new)) = 2"
    by (simp_all add: enter_def handling_new_def s32_def)
  from one_thread_handles [OF handling_example, of 1 1] e show ?thesis by simp
qed

text \<open>C3: no event is lost: when no thread is inside and the handler is neither closed nor left
  by an exception, a round has started after every event that came, and the counter is 0, so the
  next event starts a round.\<close>

theorem no_event_lost:
  assumes "handling_reachable s" and "int (events s) < 2 ^ 31"
    and "running s = {}" and "\<not> finished s" and "\<not> thrown s"
  shows "unserved s = 0 \<and> in_progress s = 0 \<and> running (enter t s) = {t}"
  using handling_inv_reachable [OF assms(1,2)] assms(3-5)
  by (simp add: handling_inv_def enter_def Let_def)

theorem no_event_lost_witness:
  "unserved (leave 1 (leave 1 (enter 2 (enter 1 handling_new)))) = 0"
proof -
  have "handling_reachable (leave 1 (leave 1 (enter 2 (enter 1 handling_new))))"
    by (intro handling_next [OF _ step_leave] handling_example)
      (simp_all add: enter_def leave_def handling_new_def s32_def)
  from no_event_lost [OF this] show ?thesis
    by (simp add: enter_def leave_def handling_new_def s32_def Let_def)
qed

end
