(* ===== verification/OneShot.thy ===== *)
theory OneShot
  imports PollerThreads
begin

section \<open>Events, rounds and rearming of one descriptor (litemq/DescriptorHandlerPoller.cpp)\<close>

text \<open>
  \<open>PollerThreads\<close> lets events come at any time. Here they come from the poll set: \<open>epoll_wait\<close> gives an event to
  a thread only while the descriptor is armed, a delivery disarms it when it is armed with \<open>EPOLLONESHOT\<close>, and
  \<open>handle_\<close> arms it again after its loop, outside the lock. The relation has one step for each of these, with
  the counter of \<open>PollerThreads\<close> inside (\<open>core\<close>). \<open>oneshot\<close> says whether the flag is set, as \<open>EPOLL_FLAGS\<close> has it, and \<open>wakes\<close>
  whether other threads call \<open>rearm\<close> of the handler, as \<open>wakeup\<close> of a sending handler does and the
  handlers of the server do not.

  The theorems: the relation refines the one of \<open>PollerThreads\<close>; with \<open>EPOLLONESHOT\<close> and without wake-ups one thread
  at a time has anything to do with the holder and its handler is there when it is armed again; with wake-ups another
  thread can close the handler before the first arms it, which then goes through a null pointer.
\<close>

record oneshot_state =
  core :: handling
  armed :: bool
  notified :: "nat set"
  rearming :: "nat set"
  again :: bool
  null_rearm :: bool

definition oneshot_new :: oneshot_state where
  "oneshot_new = \<lparr>core = handling_new, armed = True, notified = {}, rearming = {}, again = False, null_rearm = False\<rparr>"

text \<open>\<open>epoll_wait\<close> returns the event to the thread.\<close>

definition deliver_event :: "bool \<Rightarrow> nat \<Rightarrow> oneshot_state \<Rightarrow> oneshot_state" where
  "deliver_event oneshot t s = s\<lparr>armed := \<not> oneshot, notified := insert t (notified s)\<rparr>"

text \<open>\<open>handle_\<close> up to the first test; \<open>again\<close> is \<open>rearm_fd\<close> of the thread that runs the rounds.\<close>

definition begin_handle :: "nat \<Rightarrow> oneshot_state \<Rightarrow> oneshot_state" where
  "begin_handle t s =
     (let c = enter t (core s)
      in s\<lparr>core := c, notified := notified s - {t}, again := (if t \<in> running c then False else again s)\<rparr>)"

text \<open>The end of a round that leaves the handler open: one more round, or out of the loop and to the rearming.\<close>

definition end_round :: "nat \<Rightarrow> oneshot_state \<Rightarrow> oneshot_state" where
  "end_round t s =
     (let c = leave t (core s)
      in s\<lparr>core := c, again := True, rearming := (if t \<in> running c then rearming s else insert t (rearming s))\<rparr>)"

text \<open>A round that closes the handler takes the descriptor out of the poll set; after an earlier
  round \<open>rearm_fd\<close> is still set.\<close>

definition close_round :: "nat \<Rightarrow> oneshot_state \<Rightarrow> oneshot_state" where
  "close_round t s =
     s\<lparr>core := close_holder t (core s), armed := False,
       rearming := (if again s then insert t (rearming s) else rearming s)\<rparr>"

definition throw_round :: "nat \<Rightarrow> oneshot_state \<Rightarrow> oneshot_state" where
  "throw_round t s = s\<lparr>core := throw_out t (core s)\<rparr>"

definition rearm_holder :: "nat \<Rightarrow> oneshot_state \<Rightarrow> oneshot_state" where
  "rearm_holder t s =
     (let s1 = s\<lparr>rearming := rearming s - {t}\<rparr>
      in if finished (core s) then s1\<lparr>null_rearm := True\<rparr> else s1\<lparr>armed := True\<rparr>)"

text \<open>\<open>rearm\<close> from outside reaches the holder only while the handler is linked to it.\<close>

definition wake_holder :: "oneshot_state \<Rightarrow> oneshot_state" where
  "wake_holder s = (if finished (core s) then s else s\<lparr>armed := True\<rparr>)"

inductive oneshot_step :: "bool \<Rightarrow> bool \<Rightarrow> oneshot_state \<Rightarrow> oneshot_state \<Rightarrow> bool" for oneshot :: bool and wakes :: bool where
  os_deliver: "armed s \<Longrightarrow> t \<notin> notified s \<Longrightarrow> t \<notin> running (core s) \<Longrightarrow> t \<notin> rearming s \<Longrightarrow>
    oneshot_step oneshot wakes s (deliver_event oneshot t s)"
| os_begin: "t \<in> notified s \<Longrightarrow> oneshot_step oneshot wakes s (begin_handle t s)"
| os_end: "t \<in> running (core s) \<Longrightarrow> oneshot_step oneshot wakes s (end_round t s)"
| os_close: "t \<in> running (core s) \<Longrightarrow> oneshot_step oneshot wakes s (close_round t s)"
| os_throw: "t \<in> running (core s) \<Longrightarrow> oneshot_step oneshot wakes s (throw_round t s)"
| os_rearm: "t \<in> rearming s \<Longrightarrow> oneshot_step oneshot wakes s (rearm_holder t s)"
| os_wake: "wakes \<Longrightarrow> oneshot_step oneshot wakes s (wake_holder s)"

inductive oneshot_reachable :: "bool \<Rightarrow> bool \<Rightarrow> oneshot_state \<Rightarrow> bool" for oneshot :: bool and wakes :: bool where
  os_init: "oneshot_reachable oneshot wakes oneshot_new"
| os_next: "oneshot_reachable oneshot wakes s \<Longrightarrow> oneshot_step oneshot wakes s s' \<Longrightarrow> oneshot_reachable oneshot wakes s'"

lemmas oneshot_defs = deliver_event_def begin_handle_def end_round_def close_round_def throw_round_def
  rearm_holder_def wake_holder_def

subsection \<open>Refinement\<close>

definition apart :: "oneshot_state \<Rightarrow> bool" where
  "apart s \<longleftrightarrow> notified s \<inter> running (core s) = {} \<and> notified s \<inter> rearming s = {}"

lemma running_enter: "running (enter t c) \<subseteq> insert t (running c)"
  by (auto simp: enter_def Let_def)

lemma running_leave: "running (leave t c) \<subseteq> running c"
  by (auto simp: leave_def Let_def)

lemma apart_step: "oneshot_step oneshot wakes s s' \<Longrightarrow> apart s \<Longrightarrow> apart s'"
proof (induction rule: oneshot_step.induct)
  case (os_begin t s)
  then show ?case using running_enter [of t "core s"] by (auto simp: apart_def begin_handle_def Let_def)
next
  case (os_end t s)
  then show ?case using running_leave [of t "core s"] by (auto simp: apart_def end_round_def Let_def)
qed (auto simp: apart_def oneshot_defs close_holder_def throw_out_def Let_def)

lemma core_step:
  "oneshot_step oneshot wakes s s' \<Longrightarrow> apart s \<Longrightarrow> core s' = core s \<or> handling_step (core s) (core s')"
proof (induction rule: oneshot_step.induct)
  case (os_begin t s)
  then have "t \<notin> running (core s)" by (auto simp: apart_def)
  then show ?case using step_enter [of t "core s"] by (simp add: begin_handle_def Let_def)
qed (auto simp: oneshot_defs Let_def intro: handling_step.intros)

lemma oneshot_reachable_core: "oneshot_reachable oneshot wakes s \<Longrightarrow> handling_reachable (core s) \<and> apart s"
proof (induction rule: oneshot_reachable.induct)
  case os_init
  then show ?case by (simp add: oneshot_new_def apart_def handling_init)
next
  case (os_next s s')
  then show ?case using core_step [of oneshot wakes s s'] apart_step [of oneshot wakes s s'] handling_next by metis
qed

subsection \<open>The token\<close>

text \<open>Without wake-ups the right to touch the holder goes round: the poll set has it, or one thread.\<close>

definition shape :: "oneshot_state \<Rightarrow> bool \<Rightarrow> nat set \<Rightarrow> nat set \<Rightarrow> nat set \<Rightarrow> int \<Rightarrow> bool \<Rightarrow> bool" where
  "shape s a ns rs ms i f \<longleftrightarrow>
     armed s = a \<and> notified s = ns \<and> running (core s) = rs \<and> rearming s = ms \<and> in_progress (core s) = i \<and>
     finished (core s) = f \<and> \<not> null_rearm s"

inductive one_token :: "oneshot_state \<Rightarrow> bool" where
  token_armed: "shape s True {} {} {} 0 False \<Longrightarrow> one_token s"
| token_notified: "shape s False {t} {} {} 0 False \<Longrightarrow> one_token s"
| token_running: "shape s False {} {t} {} 1 False \<Longrightarrow> \<not> again s \<Longrightarrow> one_token s"
| token_rearming: "shape s False {} {} {t} 0 False \<Longrightarrow> one_token s"
| token_gone: "shape s False {} {} {} 1 f \<Longrightarrow> one_token s"

lemma token_moves:
  "shape s True {} {} {} 0 False \<Longrightarrow> shape (deliver_event True t s) False {t} {} {} 0 False"
  "shape s False {t} {} {} 0 False \<Longrightarrow> shape (begin_handle t s) False {} {t} {} 1 False"
  "shape s False {t} {} {} 0 False \<Longrightarrow> \<not> again (begin_handle t s)"
  "shape s False {} {t} {} 1 False \<Longrightarrow> shape (end_round t s) False {} {} {t} 0 False"
  "shape s False {} {t} {} 1 False \<Longrightarrow> \<not> again s \<Longrightarrow> shape (close_round t s) False {} {} {} 1 True"
  "shape s False {} {t} {} 1 False \<Longrightarrow> shape (throw_round t s) False {} {} {} 1 False"
  "shape s False {} {} {t} 0 False \<Longrightarrow> shape (rearm_holder t s) True {} {} {} 0 False"
  by (simp_all add: shape_def oneshot_defs enter_def leave_def close_holder_def throw_out_def s32_def Let_def)

lemma shape_guards:
  "shape s a ns rs ms i f \<Longrightarrow> armed s = a" "shape s a ns rs ms i f \<Longrightarrow> notified s = ns"
  "shape s a ns rs ms i f \<Longrightarrow> running (core s) = rs" "shape s a ns rs ms i f \<Longrightarrow> rearming s = ms"
  by (simp_all add: shape_def)

lemma one_token_step: "oneshot_step True False s s' \<Longrightarrow> one_token s \<Longrightarrow> one_token s'"
proof (induction rule: oneshot_step.induct)
  case (os_deliver s t)
  from os_deliver(5) show ?case
    by cases (use os_deliver(1) in \<open>auto dest: shape_guards intro: token_notified token_moves\<close>)
next
  case (os_begin t s)
  from os_begin(2) show ?case
  proof cases
    case (token_notified t')
    with os_begin(1) have "t' = t" by (auto dest: shape_guards)
    with token_notified have n: "shape s False {t} {} {} 0 False" by simp
    show ?thesis by (rule token_running [OF token_moves(2,3) [OF n]])
  qed (use os_begin(1) in \<open>auto dest: shape_guards\<close>)
next
  case (os_end t s)
  from os_end(2) show ?case
  proof cases
    case (token_running t')
    with os_end(1) have "t' = t" by (auto dest: shape_guards)
    with token_running show ?thesis by (auto intro: token_rearming token_moves)
  qed (use os_end(1) in \<open>auto dest: shape_guards\<close>)
next
  case (os_close t s)
  from os_close(2) show ?case
  proof cases
    case (token_running t')
    with os_close(1) have "t' = t" by (auto dest: shape_guards)
    with token_running show ?thesis by (auto intro: token_gone token_moves)
  qed (use os_close(1) in \<open>auto dest: shape_guards\<close>)
next
  case (os_throw t s)
  from os_throw(2) show ?case
  proof cases
    case (token_running t')
    with os_throw(1) have "t' = t" by (auto dest: shape_guards)
    with token_running show ?thesis by (auto intro: token_gone token_moves)
  qed (use os_throw(1) in \<open>auto dest: shape_guards\<close>)
next
  case (os_rearm t s)
  from os_rearm(2) show ?case
  proof cases
    case (token_rearming t')
    with os_rearm(1) have "t' = t" by (auto dest: shape_guards)
    with token_rearming show ?thesis by (auto intro: token_armed token_moves)
  qed (use os_rearm(1) in \<open>auto dest: shape_guards\<close>)
qed simp

lemma one_token_reachable: "oneshot_reachable True False s \<Longrightarrow> one_token s"
proof (induction rule: oneshot_reachable.induct)
  case os_init
  show ?case by (rule token_armed) (simp add: shape_def oneshot_new_def handling_new_def)
qed (rule one_token_step)

subsection \<open>Properties\<close>

text \<open>C25: Without wake-ups from outside, as in the server, \<open>EPOLLONESHOT\<close> alone keeps the threads of a descriptor
  apart: in every interleaving one thread at most is between \<open>epoll_wait\<close> and the rearming, nobody is while the descriptor is
  armed, the counter never passes 1, and the handler is still there when its descriptor is armed again.\<close>

theorem oneshot_gives_one_token:
  assumes "oneshot_reachable True False s"
    and "t1 \<in> notified s \<union> running (core s) \<union> rearming s" and "t2 \<in> notified s \<union> running (core s) \<union> rearming s"
  shows "t1 = t2 \<and> \<not> armed s \<and> in_progress (core s) \<le> 1 \<and> \<not> null_rearm s \<and> (t1 \<in> rearming s \<longrightarrow> \<not> finished (core s))"
  using one_token_reachable [OF assms(1)] assms(2,3) by cases (auto simp: shape_def)

lemma oneshot_example: "oneshot_reachable True w (end_round 1 (begin_handle 1 (deliver_event True 1 oneshot_new)))"
  by (intro os_next [OF _ os_end] os_next [OF _ os_begin] os_next [OF _ os_deliver] os_init)
    (simp_all add: oneshot_new_def handling_new_def oneshot_defs enter_def s32_def Let_def)

theorem oneshot_gives_one_token_witness:
  "rearming (end_round 1 (begin_handle 1 (deliver_event True 1 oneshot_new))) = {1} \<and>
   \<not> finished (core (end_round 1 (begin_handle 1 (deliver_event True 1 oneshot_new))))"
proof -
  have "rearming (end_round 1 (begin_handle 1 (deliver_event True 1 oneshot_new))) = {1}"
    by (simp add: oneshot_new_def handling_new_def oneshot_defs enter_def leave_def s32_def Let_def)
  with oneshot_gives_one_token [OF oneshot_example, of 1 1] show ?thesis by simp
qed

text \<open>C39: With wake-ups the rearming is not safe: a thread has left the loop, the wake-up arms the descriptor, a second
  thread gets an event, enters, as the counter is 0 again, and closes the handler; the first then arms
  a holder without a handler, through a null pointer. The counter has done its work throughout: its state is one
  that \<open>PollerThreads\<close> reaches.\<close>

theorem wakeup_breaks_rearming:
  "\<exists>s. oneshot_reachable True True s \<and> null_rearm s \<and> handling_reachable (core s)"
proof -
  let ?s1 = "end_round 1 (begin_handle 1 (deliver_event True 1 oneshot_new))"
  let ?s2 = "close_round 2 (begin_handle 2 (deliver_event True 2 (wake_holder ?s1)))"
  let ?s = "rearm_holder 1 ?s2"
  have "oneshot_reachable True True ?s"
    by (intro os_next [OF _ os_rearm] os_next [OF _ os_close] os_next [OF _ os_begin] os_next [OF _ os_deliver]
        os_next [OF _ os_wake] oneshot_example)
      (simp_all add: oneshot_new_def handling_new_def oneshot_defs enter_def leave_def close_holder_def s32_def Let_def)
  moreover have "null_rearm ?s"
    by (simp add: oneshot_new_def handling_new_def oneshot_defs enter_def leave_def close_holder_def s32_def Let_def)
  ultimately show ?thesis using oneshot_reachable_core by blast
qed

end
