(* ===== verification/EventBatches.thy ===== *)
theory EventBatches
  imports Cleaner
begin

section \<open>The events of an \<open>epoll_wait\<close> and the cleaner (litemq/DescriptorHandlerPoller.cpp)\<close>

text \<open>
  \<open>epoll_wait\<close> gives a thread an array of events, each with the address of a holder, which the thread serves one by one. A
  holder closed meanwhile by another thread goes to the cleaner, which must not free it while it is still in somebody's
  array. \<open>process_\<close> calls \<open>release\<close> after the whole array; but \<open>handle_\<close> calls it as well, after every event (\<open>early\<close>).
  As in \<open>OneShot\<close>, \<open>wakes\<close> says whether others arm descriptors that a thread is about to serve.

  One step is a wait, the handling of one event, the \<open>release\<close> at the end of an array, or a wake-up, of any of the threads. The
  theorems: without wake-ups, or with the \<open>release\<close> of \<open>process_\<close> alone, no thread ever has a freed holder in its array; with both, as
  the library is written, it can happen.
\<close>

subsection \<open>Steps\<close>

record batches =
  clean :: cleaner_run
  batch :: "nat \<Rightarrow> nat list"
  polled :: "nat set"
  gone :: "nat set"
  dangling :: bool

definition batches_new :: "nat \<Rightarrow> nat set \<Rightarrow> batches" where
  "batches_new threads hs =
     \<lparr>clean = (cleaner_new threads, \<lambda>_. {}), batch = (\<lambda>_. []), polled = hs, gone = {}, dangling = False\<rparr>"

definition freed_holders :: "batches \<Rightarrow> nat set" where
  "freed_holders s = set (freed (fst (clean s)))"

definition release_by :: "nat \<Rightarrow> batches \<Rightarrow> batches" where
  "release_by t s =
     (case release t (fst (clean s)) of
        Inr c \<Rightarrow> s\<lparr>clean := (c, \<lambda>h. insert t (snd (clean s) h))\<rparr>
      | Inl _ \<Rightarrow> s)"

definition take_events :: "nat \<Rightarrow> nat list \<Rightarrow> batches \<Rightarrow> batches" where
  "take_events t evs s = s\<lparr>batch := (batch s)(t := evs), polled := polled s - set evs\<rparr>"

text \<open>The end of \<open>handle_\<close> for the first event of the array.\<close>

definition event_done :: "bool \<Rightarrow> nat \<Rightarrow> batches \<Rightarrow> batches" where
  "event_done early t s =
     (let s1 = s\<lparr>batch := (batch s)(t := tl (batch s t))\<rparr> in if early then release_by t s1 else s1)"

text \<open>A handle that keeps its handler arms it again, one that closes it pushes the holder; one that finds the holder
  closed or taken by another thread does nothing.\<close>

definition serve_event :: "bool \<Rightarrow> nat \<Rightarrow> nat \<Rightarrow> batches \<Rightarrow> batches" where
  "serve_event early t h s = event_done early t (s\<lparr>polled := insert h (polled s)\<rparr>)"

definition close_event :: "bool \<Rightarrow> nat \<Rightarrow> nat \<Rightarrow> batches \<Rightarrow> batches" where
  "close_event early t h s =
     event_done early t (s\<lparr>clean := (cleaner_push h (fst (clean s)), (snd (clean s))(h := {})),
       polled := polled s - {h}, gone := insert h (gone s)\<rparr>)"

inductive batches_step :: "bool \<Rightarrow> bool \<Rightarrow> nat \<Rightarrow> nat set \<Rightarrow> batches \<Rightarrow> batches \<Rightarrow> bool"
  for early :: bool and wakes :: bool and threads :: nat and hs :: "nat set" where
  b_wait: "t < threads \<Longrightarrow> batch s t = [] \<Longrightarrow> distinct evs \<Longrightarrow> set evs \<subseteq> polled s \<Longrightarrow>
    batches_step early wakes threads hs s (take_events t evs s)"
| b_serve: "batch s t = h # evs \<Longrightarrow> h \<notin> freed_holders s \<Longrightarrow> h \<notin> gone s \<Longrightarrow>
    batches_step early wakes threads hs s (serve_event early t h s)"
| b_close: "batch s t = h # evs \<Longrightarrow> h \<notin> freed_holders s \<Longrightarrow> h \<notin> gone s \<Longrightarrow>
    batches_step early wakes threads hs s (close_event early t h s)"
| b_skip: "batch s t = h # evs \<Longrightarrow> h \<notin> freed_holders s \<Longrightarrow>
    batches_step early wakes threads hs s (event_done early t s)"
| b_dangling: "batch s t = h # evs \<Longrightarrow> h \<in> freed_holders s \<Longrightarrow>
    batches_step early wakes threads hs s (s\<lparr>dangling := True\<rparr>)"
| b_end: "t < threads \<Longrightarrow> batch s t = [] \<Longrightarrow> batches_step early wakes threads hs s (release_by t s)"
| b_wake: "wakes \<Longrightarrow> h \<in> hs \<Longrightarrow> h \<notin> gone s \<Longrightarrow>
    batches_step early wakes threads hs s (s\<lparr>polled := insert h (polled s)\<rparr>)"

inductive batches_reachable :: "bool \<Rightarrow> bool \<Rightarrow> nat \<Rightarrow> nat set \<Rightarrow> batches \<Rightarrow> bool"
  for early :: bool and wakes :: bool and threads :: nat and hs :: "nat set" where
  b_init: "batches_reachable early wakes threads hs (batches_new threads hs)"
| b_next: "batches_reachable early wakes threads hs s \<Longrightarrow> batches_step early wakes threads hs s s' \<Longrightarrow>
    batches_reachable early wakes threads hs s'"

subsection \<open>The cleaner's part\<close>

lemma release_holders: "release i c = Inr c' \<Longrightarrow> set (holders_of c') = set (holders_of c)"
  by (auto simp: release_def finish_round_def holders_of_def counter_post_dec_def Let_def split: if_splits prod.splits)

lemma release_by_simps [simp]:
  "batch (release_by t s) = batch s" "polled (release_by t s) = polled s" "gone (release_by t s) = gone s"
  "dangling (release_by t s) = dangling s"
  by (simp_all add: release_by_def split: sum.splits)

lemma release_by_rel: "u \<in> snd (clean (release_by t s)) h \<Longrightarrow> u = t \<or> u \<in> snd (clean s) h"
  by (auto simp: release_by_def split: sum.splits)

lemma event_done_simps [simp]:
  "batch (event_done early t s) = (batch s)(t := tl (batch s t))" "polled (event_done early t s) = polled s"
  "gone (event_done early t s) = gone s" "dangling (event_done early t s) = dangling s"
  by (simp_all add: event_done_def Let_def)

definition pushed :: "batches \<Rightarrow> nat set" where
  "pushed s = set (holders_of (fst (clean s)))"

lemma pushed_release [simp]: "pushed (release_by t s) = pushed s"
  using release_holders [of t "fst (clean s)"] by (auto simp: pushed_def release_by_def split: sum.splits)

lemma pushed_done [simp]: "pushed (event_done early t s) = pushed s"
  using pushed_release [of t "s\<lparr>batch := (batch s)(t := tl (batch s t))\<rparr>"]
  by (simp add: event_done_def Let_def pushed_def del: pushed_release)

lemma freed_pushed: "freed_holders s \<subseteq> pushed s"
  by (auto simp: freed_holders_def pushed_def holders_of_def)

lemma release_by_reachable: "cleaner_reachable threads (clean s) \<Longrightarrow> cleaner_reachable threads (clean (release_by t s))"
proof (cases "release t (fst (clean s))")
  case (Inr c)
  assume "cleaner_reachable threads (clean s)"
  moreover have "cleaner_step (clean s) (c, \<lambda>h. insert t (snd (clean s) h))"
    using cleaner_release_step [OF Inr, of "snd (clean s)"] by simp
  ultimately show ?thesis using Inr by (auto simp: release_by_def intro: cleaner_next)
qed (simp add: release_by_def)

lemma event_done_reachable: "cleaner_reachable threads (clean s) \<Longrightarrow> cleaner_reachable threads (clean (event_done early t s))"
  using release_by_reachable [of threads "s\<lparr>batch := (batch s)(t := tl (batch s t))\<rparr>" t] by (simp add: event_done_def Let_def)

definition cleaner_part :: "nat \<Rightarrow> batches \<Rightarrow> bool" where
  "cleaner_part threads s \<longleftrightarrow> cleaner_reachable threads (clean s) \<and> pushed s \<subseteq> gone s \<and> polled s \<inter> gone s = {}"

lemma cleaner_part_step: "batches_step early wakes threads hs s s' \<Longrightarrow> cleaner_part threads s \<Longrightarrow> cleaner_part threads s'"
proof (induction rule: batches_step.induct)
  case (b_close s t h evs)
  let ?s = "s\<lparr>clean := (cleaner_push h (fst (clean s)), (snd (clean s))(h := {})), polled := polled s - {h}, gone := insert h (gone s)\<rparr>"
  have "h \<notin> set (holders_of (fst (clean s)))" using b_close by (auto simp: cleaner_part_def pushed_def)
  from cleaner_push_step [OF this, of "snd (clean s)"] have "cleaner_reachable threads (clean ?s)"
    using b_close(4) by (auto simp: cleaner_part_def intro: cleaner_next)
  moreover have "pushed ?s = insert h (pushed s)"
    by (auto simp: pushed_def holders_of_def cleaner_push_def)
  ultimately show ?case
    using b_close(4) event_done_reachable [of threads ?s] by (auto simp: cleaner_part_def close_event_def)
qed (auto simp: cleaner_part_def take_events_def serve_event_def pushed_def [of "s\<lparr>polled := p\<rparr>" for s p]
    pushed_def [of "s\<lparr>dangling := p\<rparr>" for s p] pushed_def [of "s\<lparr>batch := b, polled := p\<rparr>" for s b p]
    intro: event_done_reachable release_by_reachable simp flip: pushed_def)

lemma cleaner_part_reachable: "batches_reachable early wakes threads hs s \<Longrightarrow> cleaner_part threads s"
proof (induction rule: batches_reachable.induct)
  case b_init
  have "pushed (batches_new threads hs) = {}"
    by (simp add: pushed_def batches_new_def holders_of_def cleaner_new_def)
  then show ?case by (simp add: cleaner_part_def batches_new_def cleaner_init)
qed (rule cleaner_part_step)

subsection \<open>Whose event it is\<close>

text \<open>Without wake-ups a holder is polled, or in one array, or gone.\<close>

definition places :: "(nat \<Rightarrow> nat list) \<Rightarrow> nat set \<Rightarrow> nat set \<Rightarrow> bool" where
  "places B P G \<longleftrightarrow>
     (\<forall>t. distinct (B t) \<and> (\<forall>x \<in> set (B t). x \<notin> P \<and> x \<notin> G)) \<and> (\<forall>t u x. x \<in> set (B t) \<longrightarrow> x \<in> set (B u) \<longrightarrow> t = u)"

definition one_place :: "batches \<Rightarrow> bool" where
  "one_place s \<longleftrightarrow> places (batch s) (polled s) (gone s) \<and> \<not> dangling s"

lemma places_tail:
  assumes "places B P G" and "B t = h # evs" and "P' \<subseteq> insert h P" and "G' \<subseteq> insert h G"
  shows "places (B(t := evs)) P' G'"
proof -
  have t: "distinct (h # evs)" using assms(1,2) unfolding places_def by metis
  have tail: "x \<in> set (B u) \<and> x \<noteq> h" if "x \<in> set ((B(t := evs)) u)" for x u
  proof (cases "u = t")
    case True
    then show ?thesis using that t assms(2) by auto
  next
    case False
    then have "h \<notin> set (B u)" using assms(1,2) unfolding places_def by (metis list.set_intros(1))
    then show ?thesis using that False by auto
  qed
  have "distinct ((B(t := evs)) u)" for u
    using assms(1) t unfolding places_def by simp
  moreover have "x \<notin> P' \<and> x \<notin> G'" if "x \<in> set ((B(t := evs)) u)" for x u
    using tail [OF that] assms(1,3,4) unfolding places_def by blast
  moreover have "u = v" if "x \<in> set ((B(t := evs)) u)" "x \<in> set ((B(t := evs)) v)" for x u v
    using tail [OF that(1)] tail [OF that(2)] assms(1) unfolding places_def by blast
  ultimately show ?thesis unfolding places_def by blast
qed

lemma places_take:
  "places B P G \<Longrightarrow> B t = [] \<Longrightarrow> distinct evs \<Longrightarrow> set evs \<subseteq> P \<Longrightarrow> P \<inter> G = {} \<Longrightarrow> places (B(t := evs)) (P - set evs) G"
  unfolding places_def by (auto split: if_splits)

lemma one_place_step:
  "batches_step early False threads hs s s' \<Longrightarrow> cleaner_part threads s \<Longrightarrow> one_place s \<Longrightarrow> one_place s'"
proof (induction rule: batches_step.induct)
  case (b_wait t s evs)
  then show ?case by (simp add: one_place_def take_events_def cleaner_part_def places_take)
next
  case (b_serve s t h evs)
  then show ?case by (auto simp: one_place_def serve_event_def intro: places_tail)
next
  case (b_close s t h evs)
  then show ?case by (auto simp: one_place_def close_event_def intro: places_tail)
next
  case (b_skip s t h evs)
  then show ?case by (auto simp: one_place_def intro: places_tail)
next
  case (b_dangling s t h evs)
  then have "h \<in> gone s" using freed_pushed [of s] by (auto simp: cleaner_part_def)
  moreover have "h \<in> set (batch s t)" using b_dangling(1) by simp
  ultimately show ?case using b_dangling(4) unfolding one_place_def places_def by blast
qed (simp_all add: one_place_def)

text \<open>With the \<open>release\<close> after the array alone, a thread has not released since a holder in its array was pushed.\<close>

definition unreleased :: "nat \<Rightarrow> batches \<Rightarrow> bool" where
  "unreleased threads s \<longleftrightarrow>
     (\<forall>t. (batch s t \<noteq> [] \<longrightarrow> t < threads) \<and> (\<forall>h \<in> set (batch s t) \<inter> gone s. t \<notin> snd (clean s) h)) \<and> \<not> dangling s"

lemma pending_not_freed:
  assumes "cleaner_part threads s" and "unreleased threads s" and "0 < threads" and "int threads < 2 ^ 31"
    and "h \<in> set (batch s t)"
  shows "h \<notin> freed_holders s"
proof
  assume f: "h \<in> freed_holders s"
  then have "h \<in> gone s" using freed_pushed [of s] assms(1) by (auto simp: cleaner_part_def)
  moreover have "batch s t \<noteq> []" using assms(5) by auto
  ultimately have n: "t \<notin> snd (clean s) h" "t < threads" using assms(2,5) unfolding unreleased_def by blast+
  have "cleaner_run_inv threads (fst (clean s), snd (clean s))"
    using cleaner_run_inv_reachable [OF _ assms(3,4), of "clean s"] assms(1) by (simp add: cleaner_part_def)
  then have "\<forall>obj \<in> set (freed (fst (clean s))). {..<threads} \<subseteq> snd (clean s) obj"
    by (cases "clean s") (simp add: cleaner_run_inv_def)
  then show False using f n unfolding freed_holders_def by blast
qed

lemma unreleased_step:
  assumes "batches_step False wakes threads hs s s'" and "cleaner_part threads s" and "unreleased threads s"
    and "0 < threads" and "int threads < 2 ^ 31"
  shows "unreleased threads s'"
  using assms(1,2,3)
proof (induction rule: batches_step.induct)
  case (b_wait t s evs)
  then show ?case by (auto simp: unreleased_def take_events_def cleaner_part_def)
next
  case (b_serve s t h evs)
  then show ?case by (auto simp: unreleased_def serve_event_def event_done_def)
next
  case (b_close s t h evs)
  then show ?case by (auto simp: unreleased_def close_event_def event_done_def)
next
  case (b_skip s t h evs)
  then show ?case by (auto simp: unreleased_def event_done_def)
next
  case (b_dangling s t h evs)
  then show ?case using pending_not_freed [OF b_dangling(3,4) assms(4,5), of h t] by simp
next
  case (b_end t s)
  show ?case
    unfolding unreleased_def
  proof (intro conjI allI ballI)
    fix u h assume h: "h \<in> set (batch (release_by t s) u) \<inter> gone (release_by t s)"
    then have "u \<noteq> t" using b_end(2) by auto
    then show "u \<notin> snd (clean (release_by t s)) h"
      using h b_end(4) release_by_rel [of u t s h] by (auto simp: unreleased_def)
  qed (use b_end(4) in \<open>auto simp: unreleased_def\<close>)
qed (auto simp: unreleased_def)

subsection \<open>Properties\<close>


text \<open>The cleaner of two threads along a run.\<close>

definition half_released :: "nat list \<Rightarrow> nat list \<Rightarrow> nat list \<Rightarrow> cleaner" where
  "half_released candidates fr done =
     \<lparr>release_array = [0, 1], unreleased_count = 1, free = fr, free_candidates = candidates, freed = done\<rparr>"

lemma example_releases:
  "release 1 (cleaner_push 7 (cleaner_new 2)) = Inr (half_released [7] [] [])"
  "release 0 (half_released [7] [] []) = Inr ((cleaner_new 2)\<lparr>free := [7]\<rparr>)"
  "release 1 ((cleaner_new 2)\<lparr>free := [7]\<rparr>) = Inr (half_released [] [7] [])"
  "release 0 (half_released [] [7] []) = Inr ((cleaner_new 2)\<lparr>freed := [7]\<rparr>)"
  by (simp_all add: cleaner_eval half_released_def numeral_2_eq_2)

text \<open>C37: With wake-ups the \<open>release\<close> at the end of every \<open>handle_\<close> defeats the cleaner: a thread that serves two other events of its array
  first has released twice, a second thread that closed the third holder meanwhile as well, the holder is freed, and its address is next in the
  array.\<close>

theorem early_release_frees_pending_event:
  "\<exists>s. batches_reachable True True 2 {7, 8, 9} s \<and> dangling s"
proof -
  let ?s1 = "take_events 0 [8, 9, 7] (batches_new 2 {7, 8, 9})"
  let ?s2 = "take_events 1 [7] (?s1\<lparr>polled := insert 7 (polled ?s1)\<rparr>)"
  let ?s3 = "close_event True 1 7 ?s2"
  let ?s4 = "serve_event True 0 8 ?s3"
  let ?s5 = "release_by 1 ?s4"
  let ?s6 = "serve_event True 0 9 ?s5"
  note defs = batches_new_def take_events_def close_event_def serve_event_def event_done_def release_by_def Let_def
  have f2: "freed_holders ?s2 = {}" by (simp add: freed_holders_def defs) (simp add: cleaner_new_def)
  have c: "fst (clean ?s3) = half_released [7] [] []" "fst (clean ?s4) = (cleaner_new 2)\<lparr>free := [7]\<rparr>"
    "fst (clean ?s5) = half_released [] [7] []" "fst (clean ?s6) = (cleaner_new 2)\<lparr>freed := [7]\<rparr>"
    by (simp_all add: defs example_releases del: One_nat_def)
  have f3: "freed_holders ?s3 = {}" by (simp only: freed_holders_def c) (simp add: half_released_def)
  have f5: "freed_holders ?s5 = {}" by (simp only: freed_holders_def c) (simp add: half_released_def)
  have f6: "freed_holders ?s6 = {7}" by (simp only: freed_holders_def c) simp
  have "batches_reachable True True 2 {7, 8, 9} ?s1"
    by (rule b_next [OF b_init b_wait]) (simp_all add: batches_new_def)
  then have "batches_reachable True True 2 {7, 8, 9} (?s1\<lparr>polled := insert 7 (polled ?s1)\<rparr>)"
    by (rule b_next [OF _ b_wake]) (simp_all add: batches_new_def take_events_def)
  then have "batches_reachable True True 2 {7, 8, 9} ?s2"
    by (rule b_next [OF _ b_wait]) (simp_all add: batches_new_def take_events_def)
  then have "batches_reachable True True 2 {7, 8, 9} ?s3"
    by (rule b_next [OF _ b_close [of _ 1 7 "[]"]]) (simp_all only: f2, simp_all add: batches_new_def take_events_def)
  then have "batches_reachable True True 2 {7, 8, 9} ?s4"
    by (rule b_next [OF _ b_serve [of _ 0 8 "[9, 7]"]])
      (simp_all only: f3, simp_all add: close_event_def batches_new_def take_events_def)
  then have "batches_reachable True True 2 {7, 8, 9} ?s5"
    by (rule b_next [OF _ b_end]) (simp_all add: close_event_def serve_event_def batches_new_def take_events_def)
  then have "batches_reachable True True 2 {7, 8, 9} ?s6"
    by (rule b_next [OF _ b_serve [of _ 0 9 "[7]"]])
      (simp_all only: f5, simp_all add: close_event_def serve_event_def batches_new_def take_events_def)
  then have "batches_reachable True True 2 {7, 8, 9} (?s6\<lparr>dangling := True\<rparr>)"
    by (rule b_next [OF _ b_dangling [of _ 0 7 "[]"]])
      (simp_all only: f6, simp_all add: close_event_def serve_event_def batches_new_def take_events_def)
  then show ?thesis by (intro exI [of _ "?s6\<lparr>dangling := True\<rparr>"]) simp
qed


end
