(* ===== verification/ProxyLifetime.thy ===== *)
theory ProxyLifetime
  imports Poller
begin

section \<open>Proxies and the end of their owner (litemq/DescriptorHandlerPoller.cpp)\<close>

text \<open>
  A proxy outlives its poller: acceptors keep it and call \<open>add\<close> from their own threads. \<open>add\<close> first takes a shared
  pointer to the owner with \<open>lock_owner_\<close>, so that the owner cannot go away meanwhile, and drops it at the end. The
  destructor of \<open>DescriptorHandlerPoller\<close> calls \<open>detach_\<close>, the one of \<open>DescriptorHandlerPollerPool\<close> does not.

  The step relation interleaves the threads of one owner: those that hold shared pointers, those inside
  \<open>Proxy::add\<close>, and the thread that dropped the last pointer and runs the destructor. \<open>shared_from_this\<close> throws
  \<open>bad_weak_ptr\<close> when no shared pointer is left, and \<open>lock_owner_\<close> is declared \<open>throw()\<close>: the program is
  terminated. Calling it on an object that has been freed is undefined.
\<close>

subsection \<open>Steps\<close>

datatype phase = Alive | Dying | Freed

datatype breakdown = Terminated | Used_After_Free

text \<open>\<open>others\<close> counts the shared pointers outside of \<open>Proxy::add\<close>, \<open>inside\<close> holds the threads with one in it.\<close>

record life =
  its_proxy :: proxy
  others :: nat
  inside :: "nat set"
  its_phase :: phase
  broken :: "breakdown option"

definition life_new :: life where
  "life_new = \<lparr>its_proxy = proxy_new 0, others = 1, inside = {}, its_phase = Alive, broken = None\<rparr>"

definition use_count :: "life \<Rightarrow> nat" where
  "use_count s = others s + card (inside s)"

definition copy_pointer :: "life \<Rightarrow> life" where
  "copy_pointer s = s\<lparr>others := others s + 1\<rparr>"

text \<open>The last pointer that is dropped starts the destructor.\<close>

definition destroy_unused :: "life \<Rightarrow> life" where
  "destroy_unused s = (if use_count s = 0 then s\<lparr>its_phase := Dying\<rparr> else s)"

definition drop_pointer :: "life \<Rightarrow> life" where
  "drop_pointer s = destroy_unused (s\<lparr>others := others s - 1\<rparr>)"

text \<open>The start of \<open>Proxy::add\<close> by a thread: \<open>False\<close> when it has no owner and \<open>add\<close> returns \<open>false\<close>.\<close>

definition borrow_owner :: "nat \<Rightarrow> life \<Rightarrow> bool \<times> life" where
  "borrow_owner t s =
     (case lock_owner (its_proxy s) of
        None \<Rightarrow> (False, s)
      | Some _ \<Rightarrow>
          if its_phase s = Freed then (False, s\<lparr>broken := Some Used_After_Free\<rparr>)
          else if use_count s = 0 then (False, s\<lparr>broken := Some Terminated\<rparr>)
          else (True, s\<lparr>inside := insert t (inside s)\<rparr>))"

text \<open>The end of \<open>Proxy::add\<close>.\<close>

definition return_owner :: "nat \<Rightarrow> life \<Rightarrow> life" where
  "return_owner t s = destroy_unused (s\<lparr>inside := inside s - {t}\<rparr>)"

definition detach_owner :: "life \<Rightarrow> life" where
  "detach_owner s = s\<lparr>its_proxy := proxy_detach (its_proxy s)\<rparr>"

definition free_owner :: "life \<Rightarrow> life" where
  "free_owner s = s\<lparr>its_phase := Freed\<rparr>"

text \<open>\<open>detaches\<close> tells the destructor of a poller from the one of a pool.\<close>

inductive life_step :: "bool \<Rightarrow> life \<Rightarrow> life \<Rightarrow> bool" for detaches :: bool where
  life_copy: "broken s = None \<Longrightarrow> 0 < others s \<Longrightarrow> life_step detaches s (copy_pointer s)"
| life_drop: "broken s = None \<Longrightarrow> 0 < others s \<Longrightarrow> life_step detaches s (drop_pointer s)"
| life_borrow: "broken s = None \<Longrightarrow> t \<notin> inside s \<Longrightarrow> life_step detaches s (snd (borrow_owner t s))"
| life_return: "broken s = None \<Longrightarrow> t \<in> inside s \<Longrightarrow> life_step detaches s (return_owner t s)"
| life_detach: "broken s = None \<Longrightarrow> detaches \<Longrightarrow> its_phase s = Dying \<Longrightarrow> life_step detaches s (detach_owner s)"
| life_free: "broken s = None \<Longrightarrow> its_phase s = Dying \<Longrightarrow> (detaches \<longrightarrow> lock_owner (its_proxy s) = None) \<Longrightarrow>
    life_step detaches s (free_owner s)"

inductive life_reachable :: "bool \<Rightarrow> life \<Rightarrow> bool" for detaches :: bool where
  life_init: "life_reachable detaches life_new"
| life_next: "life_reachable detaches s \<Longrightarrow> life_step detaches s s' \<Longrightarrow> life_reachable detaches s'"

subsection \<open>The invariant\<close>

definition life_ok :: "bool \<Rightarrow> life \<Rightarrow> bool" where
  "life_ok detaches s \<longleftrightarrow>
     finite (inside s) \<and> (its_phase s = Alive \<longleftrightarrow> 0 < use_count s) \<and>
     (its_phase s = Alive \<longrightarrow> lock_owner (its_proxy s) \<noteq> None) \<and>
     (detaches \<and> its_phase s = Freed \<longrightarrow> lock_owner (its_proxy s) = None) \<and>
     (\<not> detaches \<longrightarrow> lock_owner (its_proxy s) \<noteq> None) \<and>
     (broken s = Some Used_After_Free \<longrightarrow> \<not> detaches) \<and> (broken s \<noteq> None \<longrightarrow> its_phase s \<noteq> Alive)"

lemmas life_defs = copy_pointer_def drop_pointer_def destroy_unused_def borrow_owner_def return_owner_def
  detach_owner_def free_owner_def use_count_def lock_owner_def proxy_detach_def

lemma life_ok_step: "life_step detaches s s' \<Longrightarrow> life_ok detaches s \<Longrightarrow> life_ok detaches s'"
proof (induction rule: life_step.induct)
  case (life_return s t)
  then have "0 < card (inside s)" by (auto simp: life_ok_def card_gt_0_iff)
  with life_return show ?case
    by (auto simp: life_ok_def life_defs split: if_splits)
qed (auto simp: life_ok_def life_defs split: option.splits if_splits)

lemma life_ok_new: "life_ok detaches life_new"
  by (simp add: life_ok_def life_new_def use_count_def lock_owner_def proxy_new_def)

lemma life_reachable_ok: "life_reachable detaches s \<Longrightarrow> life_ok detaches s"
  by (induction rule: life_reachable.induct) (blast intro: life_ok_new life_ok_step)+

text \<open>C35: A thread inside \<open>Proxy::add\<close> works on a living owner: while it is there the destructor has not started,
  in every interleaving of copies and drops of pointers, calls of the proxy and the destructor. A proxy that was
  detached refuses, and no thread reaches a poller that was freed.\<close>

theorem proxy_add_keeps_owner_alive:
  assumes "life_reachable detaches s"
  shows "(inside s \<noteq> {} \<longrightarrow> its_phase s = Alive) \<and> (its_phase s = Freed \<longrightarrow> use_count s = 0) \<and>
    (detaches \<longrightarrow> broken s \<noteq> Some Used_After_Free \<and>
      (its_phase s = Freed \<longrightarrow> borrow_owner t s = (False, s))) \<and>
    (its_phase s = Alive \<longrightarrow> fst (borrow_owner t s) \<and> broken (snd (borrow_owner t s)) = broken s)"
proof -
  have ok: "life_ok detaches s" using assms by (rule life_reachable_ok)
  have "inside s \<noteq> {} \<Longrightarrow> 0 < use_count s"
    using ok by (auto simp: life_ok_def use_count_def card_gt_0_iff)
  then show ?thesis using ok by (auto simp: life_ok_def borrow_owner_def)
qed

lemma reachable_drop:
  "life_reachable detaches (life_new\<lparr>others := 0, its_phase := Dying\<rparr>)"
proof -
  have "life_step detaches life_new (drop_pointer life_new)"
    by (rule life_drop) (simp_all add: life_new_def)
  moreover have "drop_pointer life_new = life_new\<lparr>others := 0, its_phase := Dying\<rparr>"
    by (simp add: drop_pointer_def destroy_unused_def use_count_def life_new_def)
  ultimately show ?thesis using life_next [OF life_init] by metis
qed

lemma reachable_free:
  "life_reachable False (life_new\<lparr>others := 0, its_phase := Freed\<rparr>)"
proof -
  have "life_step False (life_new\<lparr>others := 0, its_phase := Dying\<rparr>) (free_owner (life_new\<lparr>others := 0, its_phase := Dying\<rparr>))"
    by (rule life_free) (simp_all add: life_new_def)
  then show ?thesis using life_next [OF reachable_drop [of False]] by (simp add: free_owner_def)
qed

theorem proxy_add_keeps_owner_alive_witness:
  "life_reachable True (snd (borrow_owner 3 life_new)) \<and> inside (snd (borrow_owner 3 life_new)) = {3} \<and>
   its_phase (snd (borrow_owner 3 life_new)) = Alive"
proof -
  have "life_step True life_new (snd (borrow_owner 3 life_new))" by (rule life_borrow) (simp_all add: life_new_def)
  with life_init have r: "life_reachable True (snd (borrow_owner 3 life_new))" by (rule life_next)
  have "inside (snd (borrow_owner 3 life_new)) = {3}"
    by (simp add: borrow_owner_def life_new_def lock_owner_def proxy_new_def use_count_def)
  then show ?thesis using r proxy_add_keeps_owner_alive [OF r, of 0] by simp
qed

text \<open>The proxy does not close the gap before \<open>detach_\<close>: when the last pointer has been dropped and the destructor
  has not detached the proxy yet, a call of \<open>Proxy::add\<close> terminates the program. The proxy of a pool is never detached:
  after the pool is gone, \<open>add\<close> uses freed memory.\<close>

theorem proxy_add_breaks_after_last_drop:
  "(\<exists>s. life_reachable True s \<and> its_phase s = Dying \<and> broken s = None \<and>
      (\<forall>t. broken (snd (borrow_owner t s)) = Some Terminated)) \<and>
   (\<exists>s. life_reachable False s \<and> its_phase s = Freed \<and> broken s = None \<and>
      (\<forall>t. broken (snd (borrow_owner t s)) = Some Used_After_Free))"
proof
  show "\<exists>s. life_reachable True s \<and> its_phase s = Dying \<and> broken s = None \<and>
      (\<forall>t. broken (snd (borrow_owner t s)) = Some Terminated)"
    by (rule exI [of _ "life_new\<lparr>others := 0, its_phase := Dying\<rparr>"])
      (simp add: reachable_drop borrow_owner_def life_new_def lock_owner_def proxy_new_def use_count_def
        reachable_drop [unfolded life_new_def proxy_new_def, simplified])
  show "\<exists>s. life_reachable False s \<and> its_phase s = Freed \<and> broken s = None \<and>
      (\<forall>t. broken (snd (borrow_owner t s)) = Some Used_After_Free)"
    by (rule exI [of _ "life_new\<lparr>others := 0, its_phase := Freed\<rparr>"])
      (simp add: borrow_owner_def life_new_def lock_owner_def proxy_new_def
        reachable_free [unfolded life_new_def proxy_new_def, simplified])
qed

end
