(* ===== verification/HandlerLifetime.thy ===== *)
theory HandlerLifetime
  imports PollSet
begin

section \<open>The life of handlers and their descriptors (litemq/DescriptorHandlerPoller.cpp, src/Server/main.cpp)\<close>

text \<open>
  A handler is owned by shared pointers: the variable of whoever made it (the acceptor, the poller for its stop handler) and
  the holder its poller makes for it. With the last of them it is destroyed, its destructor closes the descriptor, and from
  then on the system may give both the number of the descriptor and the address of the object to the next handler.

  The relation has the steps between which other threads can run. \<open>add\<close> is two: the entry in the map, under the lock, and
  \<open>EPOLL_CTL_ADD\<close> after it. Closing is three: \<open>EPOLL_CTL_DEL\<close>, the reset of the holder's pointer, and the removal from the
  map, which takes the address of a handler that may be gone by then. \<open>erase_first\<close> says in which order the last two come: the code
  resets first. \<open>ok\<close> is the answer of \<open>epoll_ctl\<close>; new descriptors and addresses are any that are not in use.

  The theorems: a handler lives exactly as long as somebody owns it, and a descriptor that is registered is open and belongs to the
  handler of the holder registered with it; one thread's \<open>add\<close> and closing are the ones of the theory Poller; a new handler whose
  address is that of the one just closed is not registered, and its connection is lost although \<open>add\<close> returns true; with the
  other order that cannot happen.
\<close>

subsection \<open>State and steps\<close>

datatype close_stage = Deleted | Unlinked | Erased

record lifetime =
  descriptors :: "nat \<rightharpoonup> int"
  uses :: "nat \<Rightarrow> nat"
  held :: "nat set"
  fresh :: "nat set"
  entries :: "nat \<rightharpoonup> nat"
  pointees :: "nat \<rightharpoonup> nat"
  made :: nat
  adding :: "nat \<rightharpoonup> nat"
  polled :: "int \<rightharpoonup> nat"
  closing :: "nat \<rightharpoonup> nat \<times> close_stage"
  ended :: "nat set"
  lost :: "nat list"
  gone :: bool

definition lifetime_new :: lifetime where
  "lifetime_new = \<lparr>descriptors = (\<lambda>_. None), uses = (\<lambda>_. 0), held = {}, fresh = {}, entries = (\<lambda>_. None),
     pointees = (\<lambda>_. None), made = 0, adding = (\<lambda>_. None), polled = (\<lambda>_. None), closing = (\<lambda>_. None), ended = {}, lost = [], gone = False\<rparr>"

text \<open>A handler object at the address \<open>d\<close> with the descriptor \<open>fd\<close>, in a variable of its maker.\<close>

definition make_handler :: "nat \<Rightarrow> int \<Rightarrow> lifetime \<Rightarrow> lifetime" where
  "make_handler d fd s = s\<lparr>descriptors := (descriptors s)(d \<mapsto> fd), uses := (uses s)(d := 1),
     held := insert d (held s), fresh := insert d (fresh s)\<rparr>"

text \<open>A pointer to the handler goes away; with the last one the destructor closes the descriptor.\<close>

definition drop_pointer :: "nat \<Rightarrow> lifetime \<Rightarrow> lifetime" where
  "drop_pointer d s = s\<lparr>uses := (uses s)(d := uses s d - 1),
     descriptors := (if uses s d \<le> 1 then (descriptors s)(d := None) else descriptors s)\<rparr>"

text \<open>\<open>add\<close>: a holder is made, and the map takes it unless it has the address of the handler already; otherwise the holder
  goes away at the end of the call.\<close>

definition add_entry :: "nat \<Rightarrow> lifetime \<Rightarrow> lifetime" where
  "add_entry d s =
     (let h = made s; s1 = s\<lparr>made := Suc h, fresh := fresh s - {d}\<rparr>
      in if entries s d = None
         then s1\<lparr>pointees := (pointees s)(h \<mapsto> d), uses := (uses s)(d := Suc (uses s d)),
                entries := (entries s)(d \<mapsto> h), adding := (adding s)(h \<mapsto> d)\<rparr>
         else s1\<lparr>lost := d # lost s\<rparr>)"

definition add_register :: "bool \<Rightarrow> nat \<Rightarrow> lifetime \<Rightarrow> lifetime" where
  "add_register ok h s =
     (case adding s h of
        None \<Rightarrow> s
      | Some d \<Rightarrow>
          s\<lparr>adding := (adding s)(h := None),
            polled := (case descriptors s d of
                         Some fd \<Rightarrow> if ok then (polled s)(fd \<mapsto> h) else polled s
                       | None \<Rightarrow> polled s)\<rparr>)"

text \<open>The variable of the maker goes out of scope.\<close>

definition let_go :: "nat \<Rightarrow> lifetime \<Rightarrow> lifetime" where
  "let_go d s = drop_pointer d (s\<lparr>held := held s - {d}, fresh := fresh s - {d}\<rparr>)"

text \<open>The closing thread: \<open>handling_finished\<close> and \<open>EPOLL_CTL_DEL\<close>, where a refusal leaves \<open>handle_\<close> with an exception.\<close>

definition close_delete :: "bool \<Rightarrow> nat \<Rightarrow> lifetime \<Rightarrow> lifetime" where
  "close_delete ok h s =
     (let s1 = s\<lparr>ended := insert h (ended s)\<rparr>
      in case pointees s h of
           None \<Rightarrow> s1
         | Some d \<Rightarrow>
             if ok
             then s1\<lparr>polled := (case descriptors s d of Some fd \<Rightarrow> (polled s)(fd := None) | None \<Rightarrow> polled s),
                    closing := (closing s)(h \<mapsto> (d, Deleted))\<rparr>
             else s1)"

definition close_reset :: "nat \<Rightarrow> nat \<Rightarrow> close_stage option \<Rightarrow> lifetime \<Rightarrow> lifetime" where
  "close_reset h d stage s =
     drop_pointer d (s\<lparr>pointees := (pointees s)(h := None), closing := (closing s)(h := map_option (Pair d) stage)\<rparr>)"

definition close_erase :: "nat \<Rightarrow> nat \<Rightarrow> close_stage option \<Rightarrow> lifetime \<Rightarrow> lifetime" where
  "close_erase h d stage s =
     s\<lparr>entries := (entries s)(d := None), closing := (closing s)(h := map_option (Pair d) stage)\<rparr>"

text \<open>The destructor of the poller, when no thread is inside it any more: every descriptor of the map leaves the poll set, which is closed, and
  the holders of the map go away with their pointers.\<close>

definition drop_map :: "lifetime \<Rightarrow> lifetime" where
  "drop_map s =
     (let left = (\<lambda>d. case entries s d of
            None \<Rightarrow> uses s d
          | Some h \<Rightarrow> if pointees s h = Some d then uses s d - 1 else uses s d)
      in s\<lparr>gone := True, polled := (\<lambda>_. None), entries := (\<lambda>_. None), pointees := (\<lambda>_. None), uses := left,
           descriptors := (\<lambda>d. if left d = 0 then None else descriptors s d)\<rparr>)"

inductive lifetime_step :: "bool \<Rightarrow> lifetime \<Rightarrow> lifetime \<Rightarrow> bool" for erase_first :: bool where
  lt_make: "descriptors s d = None \<Longrightarrow> fd \<notin> ran (descriptors s) \<Longrightarrow> lifetime_step erase_first s (make_handler d fd s)"
| lt_add: "d \<in> fresh s \<Longrightarrow> \<not> gone s \<Longrightarrow> lifetime_step erase_first s (add_entry d s)"
| lt_register: "adding s h = Some d \<Longrightarrow> lifetime_step erase_first s (add_register ok h s)"
| lt_let_go: "d \<in> held s \<Longrightarrow> d \<notin> ran (adding s) \<Longrightarrow> lifetime_step erase_first s (let_go d s)"
| lt_delete: "polled s fd = Some h \<Longrightarrow> h \<notin> ended s \<Longrightarrow> lifetime_step erase_first s (close_delete ok h s)"
| lt_reset: "\<not> erase_first \<Longrightarrow> closing s h = Some (d, Deleted) \<Longrightarrow>
    lifetime_step erase_first s (close_reset h d (Some Unlinked) s)"
| lt_erase: "closing s h = Some (d, Unlinked) \<Longrightarrow> lifetime_step erase_first s (close_erase h d None s)"
| lt_erase_first: "erase_first \<Longrightarrow> closing s h = Some (d, Deleted) \<Longrightarrow>
    lifetime_step erase_first s (close_erase h d (Some Erased) s)"
| lt_reset_last: "closing s h = Some (d, Erased) \<Longrightarrow> lifetime_step erase_first s (close_reset h d None s)"
| lt_drop_map: "closing s = (\<lambda>_. None) \<Longrightarrow> adding s = (\<lambda>_. None) \<Longrightarrow> lifetime_step erase_first s (drop_map s)"

inductive lifetime_reachable :: "bool \<Rightarrow> lifetime \<Rightarrow> bool" for erase_first :: bool where
  lt_init: "lifetime_reachable erase_first lifetime_new"
| lt_next: "lifetime_reachable erase_first s \<Longrightarrow> lifetime_step erase_first s s' \<Longrightarrow> lifetime_reachable erase_first s'"

subsection \<open>The invariants\<close>

text \<open>Who owns what: the map and the pointers of the holders, and the use counts.\<close>

definition holders_agree :: "bool \<Rightarrow> lifetime \<Rightarrow> bool" where
  "holders_agree erase_first s \<longleftrightarrow>
     (\<forall>d h. entries s d = Some h \<longrightarrow> pointees s h = Some d \<or> closing s h = Some (d, Unlinked)) \<and>
     (\<forall>h d. pointees s h = Some d \<longrightarrow> h < made s \<and> d \<notin> fresh s \<and> (entries s d = Some h \<or> closing s h = Some (d, Erased))) \<and>
     (\<forall>h h' d. pointees s h = Some d \<longrightarrow> pointees s h' = Some d \<longrightarrow> h = h') \<and>
     (\<forall>h d x. closing s h = Some (d, x) \<longrightarrow> h < made s \<and> h \<in> ended s \<and> adding s h = None) \<and>
     (\<forall>h d. closing s h = Some (d, Deleted) \<longrightarrow> pointees s h = Some d) \<and>
     (\<forall>h d. closing s h = Some (d, Unlinked) \<longrightarrow> pointees s h = None \<and> entries s d = Some h \<and> \<not> erase_first) \<and>
     (\<forall>h d. closing s h = Some (d, Erased) \<longrightarrow> pointees s h = Some d \<and> entries s d = None \<and> erase_first) \<and>
     (\<forall>h d. adding s h = Some d \<longrightarrow> pointees s h = Some d \<and> d \<in> held s \<and> h \<notin> ended s) \<and>
     (\<forall>h \<in> ended s. h < made s)"

definition uses_agree :: "lifetime \<Rightarrow> bool" where
  "uses_agree s \<longleftrightarrow>
     (\<forall>d. uses s d = of_bool (d \<in> held s) + of_bool (d \<in> ran (pointees s))) \<and>
     (\<forall>d. descriptors s d \<noteq> None \<longleftrightarrow> 0 < uses s d) \<and> fresh s \<subseteq> held s"

definition polled_agree :: "lifetime \<Rightarrow> bool" where
  "polled_agree s \<longleftrightarrow>
     (\<forall>d d' fd. descriptors s d = Some fd \<longrightarrow> descriptors s d' = Some fd \<longrightarrow> d = d') \<and>
     (\<forall>fd h. polled s fd = Some h \<longrightarrow> closing s h = None \<and> adding s h = None \<and>
        (\<exists>d. pointees s h = Some d \<and> descriptors s d = Some fd))"

lemmas step_defs = make_handler_def drop_pointer_def add_entry_def add_register_def let_go_def close_delete_def close_reset_def
  close_erase_def drop_map_def Let_def


lemma entryD: "holders_agree e s \<Longrightarrow> entries s d = Some h \<Longrightarrow> pointees s h = Some d \<or> closing s h = Some (d, Unlinked)"
  unfolding holders_agree_def by blast

lemma pointeeD:
  "holders_agree e s \<Longrightarrow> pointees s h = Some d \<Longrightarrow>
    h < made s \<and> d \<notin> fresh s \<and> (entries s d = Some h \<or> closing s h = Some (d, Erased))"
  unfolding holders_agree_def by blast

lemma same_pointee: "holders_agree e s \<Longrightarrow> pointees s h = Some d \<Longrightarrow> pointees s h' = Some d \<Longrightarrow> h = h'"
  unfolding holders_agree_def by blast

lemma closingD: "holders_agree e s \<Longrightarrow> closing s h = Some (d, x) \<Longrightarrow> h < made s \<and> h \<in> ended s \<and> adding s h = None"
  unfolding holders_agree_def by blast

lemma stageD:
  "holders_agree e s \<Longrightarrow> closing s h = Some (d, Deleted) \<Longrightarrow> pointees s h = Some d"
  "holders_agree e s \<Longrightarrow> closing s h = Some (d, Unlinked) \<Longrightarrow> pointees s h = None \<and> entries s d = Some h \<and> \<not> e"
  "holders_agree e s \<Longrightarrow> closing s h = Some (d, Erased) \<Longrightarrow> pointees s h = Some d \<and> entries s d = None \<and> e"
  unfolding holders_agree_def by blast+

lemma addingD:
  "holders_agree e s \<Longrightarrow> adding s h = Some d \<Longrightarrow> pointees s h = Some d \<and> d \<in> held s \<and> h \<notin> ended s"
  unfolding holders_agree_def by blast

lemma endedD: "holders_agree e s \<Longrightarrow> h \<in> ended s \<Longrightarrow> h < made s"
  unfolding holders_agree_def by blast

lemma holders_agreeI:
  assumes "\<And>d h. entries s d = Some h \<Longrightarrow> pointees s h = Some d \<or> closing s h = Some (d, Unlinked)"
    and "\<And>h d. pointees s h = Some d \<Longrightarrow> h < made s \<and> d \<notin> fresh s \<and> (entries s d = Some h \<or> closing s h = Some (d, Erased))"
    and "\<And>h h' d. pointees s h = Some d \<Longrightarrow> pointees s h' = Some d \<Longrightarrow> h = h'"
    and "\<And>h d x. closing s h = Some (d, x) \<Longrightarrow> h < made s \<and> h \<in> ended s \<and> adding s h = None"
    and "\<And>h d. closing s h = Some (d, Deleted) \<Longrightarrow> pointees s h = Some d"
    and "\<And>h d. closing s h = Some (d, Unlinked) \<Longrightarrow> pointees s h = None \<and> entries s d = Some h \<and> \<not> e"
    and "\<And>h d. closing s h = Some (d, Erased) \<Longrightarrow> pointees s h = Some d \<and> entries s d = None \<and> e"
    and "\<And>h d. adding s h = Some d \<Longrightarrow> pointees s h = Some d \<and> d \<in> held s \<and> h \<notin> ended s"
    and "\<And>h. h \<in> ended s \<Longrightarrow> h < made s"
  shows "holders_agree e s"
  unfolding holders_agree_def using assms by blast

lemma new_holder_free:
  assumes "holders_agree e s"
  shows "pointees s (made s) = None" "closing s (made s) = None" "adding s (made s) = None" "made s \<notin> ended s"
    "entries s d \<noteq> Some (made s)"
proof -
  show p: "pointees s (made s) = None" using pointeeD [OF assms, of "made s"] by (cases "pointees s (made s)") auto
  show c: "closing s (made s) = None" using closingD [OF assms, of "made s"] by (cases "closing s (made s)") auto
  show "adding s (made s) = None" using addingD [OF assms, of "made s"] p by (cases "adding s (made s)") auto
  show "made s \<notin> ended s" using endedD [OF assms] by blast
  show "entries s d \<noteq> Some (made s)" using entryD [OF assms, of d "made s"] p c by auto
qed

lemma one_holder:
  assumes "holders_agree e s" and "pointees s h = Some d"
  shows "ran ((pointees s)(h := None)) = ran (pointees s) - {d}" "d \<in> ran (pointees s)"
proof -
  have "pointees s h' \<noteq> Some d" if "h' \<noteq> h" for h' using same_pointee [OF assms(1) _ assms(2)] that by blast
  then show "ran ((pointees s)(h := None)) = ran (pointees s) - {d}"
    using assms(2) unfolding ran_def fun_upd_apply by (auto split: if_splits) (metis option.inject)
  show "d \<in> ran (pointees s)" using assms(2) by (rule ranI)
qed

lemma entry_pointee: "holders_agree e s \<Longrightarrow> pointees s h = Some d \<Longrightarrow> d' \<noteq> d \<Longrightarrow> entries s d' \<noteq> Some h"
  using entryD [of e s d' h] stageD(2) [of e s h d'] by auto

lemma unowned_iff: "uses_agree s \<Longrightarrow> descriptors s d = None \<longleftrightarrow> d \<notin> held s \<and> d \<notin> ran (pointees s)"
proof -
  assume "uses_agree s"
  then have "uses s d = of_bool (d \<in> held s) + of_bool (d \<in> ran (pointees s))" "descriptors s d \<noteq> None \<longleftrightarrow> 0 < uses s d"
    unfolding uses_agree_def by blast+
  then show ?thesis by auto
qed

subsection \<open>The steps keep them\<close>

lemma drop_map_holders:
  assumes "holders_agree e s" and "closing s = (\<lambda>_. None)" and "adding s = (\<lambda>_. None)"
  shows "holders_agree e (drop_map s)"
  using endedD [OF assms(1)] by (intro holders_agreeI) (simp_all add: drop_map_def Let_def assms(2,3))

lemma drop_map_uses:
  assumes "holders_agree e s" and "uses_agree s" and "closing s = (\<lambda>_. None)"
  shows "uses_agree (drop_map s)"
proof -
  have uses: "uses s d = of_bool (d \<in> held s) + of_bool (d \<in> ran (pointees s))" "descriptors s d \<noteq> None \<longleftrightarrow> 0 < uses s d" for d
    using assms(2) unfolding uses_agree_def by blast+
  have "uses (drop_map s) d = of_bool (d \<in> held s)" for d
  proof (cases "entries s d")
    case None
    then have "d \<notin> ran (pointees s)" using pointeeD [OF assms(1), of _ d] assms(3) by (auto simp: ran_def)
    then show ?thesis using None uses(1) by (simp add: drop_map_def Let_def)
  next
    case (Some h)
    then have "pointees s h = Some d" using entryD [OF assms(1), of d h] assms(3) by simp
    then show ?thesis using Some uses(1) [of d] ranI [of "pointees s" h d] by (simp add: drop_map_def Let_def)
  qed
  moreover have "descriptors (drop_map s) d = (if uses (drop_map s) d = 0 then None else descriptors s d)" for d
    by (simp add: drop_map_def Let_def)
  moreover have "held (drop_map s) = held s" "fresh (drop_map s) = fresh s" "pointees (drop_map s) = (\<lambda>_. None)"
    by (simp_all add: drop_map_def Let_def)
  ultimately show ?thesis using assms(2) uses unfolding uses_agree_def by auto
qed

lemma drop_map_polled: "polled_agree s \<Longrightarrow> polled_agree (drop_map s)"
  unfolding polled_agree_def by (simp add: drop_map_def Let_def)

lemma make_handler_holders:
  assumes "holders_agree e s" and "d \<notin> ran (pointees s)"
  shows "holders_agree e (make_handler d fd s)"
proof -
  have "pointees s h \<noteq> Some d" for h using assms(2) by (auto simp: ran_def)
  then show ?thesis using assms(1) unfolding holders_agree_def by (simp add: make_handler_def) blast
qed

lemma add_entry_holders:
  assumes a: "holders_agree e s" and "d \<in> fresh s" and "d \<in> held s"
  shows "holders_agree e (add_entry d s)"
proof (cases "entries s d")
  case None
  have p: "pointees s h \<noteq> Some d" for h using pointeeD [OF assms(1), of h d] assms(2) by blast
  note n = new_holder_free [OF a] and D = entryD [OF a] pointeeD [OF a] closingD [OF a] stageD [OF a] addingD [OF a] endedD [OF a]
  define s' where "s' = add_entry d s"
  have s': "entries s' = (entries s)(d \<mapsto> made s)" "pointees s' = (pointees s)(made s \<mapsto> d)" "made s' = Suc (made s)"
    "fresh s' = fresh s - {d}" "adding s' = (adding s)(made s \<mapsto> d)" "closing s' = closing s" "ended s' = ended s" "held s' = held s"
    by (simp_all add: s'_def add_entry_def None Let_def)
  show ?thesis
    unfolding s'_def [symmetric]
  proof (rule holders_agreeI, goal_cases)
    case (1 d' h) then show ?case using n D(1) [of d' h] by (auto simp: s' split: if_splits)
  next
    case (2 h d') then show ?case using n p D(2) [of h d'] by (auto simp: s' split: if_splits)
  next
    case (3 h h' d') then show ?case using n p same_pointee [OF a, of h d' h'] by (auto simp: s' split: if_splits)
  next
    case (4 h d' x) then show ?case using n D(3) [of h d' x] by (auto simp: s')
  next
    case (5 h d') then show ?case using n D(4) [of h d'] by (auto simp: s')
  next
    case (6 h d') then show ?case using n None D(5) [of h d'] by (auto simp: s')
  next
    case (7 h d') then show ?case using n p D(6) [of h d'] by (auto simp: s')
  next
    case (8 h d') then show ?case using n assms(3) D(7) [of h d'] by (auto simp: s' split: if_splits)
  next
    case (9 h) then show ?case using D(8) [of h] by (simp add: s')
  qed
next
  case (Some h)
  then have "add_entry d s = s\<lparr>made := Suc (made s), fresh := fresh s - {d}, lost := d # lost s\<rparr>"
    by (simp add: add_entry_def Let_def)
  then show ?thesis using a unfolding holders_agree_def by (simp add: less_Suc_eq)
qed


lemma register_holders: "holders_agree e s \<Longrightarrow> holders_agree e (add_register ok h s)"
  unfolding holders_agree_def by (simp add: add_register_def split: option.splits)

lemma let_go_holders: "holders_agree e s \<Longrightarrow> d \<notin> ran (adding s) \<Longrightarrow> holders_agree e (let_go d s)"
  unfolding holders_agree_def by (simp add: let_go_def drop_pointer_def ran_def) metis

lemma close_delete_holders:
  assumes a: "holders_agree e s" and "pointees s h = Some d" and "closing s h = None" and "adding s h = None"
  shows "holders_agree e (close_delete ok h s)"
proof -
  have h: "h < made s" "entries s d = Some h" using pointeeD [OF a assms(2)] assms(3) by simp_all
  note D = entryD [OF a] pointeeD [OF a] closingD [OF a] stageD [OF a] addingD [OF a] endedD [OF a]
  define s' where "s' = close_delete ok h s"
  have s': "entries s' = entries s" "pointees s' = pointees s" "made s' = made s" "fresh s' = fresh s" "adding s' = adding s"
    "closing s' = (if ok then (closing s)(h \<mapsto> (d, Deleted)) else closing s)" "ended s' = insert h (ended s)" "held s' = held s"
    by (simp_all add: s'_def close_delete_def assms(2) Let_def)
  show ?thesis
    unfolding s'_def [symmetric]
  proof (rule holders_agreeI, goal_cases)
    case (1 d' h')
    then show ?case using D(1) [of d' h'] assms(2,3) entry_pointee [OF a assms(2), of d'] by (auto simp: s')
  next
    case (2 h' d') then show ?case using D(2) [of h' d'] assms(2,3) by (auto simp: s')
  next
    case (3 h1 h2 d') then show ?case using same_pointee [OF a, of h1 d' h2] by (simp add: s')
  next
    case (4 h' d' x) then show ?case using D(3) [of h' d' x] h assms(4) by (auto simp: s' split: if_splits)
  next
    case (5 h' d') then show ?case using D(4) [of h' d'] assms(2) by (auto simp: s' split: if_splits)
  next
    case (6 h' d') then show ?case using D(5) [of h' d'] by (auto simp: s' split: if_splits)
  next
    case (7 h' d') then show ?case using D(6) [of h' d'] by (auto simp: s' split: if_splits)
  next
    case (8 h' d') then show ?case using D(7) [of h' d'] assms(4) by (auto simp: s')
  next
    case (9 h') then show ?case using D(8) [of h'] h by (auto simp: s')
  qed
qed

lemma close_reset_holders:
  assumes a: "holders_agree e s" and c: "closing s h = Some (d, Deleted) \<and> stage = Some Unlinked \<and> \<not> e \<or>
    closing s h = Some (d, Erased) \<and> stage = None"
  shows "holders_agree e (close_reset h d stage s)"
proof -
  have p: "pointees s h = Some d" "adding s h = None" "h < made s" "h \<in> ended s"
    using c stageD(1,3) [OF a, of h d] closingD [OF a, of h d] by blast+
  note D = entryD [OF a] pointeeD [OF a] closingD [OF a] stageD [OF a] addingD [OF a] endedD [OF a]
  define s' where "s' = close_reset h d stage s"
  have s': "entries s' = entries s" "pointees s' = (pointees s)(h := None)" "made s' = made s" "fresh s' = fresh s"
    "adding s' = adding s" "closing s' = (closing s)(h := map_option (Pair d) stage)" "ended s' = ended s" "held s' = held s"
    by (simp_all add: s'_def close_reset_def drop_pointer_def)
  show ?thesis
    unfolding s'_def [symmetric]
  proof (rule holders_agreeI, goal_cases)
    case (1 d' h')
    then show ?case using D(1) [of d' h'] c p entry_pointee [OF a p(1), of d'] D(6) [of h d] by (auto simp: s')
  next
    case (2 h' d') then show ?case using D(2) [of h' d'] by (auto simp: s' split: if_splits)
  next
    case (3 h1 h2 d') then show ?case using same_pointee [OF a, of h1 d' h2] by (simp add: s' split: if_splits)
  next
    case (4 h' d' x) then show ?case using D(3) [of h' d' x] p by (auto simp: s' split: if_splits)
  next
    case (5 h' d') then show ?case using D(4) [of h' d'] c by (auto simp: s' split: if_splits)
  next
    case (6 h' d') then show ?case using D(2) [OF p(1)] D(5) [of h' d'] c by (auto simp: s' split: if_splits)
  next
    case (7 h' d') then show ?case using D(6) [of h' d'] c by (auto simp: s' split: if_splits)
  next
    case (8 h' d') then show ?case using D(7) [of h' d'] p by (auto simp: s')
  next
    case (9 h') then show ?case using D(8) [of h'] by (auto simp: s')
  qed
qed

lemma close_erase_holders:
  assumes a: "holders_agree e s" and c: "closing s h = Some (d, Unlinked) \<and> stage = None \<or>
    closing s h = Some (d, Deleted) \<and> stage = Some Erased \<and> e"
  shows "holders_agree e (close_erase h d stage s)"
proof -
  have p: "adding s h = None" "h < made s" "h \<in> ended s" "entries s d = Some h"
    using c stageD(1,2) [OF a, of h d] closingD [OF a, of h d] pointeeD [OF a, of h d] by auto
  note D = entryD [OF a] pointeeD [OF a] closingD [OF a] stageD [OF a] addingD [OF a] endedD [OF a]
  define s' where "s' = close_erase h d stage s"
  have s': "entries s' = (entries s)(d := None)" "pointees s' = pointees s" "made s' = made s" "fresh s' = fresh s"
    "adding s' = adding s" "closing s' = (closing s)(h := map_option (Pair d) stage)" "ended s' = ended s" "held s' = held s"
    by (simp_all add: s'_def close_erase_def)
  show ?thesis
    unfolding s'_def [symmetric]
  proof (rule holders_agreeI, goal_cases)
    case (1 d' h')
    then show ?case using D(1) [of d' h'] c D(5) [of h d'] by (auto simp: s' split: if_splits)
  next
    case (2 h' d')
    then show ?case using D(2) [of h' d'] c p D(4,5) [of h d] D(6) [of h d'] by (auto simp: s' split: if_splits)
  next
    case (3 h1 h2 d') then show ?case using same_pointee [OF a, of h1 d' h2] by (simp add: s')
  next
    case (4 h' d' x) then show ?case using D(3) [of h' d' x] p by (auto simp: s' split: if_splits)
  next
    case (5 h' d') then show ?case using D(4) [of h' d'] c by (auto simp: s' split: if_splits)
  next
    case (6 h' d') then show ?case using D(5) [of h' d'] c p by (auto simp: s' split: if_splits)
  next
    case (7 h' d') then show ?case using D(6) [of h' d'] D(4) [of h d] c by (auto simp: s' split: if_splits)
  next
    case (8 h' d') then show ?case using D(7) [of h' d'] p by (auto simp: s')
  next
    case (9 h') then show ?case using D(8) [of h'] by (auto simp: s')
  qed
qed


lemma holders_step:
  "lifetime_step e s s' \<Longrightarrow> holders_agree e s \<Longrightarrow> uses_agree s \<Longrightarrow> polled_agree s \<Longrightarrow> holders_agree e s'"
proof (induction rule: lifetime_step.induct)
  case (lt_make s d fd)
  then show ?case using unowned_iff make_handler_holders by blast
next
  case (lt_add d s)
  then show ?case by (auto simp: uses_agree_def intro: add_entry_holders)
next
  case (lt_delete s fd h ok)
  then show ?case unfolding polled_agree_def by (blast intro: close_delete_holders)
qed (simp_all add: register_holders let_go_holders close_reset_holders close_erase_holders drop_map_holders)

lemma reset_uses:
  assumes "holders_agree e s" and "uses_agree s" and "pointees s h = Some d"
  shows "uses_agree (close_reset h d stage s)"
  using assms(2) one_holder [OF assms(1,3)] unfolding uses_agree_def by (auto simp: close_reset_def drop_pointer_def)

lemma uses_step:
  "lifetime_step e s s' \<Longrightarrow> holders_agree e s \<Longrightarrow> uses_agree s \<Longrightarrow> uses_agree s'"
proof (induction rule: lifetime_step.induct)
  case (lt_make s d fd)
  then have "d \<notin> ran (pointees s)" using unowned_iff by blast
  then show ?case using lt_make unfolding uses_agree_def by (auto simp: make_handler_def)
next
  case (lt_add d s)
  have "d \<notin> ran (pointees s)" using lt_add pointeeD [OF lt_add.prems(1), of _ d] by (auto simp: ran_def)
  then show ?case using lt_add new_holder_free(1) [OF lt_add.prems(1)] unfolding uses_agree_def by (auto simp: add_entry_def Let_def)
next
  case (lt_register s h d ok)
  then show ?case unfolding uses_agree_def by (simp add: add_register_def)
next
  case (lt_let_go d s)
  then show ?case unfolding uses_agree_def by (auto simp: let_go_def drop_pointer_def)
next
  case (lt_delete s fd h ok)
  then show ?case unfolding uses_agree_def by (simp add: close_delete_def Let_def split: option.splits)
next
  case (lt_reset s h d)
  then show ?case using stageD(1) reset_uses by blast
next
  case (lt_reset_last s h d)
  then show ?case using stageD(3) reset_uses by blast
next
  case (lt_drop_map s)
  then show ?case using drop_map_uses by blast
qed (simp_all add: uses_agree_def close_erase_def)

lemma polled_agreeI:
  assumes "\<And>d d' fd. descriptors s d = Some fd \<Longrightarrow> descriptors s d' = Some fd \<Longrightarrow> d = d'"
    and "\<And>fd h. polled s fd = Some h \<Longrightarrow> closing s h = None \<and> adding s h = None \<and>
      (\<exists>d. pointees s h = Some d \<and> descriptors s d = Some fd)"
  shows "polled_agree s"
  unfolding polled_agree_def using assms by blast

lemma polledD:
  "polled_agree s \<Longrightarrow> polled s fd = Some h \<Longrightarrow> closing s h = None \<and> adding s h = None \<and>
    (\<exists>d. pointees s h = Some d \<and> descriptors s d = Some fd)"
  "polled_agree s \<Longrightarrow> descriptors s d = Some fd \<Longrightarrow> descriptors s d' = Some fd \<Longrightarrow> d = d'"
  unfolding polled_agree_def by blast+

lemma reset_polled:
  assumes "holders_agree e s" and "polled_agree s" and "pointees s h = Some d" and "closing s h = Some (d, x)"
  shows "polled_agree (close_reset h d stage s)"
proof (rule polled_agreeI, goal_cases)
  case (1 d1 d2 y)
  then show ?case
    using polledD(2) [OF assms(2), of d1 y d2] by (auto simp: close_reset_def drop_pointer_def split: if_splits)
next
  case (2 y h')
  then have "polled s y = Some h'" by (simp add: close_reset_def drop_pointer_def)
  then obtain d' where d': "closing s h' = None" "adding s h' = None" "pointees s h' = Some d'" "descriptors s d' = Some y"
    using polledD(1) [OF assms(2)] by blast
  then have "h' \<noteq> h" using assms(4) by auto
  moreover from this have "d' \<noteq> d" using same_pointee [OF assms(1) d'(3), of h] assms(3) by auto
  ultimately show ?case using d' by (simp add: close_reset_def drop_pointer_def)
qed

lemma polled_step:
  "lifetime_step e s s' \<Longrightarrow> holders_agree e s \<Longrightarrow> uses_agree s \<Longrightarrow> polled_agree s \<Longrightarrow> polled_agree s'"
proof (induction rule: lifetime_step.induct)
  case (lt_make s d fd)
  show ?case
  proof (rule polled_agreeI, goal_cases)
    case (1 d1 d2 x)
    then show ?case using polledD(2) [OF lt_make.prems(3), of d1 x d2] lt_make.hyps by (auto simp: make_handler_def ran_def split: if_splits)
  next
    case (2 x h)
    then show ?case using polledD(1) [OF lt_make.prems(3), of x h] lt_make.hyps by (auto simp: make_handler_def)
  qed
next
  case (lt_add d s)
  have "polled s fd \<noteq> Some (made s)" for fd
    using new_holder_free(1) [OF lt_add.prems(1)] polledD(1) [OF lt_add.prems(3), of fd "made s"] by auto
  then show ?case using lt_add.prems(3) unfolding polled_agree_def by (auto simp: add_entry_def Let_def)
next
  case (lt_register s h d ok)
  note p = addingD [OF lt_register.prems(1) lt_register.hyps]
  have c: "closing s h = None"
    using lt_register.hyps closingD [OF lt_register.prems(1), of h] by (cases "closing s h") auto
  show ?case
  proof (rule polled_agreeI, goal_cases)
    case (1 d1 d2 x)
    then show ?case using polledD(2) [OF lt_register.prems(3), of d1 x d2] by (simp add: add_register_def lt_register.hyps)
  next
    case (2 x h')
    then show ?case
      using polledD(1) [OF lt_register.prems(3), of x h'] p c
      by (auto simp: add_register_def lt_register.hyps split: option.splits if_splits)
  qed
next
  case (lt_let_go d s)
  have keeps: "uses s d = 2" if "pointees s h = Some d" for h
    using lt_let_go.hyps(1) lt_let_go.prems(2) ranI [of "pointees s" h d] that unfolding uses_agree_def by simp
  show ?case
  proof (rule polled_agreeI, goal_cases)
    case (1 d1 d2 x)
    then show ?case
      using polledD(2) [OF lt_let_go.prems(3), of d1 x d2] by (auto simp: let_go_def drop_pointer_def split: if_splits)
  next
    case (2 x h)
    then obtain d' where d': "pointees s h = Some d'" "descriptors s d' = Some x" "closing s h = None" "adding s h = None"
      using polledD(1) [OF lt_let_go.prems(3), of x h] by (auto simp: let_go_def drop_pointer_def)
    then show ?case using keeps [of h] by (cases "d' = d") (simp_all add: let_go_def drop_pointer_def)
  qed
next
  case (lt_delete s fd h ok)
  obtain d where d: "pointees s h = Some d" "descriptors s d = Some fd"
    using polledD(1) [OF lt_delete.prems(3) lt_delete.hyps(1)] by blast
  show ?case
  proof (rule polled_agreeI, goal_cases)
    case (1 d1 d2 x)
    then show ?case using polledD(2) [OF lt_delete.prems(3), of d1 x d2] d by (simp add: close_delete_def Let_def split: if_splits)
  next
    case (2 x h')
    then show ?case
      using polledD(1) [OF lt_delete.prems(3), of x h'] d by (auto simp: close_delete_def Let_def split: if_splits)
  qed
next
  case (lt_reset s h d)
  then show ?case using stageD(1) [of e s h d] by (simp add: reset_polled)
next
  case (lt_erase s h d)
  then show ?case unfolding polled_agree_def by (auto simp: close_erase_def)
next
  case (lt_erase_first s h d)
  then show ?case unfolding polled_agree_def by (auto simp: close_erase_def)
next
  case (lt_reset_last s h d)
  then show ?case using stageD(3) [of e s h d] by (simp add: reset_polled)
next
  case (lt_drop_map s)
  then show ?case using drop_map_polled by blast
qed


lemma lifetime_invariant:
  "lifetime_reachable e s \<Longrightarrow> holders_agree e s \<and> uses_agree s \<and> polled_agree s"
proof (induction rule: lifetime_reachable.induct)
  case lt_init
  then show ?case by (simp add: lifetime_new_def holders_agree_def uses_agree_def polled_agree_def)
next
  case (lt_next s s')
  then show ?case using holders_step uses_step polled_step by blast
qed


lemmas lifetime_holders = lifetime_invariant [THEN conjunct1]
lemmas lifetime_uses = lifetime_invariant [THEN conjunct2, THEN conjunct1]
lemmas lifetime_polled = lifetime_invariant [THEN conjunct2, THEN conjunct2]

subsection \<open>The steps of one thread\<close>

text \<open>The state of a poller of the theory Poller, when no thread is inside one of the operations.\<close>

definition shows_poller :: "'h handler_class \<Rightarrow> epoll_answer \<Rightarrow> 'h poller \<Rightarrow> lifetime \<Rightarrow> bool" where
  "shows_poller cls ctl_ok p s \<longleftrightarrow>
     entries s = handlers p \<and> made s = next_holder p \<and> polled s = registered ctl_ok (epoll_log p) \<and>
     (\<forall>h < made s. pointees s h = descriptor_handler (holders p h)) \<and>
     (\<forall>d fd. descriptors s d = Some fd \<longrightarrow> vfd cls (objects p d) = fd)"

lemma add_shown:
  assumes "shows_poller cls ctl_ok p s" and "lifetime_reachable e s" and "d \<in> fresh s" and "poller_add cls ctl_ok d p = (r, p')"
  shows "shows_poller cls ctl_ok p' (add_register (r = Return True) (made s) (add_entry d s))"
proof -
  obtain fd where fd: "descriptors s d = Some fd"
    using lifetime_uses [OF assms(2)] assms(3) unowned_iff [of s d] unfolding uses_agree_def by blast
  note n = new_holder_free [OF lifetime_holders [OF assms(2)]]
  show ?thesis
    using assms(1,4) fd n(1,3)
    by (auto simp: shows_poller_def poller_add_def link_new_holder_def set_holder_def epoll_ctl_def add_entry_def add_register_def
      reset_descriptor_handler_def holder_new_def Let_def less_Suc_eq split: if_splits option.splits)
qed

lemma close_shown:
  assumes "shows_poller cls ctl_ok p s" and "fds_fixed cls" and "descriptors s d = Some fd" and "pointees s h = Some d" and "h < made s"
    and "close_handler cls ctl_ok h d p = (r, p')"
  shows "shows_poller cls ctl_ok p' (if r = Return ()
    then close_erase h d None (close_reset h d (Some Unlinked) (close_delete True h s)) else close_delete False h s)"
  using assms
  by (auto simp: shows_poller_def close_handler_def epoll_del_fd_def epoll_ctl_def set_holder_def reset_descriptor_handler_def
    close_erase_def close_reset_def close_delete_def drop_pointer_def fds_fixed_def Let_def split: if_splits option.splits)


subsection \<open>A run\<close>

text \<open>The handler at the address 7 with the descriptor 5 is served and closed up to the reset, and the next handler gets both again.\<close>

definition first_served :: lifetime where
  "first_served = let_go 7 (add_register True 0 (add_entry 7 (make_handler 7 5 lifetime_new)))"

definition address_reused :: lifetime where
  "address_reused = make_handler 7 5 (close_reset 0 7 (Some Unlinked) (close_delete True 0 first_served))"

lemma first_served_state:
  "polled first_served = [5 \<mapsto> 0]" "pointees first_served = [0 \<mapsto> 7]" "descriptors first_served = [7 \<mapsto> 5]"
  "uses first_served = (\<lambda>_. 0)(7 := 1)" "ended first_served = {}" "entries first_served = [7 \<mapsto> 0]" "held first_served = {}"
  "fresh first_served = {}" "gone first_served = False" "closing first_served = (\<lambda>_. None)" "adding first_served = (\<lambda>_. None)" "lost first_served = []"
  by (auto simp: first_served_def lifetime_new_def step_defs fun_eq_iff)

lemma address_reused_state:
  "polled address_reused = (\<lambda>_. None)" "descriptors address_reused = [7 \<mapsto> 5]" "entries address_reused = [7 \<mapsto> 0]"
  "fresh address_reused = {7}" "held address_reused = {7}" "adding address_reused = (\<lambda>_. None)" "lost address_reused = []" "gone address_reused = False" "uses address_reused 7 = 1"
  by (auto simp: address_reused_def step_defs first_served_state fun_eq_iff)

lemma first_served_reachable: "lifetime_reachable e first_served"
proof -
  have "lifetime_reachable e (make_handler 7 5 lifetime_new)"
    by (rule lt_next [OF lt_init lt_make]) (simp_all add: lifetime_new_def)
  then have "lifetime_reachable e (add_entry 7 (make_handler 7 5 lifetime_new))"
    by (rule lt_next [OF _ lt_add]) (simp_all add: make_handler_def lifetime_new_def)
  then have "lifetime_reachable e (add_register True 0 (add_entry 7 (make_handler 7 5 lifetime_new)))"
    by (rule lt_next [OF _ lt_register [of _ _ 7]]) (simp add: lifetime_new_def step_defs)
  then show ?thesis unfolding first_served_def by (rule lt_next [OF _ lt_let_go]) (simp_all add: lifetime_new_def step_defs)
qed

lemma address_reused_reachable: "lifetime_reachable False address_reused"
proof -
  have "lifetime_reachable False (close_delete True 0 first_served)"
    by (rule lt_next [OF first_served_reachable lt_delete [of _ 5]]) (simp_all add: first_served_state)
  then have "lifetime_reachable False (close_reset 0 7 (Some Unlinked) (close_delete True 0 first_served))"
    by (rule lt_next [OF _ lt_reset]) (simp_all add: close_delete_def first_served_state)
  then show ?thesis
    unfolding address_reused_def by (rule lt_next [OF _ lt_make]) (simp_all add: step_defs first_served_state)
qed

text \<open>The poller of the theory PollSet before its second handler is added.\<close>

definition shown_start :: lifetime where
  "shown_start = make_handler 4 6 (add_register True 0 (add_entry 3 (make_handler 3 5 lifetime_new)))"

lemma shown_start_reachable: "lifetime_reachable False shown_start"
proof -
  have "lifetime_reachable False (make_handler 3 5 lifetime_new)"
    by (rule lt_next [OF lt_init lt_make]) (simp_all add: lifetime_new_def)
  then have "lifetime_reachable False (add_entry 3 (make_handler 3 5 lifetime_new))"
    by (rule lt_next [OF _ lt_add]) (simp_all add: make_handler_def lifetime_new_def)
  then have "lifetime_reachable False (add_register True 0 (add_entry 3 (make_handler 3 5 lifetime_new)))"
    by (rule lt_next [OF _ lt_register [of _ _ 3]]) (simp add: lifetime_new_def step_defs)
  then show ?thesis unfolding shown_start_def by (rule lt_next [OF _ lt_make]) (auto simp: lifetime_new_def step_defs ran_def)
qed

lemma shown_start_poller:
  "shows_poller numbered_class (\<lambda>_ _. True) (snd (poller_new numbered_class (\<lambda>_ _. True) 2 (\<lambda>d. (int d + 2, 0)) 3)) shown_start"
  by (auto simp: shown_start_def shows_poller_def numbered_class_def poller_new_def poller_add_def link_new_holder_def epoll_ctl_def
    set_holder_def holder_new_def registered_def lifetime_new_def step_defs fun_eq_iff split: if_splits)

subsection \<open>The operations of the poller\<close>

text \<open>One thread at a time the steps are the operations of the poller: \<open>add\<close> is the entry and the registration with the answer of
  \<open>epoll_ctl\<close>, and the closing of a handler is the removal from the poll set, the reset and the removal from the map, or the first
  of them alone when \<open>epoll_ctl\<close> refuses.\<close>

theorem steps_are_add_and_close:
  assumes "shows_poller cls ctl_ok p s" and "lifetime_reachable e s" and "fds_fixed cls"
  shows "(d \<in> fresh s \<longrightarrow> poller_add cls ctl_ok d p = (r, p') \<longrightarrow>
      shows_poller cls ctl_ok p' (add_register (r = Return True) (made s) (add_entry d s))) \<and>
    (pointees s h = Some d \<longrightarrow> close_handler cls ctl_ok h d p = (r', p'') \<longrightarrow>
      shows_poller cls ctl_ok p'' (if r' = Return ()
        then close_erase h d None (close_reset h d (Some Unlinked) (close_delete True h s)) else close_delete False h s))"
proof -
  have "\<exists>fd. descriptors s d = Some fd" "h < made s" if "pointees s h = Some d"
    using that unowned_iff [OF lifetime_uses [OF assms(2)], of d] ranI [of "pointees s" h d] pointeeD [OF lifetime_holders [OF assms(2)] that]
    by blast+
  then show ?thesis using add_shown [OF assms(1,2)] close_shown [OF assms(1,3)] by blast
qed

theorem steps_are_add_and_close_witness:
  "shows_poller numbered_class (\<lambda>_ _. True) numbered_poller (add_register True 1 (add_entry 4 shown_start))"
proof -
  have "poller_add numbered_class (\<lambda>_ _. True) 4 (snd (poller_new numbered_class (\<lambda>_ _. True) 2 (\<lambda>d. (int d + 2, 0)) 3)) = (Return True, numbered_poller)"
    by (simp add: numbered_poller_def poller_new_def poller_add_def link_new_holder_def epoll_ctl_def set_holder_def Let_def)
  then show ?thesis
    using steps_are_add_and_close [OF shown_start_poller shown_start_reachable numbered_class_fixed,
        where d = 4 and r = "Return True" and p' = numbered_poller]
    by (simp add: shown_start_def lifetime_new_def step_defs)
qed

subsection \<open>Properties\<close>

text \<open>C26: A handler lives, and its descriptor is open, exactly as long as its maker or a holder points to it, so each is closed once and none
  is forgotten, also when the poller is destroyed; and a descriptor that the kernel can report is open and belongs to the handler of the holder registered with it, alone. All this in
  every interleaving of adding, closing and letting go, with whatever descriptors and addresses the system gives out again.\<close>

theorem handlers_live_while_owned:
  assumes "lifetime_reachable e s"
  shows "(descriptors s d \<noteq> None \<longleftrightarrow> d \<in> held s \<or> d \<in> ran (pointees s)) \<and>
    (polled s fd = Some h \<longrightarrow> (\<exists>d. pointees s h = Some d \<and> descriptors s d = Some fd \<and> (\<forall>d'. descriptors s d' = Some fd \<longrightarrow> d' = d)))"
proof (intro conjI impI)
  show "descriptors s d \<noteq> None \<longleftrightarrow> d \<in> held s \<or> d \<in> ran (pointees s)"
    using unowned_iff [OF lifetime_uses [OF assms], of d] by simp
next
  assume "polled s fd = Some h"
  then show "\<exists>d. pointees s h = Some d \<and> descriptors s d = Some fd \<and> (\<forall>d'. descriptors s d' = Some fd \<longrightarrow> d' = d)"
    using polledD [OF lifetime_polled [OF assms]] by blast
qed

theorem handlers_live_while_owned_witness:
  "\<exists>d. pointees first_served 0 = Some d \<and> descriptors first_served d = Some 5"
  using handlers_live_while_owned [OF first_served_reachable, where d = 7 and fd = 5 and h = 0] first_served_state(1) by auto

lemma lost_only_in_window:
  assumes "lifetime_reachable e s" and "d \<in> fresh s" and "entries s d = Some h"
  shows "\<not> e \<and> closing s h = Some (d, Unlinked)"
  using assms lifetime_holders [OF assms(1)] entryD pointeeD stageD(2) by blast

lemma nothing_lost: "lifetime_reachable True s \<Longrightarrow> lost s = []"
proof (induction rule: lifetime_reachable.induct)
  case (lt_next s s')
  have free: "entries s d = None" if "d \<in> fresh s" for d
    using lost_only_in_window [OF lt_next.hyps(1) that] by (cases "entries s d") auto
  from lt_next.hyps(2) show ?case
    by cases (use lt_next.IH free in \<open>auto simp: step_defs split: option.splits\<close>)
qed (simp add: lifetime_new_def)

text \<open>C33: The address of a closed handler can be given out again before its entry leaves the map. In some run the next connection gets it, \<open>add\<close>
  finds the old entry, answers true and registers nothing, and with the acceptor's variable the handler goes and its connection is closed
  unserved. That is the only way to lose one: \<open>add\<close> finds an entry only while the thread that closes the handler at this address is
  between the reset and the removal; and were the entry removed first, nothing would ever be lost.\<close>

theorem reused_address_loses_connection:
  "(\<exists>s. lifetime_reachable False s \<and> lost s = [7] \<and> descriptors s 7 = None \<and> fresh s = {} \<and> polled s = (\<lambda>_. None)) \<and>
   (\<forall>e s d h. lifetime_reachable e s \<longrightarrow> d \<in> fresh s \<longrightarrow> entries s d = Some h \<longrightarrow> \<not> e \<and> closing s h = Some (d, Unlinked)) \<and>
   (\<forall>s. lifetime_reachable True s \<longrightarrow> lost s = [])"
proof -
  let ?s = "let_go 7 (add_entry 7 address_reused)"
  have "lifetime_reachable False (add_entry 7 address_reused)"
    by (rule lt_next [OF address_reused_reachable lt_add]) (simp_all add: address_reused_state)
  then have "lifetime_reachable False ?s" by (rule lt_next [OF _ lt_let_go]) (simp_all add: step_defs address_reused_state)
  moreover have "lost ?s = [7]" "descriptors ?s 7 = None" "fresh ?s = {}" "polled ?s = (\<lambda>_. None)"
    by (simp_all add: step_defs address_reused_state)
  ultimately have "\<exists>s. lifetime_reachable False s \<and> lost s = [7] \<and> descriptors s 7 = None \<and> fresh s = {} \<and> polled s = (\<lambda>_. None)"
    by blast
  then show ?thesis using lost_only_in_window nothing_lost by blast
qed

theorem reused_address_loses_connection_witness:
  "closing address_reused 0 = Some (7, Unlinked) \<and> lost (first_served :: lifetime) = []"
proof -
  have "7 \<in> fresh address_reused" "entries address_reused 7 = Some 0" by (simp_all add: address_reused_state)
  with reused_address_loses_connection address_reused_reachable have "closing address_reused 0 = Some (7, Unlinked)" by blast
  moreover have "lost first_served = []" using reused_address_loses_connection first_served_reachable [of True] by blast
  ultimately show ?thesis by simp
qed

end
