(* ===== verification/MsgQueue.thy ===== *)
theory MsgQueue
  imports GearsTime "HOL-Library.Multiset"
begin

section \<open>The outgoing message queue (litemq/MessageQueue.hpp, litemq/Message.hpp)\<close>

text \<open>
  A \<open>MessageHolder\<close> is shared between the queue in push order, the multimap in timeout order and
  the handlers that popped it. Its members are constant but for the atomic counter \<open>expired_\<close>,
  so the model keeps the constant part by value, with the address that identifies the object,
  and the counters of all holders in the map \<open>expired\<close>. \<open>fired\<close> records the timeout callbacks
  in the order they are called. Every operation takes the queue's mutex for the whole of its
  access to the containers, so one operation is one function on the state.

  The two \<open>add\<close> templates cannot be instantiated as they stand: the first names \<open>void()\<close> as the
  type of the callback member, the second passes three arguments to a constructor of four.
  The model gives them the constructor arguments by name. The constructor leaves
  \<open>message_count_\<close> uninitialised: its first value is an argument of \<open>mq_new\<close>.

  The theorems: \<open>pop\<close> takes the shortest prefix that reaches the size, and where no prefix
  does it moves the iterator past the end; \<open>push_front\<close> after \<open>pop\<close> restores the queue and
  expires what exceeds the capacity; in every reachable state each callback has been called at
  most once; how \<open>message_count_\<close> drifts from the number of messages.
\<close>

subsection \<open>\<open>MessageBuffer\<close>\<close>

record message_buffer =
  buffer_body :: "byte list"

definition buffer_of_vector :: "byte list \<Rightarrow> message_buffer" where
  "buffer_of_vector body = \<lparr>buffer_body = body\<rparr>"

text \<open>\<open>MessageBuffer(const void* buffer, unsigned long size)\<close> copies \<open>size\<close> bytes.\<close>

definition buffer_of_memory :: "byte list \<Rightarrow> nat \<Rightarrow> message_buffer outcome" where
  "buffer_of_memory buffer n =
     (if n \<le> length buffer then Inr \<lparr>buffer_body = take n buffer\<rparr>
      else Inl Out_Of_Bounds)"

text \<open>\<open>body_\<close> is constant: the move constructor copies it, and the source keeps its bytes.\<close>

definition buffer_move :: "message_buffer \<Rightarrow> message_buffer \<times> message_buffer" where
  "buffer_move init = (\<lparr>buffer_body = buffer_body init\<rparr>, init)"

text \<open>\<open>&body_[0]\<close> of an empty vector is out of bounds.\<close>

definition buffer_data :: "message_buffer \<Rightarrow> byte list outcome" where
  "buffer_data b = (if buffer_body b = [] then Inl Out_Of_Bounds else Inr (buffer_body b))"

definition buffer_size :: "message_buffer \<Rightarrow> nat" where
  "buffer_size b = length (buffer_body b)"

subsection \<open>\<open>MessageHolder\<close>\<close>

record message_holder =
  address :: nat
  push_time :: timeval
  expire_time :: timeval
  request_id :: int
  message :: message_buffer

definition holder_data :: "message_holder \<Rightarrow> byte list outcome" where
  "holder_data h = buffer_data (message h)"

definition holder_size :: "message_holder \<Rightarrow> nat" where
  "holder_size h = buffer_size (message h)"

definition plain_size :: "message_holder \<Rightarrow> nat" where
  "plain_size h = holder_size h + 4"

subsection \<open>\<open>MessageQueue\<close>\<close>

record message_queue =
  max_size :: nat
  messages :: "message_holder list"
  timed_messages :: "(timeval \<times> message_holder) list"
  message_count :: int
  expired :: "nat \<Rightarrow> int"
  fired :: "message_holder list"
  next_address :: nat

text \<open>\<open>need_to_send\<close> returns \<open>expired_.load()\<close> converted to \<open>bool\<close>.\<close>

definition need_to_send :: "message_queue \<Rightarrow> message_holder \<Rightarrow> bool" where
  "need_to_send q h \<longleftrightarrow> expired q (address h) \<noteq> 0"

definition expire :: "message_holder \<Rightarrow> message_queue \<Rightarrow> bool \<times> message_queue" where
  "expire h q =
     (let n = s32 (expired q (address h) + 1);
          q1 = q\<lparr>expired := (expired q)(address h := n)\<rparr>
      in if n = 1 then (True, q1\<lparr>fired := fired q1 @ [h]\<rparr>) else (False, q1))"

definition mq_new :: "nat \<Rightarrow> int \<Rightarrow> message_queue" where
  "mq_new max_size_val garbage =
     \<lparr>max_size = max_size_val, messages = [], timed_messages = [],
      message_count = s32 garbage, expired = (\<lambda>_. 0), fired = [], next_address = 0\<rparr>"

text \<open>\<open>new MessageHolderImpl(message, callback, expire_time, request_id)\<close> at the next address.\<close>

definition new_holder ::
  "timeval \<Rightarrow> message_buffer \<Rightarrow> timeval \<Rightarrow> int \<Rightarrow> message_queue \<Rightarrow> message_holder" where
  "new_holder now msg expire_time_val request_id_val q =
     \<lparr>address = next_address q, push_time = now, expire_time = expire_time_val,
      request_id = u64 request_id_val, message = msg\<rparr>"

text \<open>
  \<open>add(message)\<close>: the count is compared as \<open>int\<close>. \<open>add(message, callback, timeout, id)\<close>: it is
  compared as \<open>unsigned long\<close>.
\<close>

definition add_message :: "timeval \<Rightarrow> message_buffer \<Rightarrow> message_queue \<Rightarrow> bool \<times> message_queue" where
  "add_message now msg q =
     (let q1 = q\<lparr>message_count := s32 (message_count q + 1)\<rparr>
      in if message_count q1 < s32 (int (max_size q1)) then
           let h = new_holder now msg time_zero 0 q1
           in (True, q1\<lparr>messages := messages q1 @ [h], next_address := next_address q1 + 1\<rparr>)
         else (False, q1\<lparr>message_count := s32 (message_count q1 - 1)\<rparr>))"

text \<open>\<open>std::multimap::insert\<close> puts an equal key after the ones already there.\<close>

fun timed_insert ::
  "timeval \<Rightarrow> 'a \<Rightarrow> (timeval \<times> 'a) list \<Rightarrow> (timeval \<times> 'a) list" where
  "timed_insert k v [] = [(k, v)]"
| "timed_insert k v ((k', v') # xs) =
     (if time_lt k k' then (k, v) # (k', v') # xs else (k', v') # timed_insert k v xs)"

definition add_timed_message ::
  "timeval \<Rightarrow> message_buffer \<Rightarrow> timeval \<Rightarrow> int \<Rightarrow> message_queue \<Rightarrow> bool \<times> message_queue" where
  "add_timed_message now msg timeout request_id_val q =
     (let q1 = q\<lparr>message_count := s32 (message_count q + 1)\<rparr>
      in if u64 (message_count q1) < int (max_size q1) then
           let h = new_holder now msg timeout request_id_val q1
           in (True, q1\<lparr>messages := messages q1 @ [h],
                 timed_messages := timed_insert timeout h (timed_messages q1),
                 next_address := next_address q1 + 1\<rparr>)
         else (False, q1\<lparr>message_count := s32 (message_count q1 - 1)\<rparr>))"

text \<open>The loop \<open>for(it ...) (*it)->expire()\<close> of \<open>push_front\<close>.\<close>

fun expire_all :: "message_holder list \<Rightarrow> message_queue \<Rightarrow> message_queue" where
  "expire_all [] q = q"
| "expire_all (h # hs) q = expire_all hs (snd (expire h q))"

definition push_front :: "message_holder list \<Rightarrow> message_queue \<Rightarrow> message_queue" where
  "push_front hs q =
     (let q1 = q\<lparr>message_count := s32 (message_count q + int (length hs))\<rparr>;
          q2 = q1\<lparr>messages := hs @ messages q1\<rparr>
      in if length (messages q2) > max_size q2 then
           let keep = length (messages q2) - (length (messages q2) - max_size q2);
               erase_messages = drop keep (messages q2)
           in expire_all erase_messages (q2\<lparr>messages := take keep (messages q2)\<rparr>)
         else q2)"

text \<open>The loop of \<open>clear_timeouted\<close> over the expired messages.\<close>

fun expire_counted :: "message_holder list \<Rightarrow> message_queue \<Rightarrow> message_queue" where
  "expire_counted [] q = q"
| "expire_counted (h # hs) q =
     (case expire h q of
        (True, q1) \<Rightarrow> expire_counted hs (q1\<lparr>message_count := s32 (message_count q1 - 1)\<rparr>)
      | (False, q1) \<Rightarrow> expire_counted hs q1)"

text \<open>\<open>upper_bound(time)\<close>: the first entry whose key is greater than \<open>time\<close>.\<close>

definition upper_bound :: "timeval \<Rightarrow> (timeval \<times> 'a) list \<Rightarrow> nat" where
  "upper_bound time xs = length (takeWhile (\<lambda>(k, _). \<not> time_lt time k) xs)"

definition clear_timeouted :: "timeval \<Rightarrow> message_queue \<Rightarrow> message_queue" where
  "clear_timeouted time q =
     (let end_it = upper_bound time (timed_messages q);
          expire_messages = map snd (take end_it (timed_messages q));
          q1 = q\<lparr>timed_messages := drop end_it (timed_messages q)\<rparr>
      in expire_counted expire_messages q1)"

text \<open>
  The loop of \<open>pop\<close>: the messages moved out so far and, at the \<open>break\<close>, the number of steps of
  the iterator; \<open>None\<close> when the loop ends at \<open>end()\<close>, where \<open>++it\<close> is undefined.
\<close>

fun pop_loop ::
  "message_holder list \<Rightarrow> nat \<Rightarrow> nat \<Rightarrow> message_holder list \<times> nat option" where
  "pop_loop [] cur_size send_size = ([], None)"
| "pop_loop (h # hs) cur_size send_size =
     (let cur_size' = cur_size + plain_size h
      in if cur_size' \<ge> send_size then ([h], Some 0)
         else case pop_loop hs cur_size' send_size of
                (popped, it) \<Rightarrow> (h # popped, map_option Suc it))"

definition pop :: "nat \<Rightarrow> message_queue \<Rightarrow> (message_holder list \<times> message_queue) outcome" where
  "pop send_size q =
     (case pop_loop (messages q) 0 send_size of
        (popped, Some it) \<Rightarrow> Inr (popped, q\<lparr>messages := drop (Suc it) (messages q)\<rparr>)
      | (_, None) \<Rightarrow> Inl Invalid_Iterator)"

definition eldest_time :: "message_queue \<Rightarrow> timeval" where
  "eldest_time q = (case messages q of [] \<Rightarrow> time_zero | h # _ \<Rightarrow> push_time h)"

subsection \<open>Taking messages\<close>

abbreviation total_size :: "message_holder list \<Rightarrow> nat" where
  "total_size hs \<equiv> sum_list (map plain_size hs)"

lemma plain_size_pos [simp]: "0 < plain_size h"
  by (simp add: plain_size_def)

lemma pop_loop_popped:
  "pop_loop hs c n = (popped, Some it) \<Longrightarrow>
    popped = take (Suc it) hs \<and> it < length hs \<and>
    c + total_size popped \<ge> n \<and> (popped \<noteq> [] \<and> (it > 0 \<longrightarrow> c + total_size (butlast popped) < n))"
proof (induction hs c n arbitrary: popped it rule: pop_loop.induct)
  case (2 h hs c n)
  show ?case
  proof (cases "c + plain_size h \<ge> n")
    case True
    with 2(2) show ?thesis by (auto simp: Let_def)
  next
    case False
    with 2(2) obtain popped' it' where r: "pop_loop hs (c + plain_size h) n = (popped', Some it')"
      "popped = h # popped'" "it = Suc it'"
      by (auto simp: Let_def split: prod.splits)
    note IH = 2(1) [OF refl False r(1)]
    from IH False r show ?thesis
      by (cases it') (auto simp: add.assoc take_Suc split: list.splits)
  qed
qed simp

lemma pop_loop_end:
  "snd (pop_loop hs c n) = None \<longleftrightarrow> hs = [] \<or> c + total_size hs < n"
proof (induction hs c n rule: pop_loop.induct)
  case (2 h hs c n)
  then show ?case
    by (cases "c + plain_size h \<ge> n"; cases hs) (auto simp: Let_def add.assoc split: prod.splits)
qed simp

lemma pop_cases:
  obtains (popped) b rest where "pop n q = Inr (b, q\<lparr>messages := rest\<rparr>)" "messages q = b @ rest"
      "b \<noteq> []" "n \<le> total_size b" "length b \<noteq> 1 \<Longrightarrow> total_size (butlast b) < n"
      "n \<le> total_size (messages q)"
  | (past_end) "pop n q = Inl Invalid_Iterator" "messages q = [] \<or> total_size (messages q) < n"
proof (cases "snd (pop_loop (messages q) 0 n)")
  case None
  then have "messages q = [] \<or> total_size (messages q) < n"
    using pop_loop_end [of "messages q" 0 n] by simp
  with None show thesis
    by (intro past_end) (auto simp: pop_def split: prod.splits)
next
  case (Some it)
  then obtain b where r: "pop_loop (messages q) 0 n = (b, Some it)"
    by (metis prod.collapse)
  note p = pop_loop_popped [OF r]
  have len: "length b = Suc it" using p by (auto simp: min_def)
  show thesis
  proof (rule popped [of b "drop (Suc it) (messages q)"])
    show "messages q = b @ drop (Suc it) (messages q)" using p by simp
    then have "total_size (messages q) = total_size b + total_size (drop (Suc it) (messages q))"
      by (metis map_append sum_list_append)
    then show "n \<le> total_size (messages q)" using p by linarith
  qed (use p len r in \<open>auto simp: pop_def\<close>)
qed

subsection \<open>Expiring messages\<close>

lemma expire_unchanged [simp]:
  "messages (snd (expire h q)) = messages q"
  "timed_messages (snd (expire h q)) = timed_messages q"
  "message_count (snd (expire h q)) = message_count q"
  "max_size (snd (expire h q)) = max_size q"
  "next_address (snd (expire h q)) = next_address q"
  by (simp_all add: expire_def Let_def)

lemma expire_all_unchanged [simp]:
  "messages (expire_all hs q) = messages q"
  "timed_messages (expire_all hs q) = timed_messages q"
  "message_count (expire_all hs q) = message_count q"
  "max_size (expire_all hs q) = max_size q"
  "next_address (expire_all hs q) = next_address q"
  by (induction hs q rule: expire_all.induct) simp_all

lemma expire_counted_unchanged [simp]:
  "messages (expire_counted hs q) = messages q"
  "timed_messages (expire_counted hs q) = timed_messages q"
  "max_size (expire_counted hs q) = max_size q"
  "next_address (expire_counted hs q) = next_address q"
proof (induction hs arbitrary: q)
  case (Cons h hs)
  { case 1 with Cons(1) show ?case by (simp add: expire_def Let_def)
  next case 2 with Cons(2) show ?case by (simp add: expire_def Let_def)
  next case 3 with Cons(3) show ?case by (simp add: expire_def Let_def)
  next case 4 with Cons(4) show ?case by (simp add: expire_def Let_def) }
qed simp_all

text \<open>
  Both loops expire each message of a list once; what they do to the counters and to the
  callbacks is the same, and is told by the list alone when its addresses are distinct.
\<close>

lemma expire_all_effect:
  assumes "distinct (map address hs)" and "\<forall>h \<in> set hs. 0 \<le> expired q (address h) \<and> expired q (address h) < 2"
  shows "expired (expire_all hs q) =
      (\<lambda>a. if a \<in> address ` set hs then expired q a + 1 else expired q a) \<and>
    fired (expire_all hs q) = fired q @ filter (\<lambda>h. expired q (address h) = 0) hs"
  using assms
proof (induction hs arbitrary: q)
  case (Cons h hs)
  have e: "expired (snd (expire h q)) = (expired q)(address h := expired q (address h) + 1)"
    "fired (snd (expire h q)) = fired q @ (if expired q (address h) = 0 then [h] else [])"
    using Cons.prems(2) by (auto simp: expire_def Let_def s32_id)
  have other: "expired (snd (expire h q)) (address x) = expired q (address x)" if "x \<in> set hs" for x
    using Cons.prems(1) that by (auto simp: e image_iff)
  have IH: "expired (expire_all hs (snd (expire h q))) =
      (\<lambda>a. if a \<in> address ` set hs then expired (snd (expire h q)) a + 1
           else expired (snd (expire h q)) a) \<and>
    fired (expire_all hs (snd (expire h q))) = fired (snd (expire h q)) @
      filter (\<lambda>h'. expired (snd (expire h q)) (address h') = 0) hs"
    using Cons.prems other by (intro Cons.IH) simp_all
  have "filter (\<lambda>h'. expired (snd (expire h q)) (address h') = 0) hs =
      filter (\<lambda>h'. expired q (address h') = 0) hs"
    using other by (intro filter_cong) simp_all
  with IH Cons.prems(1) show ?case
    by (auto simp: e fun_eq_iff)
qed simp

lemma expire_all_count:
  "expire_all hs (q\<lparr>message_count := c\<rparr>) = (expire_all hs q)\<lparr>message_count := c\<rparr>"
proof (induction hs arbitrary: q)
  case (Cons h hs)
  have "snd (expire h (q\<lparr>message_count := c\<rparr>)) = (snd (expire h q))\<lparr>message_count := c\<rparr>"
    by (simp add: expire_def Let_def)
  with Cons.IH show ?case by simp
qed simp

lemma expire_counted_eq:
  assumes "distinct (map address hs)" and "\<forall>h \<in> set hs. 0 \<le> expired q (address h) \<and> expired q (address h) < 2"
    and "s32 (message_count q) = message_count q"
  shows "expire_counted hs q = (expire_all hs q)
    \<lparr>message_count := s32 (message_count q - int (length (filter (\<lambda>h. expired q (address h) = 0) hs)))\<rparr>"
  using assms
proof (induction hs arbitrary: q)
  case (Cons h hs)
  let ?q1 = "snd (expire h q)"
  have e: "expired ?q1 = (expired q)(address h := expired q (address h) + 1)"
    "fst (expire h q) \<longleftrightarrow> expired q (address h) = 0"
    using Cons.prems(2) by (auto simp: expire_def Let_def s32_id)
  have other: "expired ?q1 (address x) = expired q (address x)" if "x \<in> set hs" for x
    using Cons.prems(1) that by (auto simp: e image_iff)
  have same: "filter (\<lambda>h'. expired ?q1 (address h') = 0) hs =
      filter (\<lambda>h'. expired q (address h') = 0) hs"
    using other by (intro filter_cong) simp_all
  define q2 where "q2 = (if fst (expire h q)
    then ?q1\<lparr>message_count := s32 (message_count q - 1)\<rparr> else ?q1)"
  have step: "expire_counted (h # hs) q = expire_counted hs q2"
    using expire_unchanged(3) [of h q] by (cases "expire h q") (auto simp: q2_def)
  have q2: "expired q2 = expired ?q1" "s32 (message_count q2) = message_count q2"
    "message_count q2 = s32 (message_count q - (if expired q (address h) = 0 then 1 else 0))"
    using Cons.prems(3) by (simp_all add: q2_def e)
  have "expire_counted hs q2 = (expire_all hs q2)
    \<lparr>message_count := s32 (message_count q2 - int (length (filter (\<lambda>h. expired q2 (address h) = 0) hs)))\<rparr>"
    using Cons.prems other q2 by (intro Cons.IH) simp_all
  moreover have "(expire_all hs q2)\<lparr>message_count := c\<rparr> = (expire_all hs ?q1)\<lparr>message_count := c\<rparr>" for c
    by (simp add: q2_def flip: expire_all_count)
  ultimately show ?case
    unfolding step q2(1) same q2(3)
    using s32_add_left [of "message_count q - 1" "- int (length (filter (\<lambda>h'. expired q (address h') = 0) hs))"]
      s32_add_left [of "message_count q" "- int (length (filter (\<lambda>h'. expired q (address h') = 0) hs))"]
    by (simp add: algebra_simps)
qed simp

subsection \<open>The queue and its clients: reachable states\<close>

text \<open>
  A handler holds the messages it popped until it sends them or pushes them back. A state of
  the run is the queue, the messages held and the messages sent.
\<close>

type_synonym queue_run = "message_queue \<times> message_holder list \<times> message_holder list"

inductive mq_step :: "queue_run \<Rightarrow> queue_run \<Rightarrow> bool" where
  step_add: "mq_step (q, held, sent) (snd (add_message now msg q), held, sent)"
| step_add_timed:
    "mq_step (q, held, sent) (snd (add_timed_message now msg timeout rid q), held, sent)"
| step_pop: "pop n q = Inr (b, q') \<Longrightarrow> mq_step (q, held, sent) (q', held @ b, sent)"
| step_back: "mset held = mset (hs @ kept) \<Longrightarrow> mq_step (q, held, sent) (push_front hs q, kept, sent)"
| step_sent: "mset held = mset (hs @ kept) \<Longrightarrow> mq_step (q, held, sent) (q, kept, sent @ hs)"
| step_clear: "mq_step (q, held, sent) (clear_timeouted time q, held, sent)"

inductive_cases mq_stepE: "mq_step (q, held, sent) r"

inductive mq_reachable :: "nat \<Rightarrow> int \<Rightarrow> queue_run \<Rightarrow> bool" for m c where
  mq_init: "mq_reachable m c (mq_new m c, [], [])"
| mq_next: "mq_reachable m c r \<Longrightarrow> mq_step r r' \<Longrightarrow> mq_reachable m c r'"

text \<open>
  The invariant. Addresses identify messages; a message can still be expired by the queue only
  once through each container it is in, so its counter is at most one per container it has
  left; the callbacks called are those of the messages with a counter; no message is lost.
\<close>

definition active :: "message_queue \<Rightarrow> message_holder list \<Rightarrow> nat set" where
  "active q held = address ` set (messages q @ held)"

definition timed :: "message_queue \<Rightarrow> nat set" where
  "timed q = address ` snd ` set (timed_messages q)"

definition called_once :: "nat set \<Rightarrow> nat set \<Rightarrow> nat set \<Rightarrow> message_queue \<Rightarrow> bool" where
  "called_once A T S q \<longleftrightarrow>
     A \<union> T \<union> S \<union> address ` set (fired q) \<subseteq> {..<next_address q} \<and>
     {..<next_address q} \<subseteq> A \<union> S \<union> address ` set (fired q) \<and>
     (\<forall>a. 0 \<le> expired q a \<and>
       expired q a \<le> (if a \<in> A then 0 else 1) + (if a \<in> T then 0 else 1)) \<and>
     (\<forall>a \<ge> next_address q. expired q a = 0) \<and>
     distinct (map address (fired q)) \<and>
     (\<forall>a. a \<in> address ` set (fired q) \<longleftrightarrow> expired q a \<noteq> 0)"

definition mq_inv :: "queue_run \<Rightarrow> bool" where
  "mq_inv r = (case r of (q, held, sent) \<Rightarrow>
     distinct (map address (messages q @ held)) \<and>
     distinct (map (address \<circ> snd) (timed_messages q)) \<and>
     sorted (map fst (timed_messages q)) \<and>
     called_once (active q held) (timed q) (address ` set sent) q \<and>
     s32 (message_count q) = message_count q)"

lemma called_once_cong:
  assumes "expired q' = expired q" and "fired q' = fired q" and "next_address q' = next_address q"
  shows "called_once A T S q' = called_once A T S q"
  by (simp add: called_once_def assms)

lemma called_once_bound:
  assumes "called_once A T S q"
  shows "0 \<le> expired q a"
    and "expired q a \<le> (if a \<in> A then 0 else 1) + (if a \<in> T then 0 else 1)"
  using assms unfolding called_once_def by blast+

lemma called_once_new:
  assumes "called_once A T S q" and "expired q' = expired q" and "fired q' = fired q"
    and "next_address q' = Suc (next_address q)"
    and "A' = insert (next_address q) A" and "T' = T \<or> T' = insert (next_address q) T"
  shows "called_once A' T' S q'"
proof -
  let ?n = "next_address q"
  have n: "?n \<notin> A" "?n \<notin> T" "expired q ?n = 0"
    using assms(1) by (auto simp: called_once_def)
  have b: "expired q a \<le> (if a \<in> A' then 0 else 1) + (if a \<in> T' then 0 else 1)" for a
  proof (cases "a = ?n")
    case True
    then show ?thesis using n assms(5) by simp
  next
    case False
    then have "a \<in> A' \<longleftrightarrow> a \<in> A" "a \<in> T' \<longleftrightarrow> a \<in> T" using assms(5,6) by auto
    then show ?thesis using assms(1) by (simp add: called_once_def)
  qed
  have "{..<Suc ?n} = insert ?n {..<?n}" by auto
  then show ?thesis
    using assms(1,6) b
    unfolding called_once_def assms(2-5) by (intro conjI) auto
qed

lemma called_once_expire:
  assumes c: "called_once A T S q" and d: "distinct (map address hs)"
    and E: "E = address ` set hs"
    and sub: "E \<subseteq> A \<and> A' = A - E \<and> T' = T \<or> E \<subseteq> T \<and> A' = A \<and> T' = T - E"
  shows "called_once A' T' S (expire_all hs q)"
proof -
  have bound: "0 \<le> expired q a"
    "expired q a \<le> (if a \<in> A then 0 else 1) + (if a \<in> T then 0 else 1)" for a
    using c by (simp_all add: called_once_def)
  have "\<forall>h \<in> set hs. 0 \<le> expired q (address h) \<and> expired q (address h) < 2"
  proof
    fix h assume "h \<in> set hs"
    then have "address h \<in> A \<or> address h \<in> T" using E sub by auto
    then show "0 \<le> expired q (address h) \<and> expired q (address h) < 2"
      using bound [of "address h"] by (auto split: if_splits)
  qed
  note eff = expire_all_effect [OF d this]
  have x: "expired (expire_all hs q) a = (if a \<in> E then expired q a + 1 else expired q a)" for a
    using eff E by simp
  have f: "address ` set (fired (expire_all hs q)) = address ` set (fired q) \<union> {a \<in> E. expired q a = 0}"
    using eff E by auto
  have fx: "a \<in> address ` set (fired q) \<longleftrightarrow> expired q a \<noteq> 0" for a
    using c by (simp add: called_once_def)
  let ?new = "filter (\<lambda>h. expired q (address h) = 0) hs"
  have "distinct (map address (fired q))" using c by (simp add: called_once_def)
  moreover have "distinct (map address ?new)" using d by (rule distinct_map_filter)
  moreover have "set (map address (fired q)) \<inter> set (map address ?new) = {}"
    using fx by fastforce
  ultimately have fd: "distinct (map address (fired (expire_all hs q)))"
    using eff by simp
  have b: "expired (expire_all hs q) a \<le> (if a \<in> A' then 0 else 1) + (if a \<in> T' then 0 else 1)" for a
    using bound [of a] sub by (auto simp: x split: if_splits)
  have pos: "0 \<le> expired (expire_all hs q) a" for a using bound [of a] by (simp add: x)
  have E_n: "E \<subseteq> {..<next_address q}" using c sub by (auto simp: called_once_def)
  have zero: "\<forall>a \<ge> next_address q. expired (expire_all hs q) a = 0"
    using c E_n by (auto simp: x called_once_def)
  have iff: "a \<in> address ` set (fired (expire_all hs q)) \<longleftrightarrow> expired (expire_all hs q) a \<noteq> 0" for a
    unfolding f x using fx [of a] bound(1) [of a] by auto
  have up: "A' \<union> T' \<union> S \<union> address ` set (fired (expire_all hs q)) \<subseteq> {..<next_address q}"
    unfolding f using c sub E_n by (auto simp: called_once_def)
  have down: "{..<next_address q} \<subseteq> A' \<union> S \<union> address ` set (fired (expire_all hs q))"
  proof
    fix a assume "a \<in> {..<next_address q}"
    then have "a \<in> A \<union> S \<union> address ` set (fired q)" using c by (auto simp: called_once_def)
    then show "a \<in> A' \<union> S \<union> address ` set (fired (expire_all hs q))"
      unfolding f using sub fx [of a] by blast
  qed
  show ?thesis
    unfolding called_once_def expire_all_unchanged
    by (intro conjI allI up down b pos zero fd iff)
qed

lemma timed_insert_set: "set (timed_insert k v xs) = insert (k, v) (set xs)"
  by (induction k v xs rule: timed_insert.induct) auto

lemma timed_insert_keys:
  "sorted (map fst xs) \<Longrightarrow> sorted (map fst (timed_insert k v xs))"
  by (induction k v xs rule: timed_insert.induct)
    (auto simp: timed_insert_set time_lt_iff_less not_less intro: order_trans less_imp_le)

lemma timed_insert_distinct:
  assumes "f v \<notin> (f \<circ> snd) ` set xs"
  shows "distinct (map (f \<circ> snd) (timed_insert k v xs)) = distinct (map (f \<circ> snd) xs)"
  using assms by (induction k v xs rule: timed_insert.induct) (auto simp: timed_insert_set)

lemma mq_inv_new: "mq_inv (mq_new m c, [], [])"
  by (simp add: mq_inv_def mq_new_def called_once_def active_def timed_def)

lemma mq_inv_add:
  assumes "mq_inv (q, held, sent)"
  shows "mq_inv (snd (add_message now msg q), held, sent)"
proof (cases "s32 (message_count q + 1) < s32 (int (max_size q))")
  case True
  let ?h = "new_holder now msg time_zero 0 q"
  let ?q = "q\<lparr>message_count := s32 (message_count q + 1), messages := messages q @ [?h],
    next_address := Suc (next_address q)\<rparr>"
  have h: "new_holder now msg time_zero 0 (q\<lparr>message_count := c\<rparr>) = ?h" for c
    by (simp add: new_holder_def)
  have once: "called_once (active q held) (timed q) (address ` set sent) q"
    using assms by (simp add: mq_inv_def)
  then have "next_address q \<notin> active q held" by (auto simp: called_once_def)
  then have "distinct (map address (messages ?q @ held))"
    using assms by (auto simp: mq_inv_def active_def new_holder_def)
  moreover have "called_once (active ?q held) (timed ?q) (address ` set sent) ?q"
    by (rule called_once_new [OF once]) (auto simp: active_def timed_def new_holder_def)
  ultimately show ?thesis
    using assms True by (simp add: add_message_def Let_def h mq_inv_def)
next
  case False
  then show ?thesis
    using assms called_once_cong [of "q\<lparr>message_count := s32 (message_count q)\<rparr>" q]
    by (simp add: add_message_def Let_def mq_inv_def active_def timed_def
      s32_add_left [of _ "- 1", simplified])
qed

lemma mq_inv_add_timed:
  assumes "mq_inv (q, held, sent)"
  shows "mq_inv (snd (add_timed_message now msg timeout rid q), held, sent)"
proof (cases "u64 (s32 (message_count q + 1)) < int (max_size q)")
  case True
  let ?h = "new_holder now msg timeout rid q"
  let ?q = "q\<lparr>message_count := s32 (message_count q + 1), messages := messages q @ [?h],
    timed_messages := timed_insert timeout ?h (timed_messages q),
    next_address := Suc (next_address q)\<rparr>"
  have h: "new_holder now msg timeout rid (q\<lparr>message_count := c\<rparr>) = ?h" for c
    by (simp add: new_holder_def)
  have once: "called_once (active q held) (timed q) (address ` set sent) q"
    using assms by (simp add: mq_inv_def)
  then have n: "next_address q \<notin> active q held" "next_address q \<notin> timed q"
    by (auto simp: called_once_def)
  then have "distinct (map address (messages ?q @ held))"
    using assms by (auto simp: mq_inv_def active_def new_holder_def)
  moreover have "distinct (map (address \<circ> snd) (timed_messages ?q))"
    using assms n timed_insert_distinct [of address ?h "timed_messages q" timeout]
    by (auto simp: mq_inv_def timed_def new_holder_def)
  moreover have "called_once (active ?q held) (timed ?q) (address ` set sent) ?q"
    by (rule called_once_new [OF once])
      (auto simp: active_def timed_def new_holder_def timed_insert_set)
  ultimately show ?thesis
    using assms True by (simp add: add_timed_message_def Let_def h mq_inv_def timed_insert_keys)
next
  case False
  then show ?thesis
    using assms called_once_cong [of "q\<lparr>message_count := s32 (message_count q)\<rparr>" q]
    by (simp add: add_timed_message_def Let_def mq_inv_def active_def timed_def
      s32_add_left [of _ "- 1", simplified])
qed

lemma mq_inv_pop:
  assumes "mq_inv (q, held, sent)" and "pop n q = Inr (b, q')"
  shows "mq_inv (q', held @ b, sent)"
proof -
  obtain rest where r: "q' = q\<lparr>messages := rest\<rparr>" "messages q = b @ rest"
    using assms(2) by (cases rule: pop_cases [of n q]) auto
  have "active q' (held @ b) = active q held" "timed q' = timed q"
    by (auto simp: active_def timed_def r)
  then show ?thesis
    using assms(1) called_once_cong [of q' q] by (auto simp: mq_inv_def r)
qed

lemma push_front_eq:
  "push_front hs q =
    expire_all (drop (max_size q) (hs @ messages q))
      (q\<lparr>message_count := s32 (message_count q + int (length hs)),
         messages := take (max_size q) (hs @ messages q)\<rparr>)"
proof (cases "length (hs @ messages q) > max_size q")
  case True
  then have "length (hs @ messages q) - (length (hs @ messages q) - max_size q) = max_size q"
    by simp
  with True show ?thesis
    unfolding push_front_def Let_def by simp
qed (simp add: push_front_def Let_def)

lemma mq_inv_push_front:
  assumes inv: "mq_inv (q, held, sent)" and m: "mset held = mset (hs @ kept)"
  shows "mq_inv (push_front hs q, kept, sent)"
proof -
  define ys where "ys = hs @ messages q"
  let ?n = "max_size q"
  let ?q = "q\<lparr>message_count := s32 (message_count q + int (length hs)), messages := take ?n ys\<rparr>"
  have perm: "mset (map address (messages q @ held)) =
      mset (map address (take ?n ys @ kept)) + mset (map address (drop ?n ys))"
  proof -
    have "mset (messages q @ held) = mset ys + mset kept"
      using m by (simp add: ys_def)
    also have "mset ys = mset (take ?n ys) + mset (drop ?n ys)"
      by (metis append_take_drop_id mset_append)
    finally have "mset (messages q @ held) = mset (take ?n ys @ kept) + mset (drop ?n ys)"
      by simp
    then show ?thesis
      by (simp only: mset_map image_mset_union)
  qed
  then have "mset (map address (messages q @ held)) =
      mset (map address (take ?n ys @ kept) @ map address (drop ?n ys))"
    by simp
  moreover have "distinct (map address (messages q @ held))"
    using inv by (simp add: mq_inv_def)
  ultimately have d: "distinct (map address (take ?n ys @ kept) @ map address (drop ?n ys))"
    by (metis mset_eq_imp_distinct_iff)
  have "set (map address (messages q @ held)) =
      set (map address (take ?n ys @ kept)) \<union> set (map address (drop ?n ys))"
    using arg_cong [OF perm, of set_mset] by (simp only: set_mset_mset set_mset_union)
  then have act: "active ?q kept = active q held - address ` set (drop ?n ys)"
    "address ` set (drop ?n ys) \<subseteq> active q held"
    using d by (auto simp: active_def)
  have "called_once (active q held) (timed q) (address ` set sent) ?q"
    using inv called_once_cong [of ?q q] by (simp add: mq_inv_def)
  then have "called_once (active ?q kept) (timed q) (address ` set sent) (expire_all (drop ?n ys) ?q)"
    using d act by (intro called_once_expire) auto
  moreover have "active (expire_all xs ?q) kept = active ?q kept" "timed (expire_all xs ?q) = timed q"
    for xs by (simp_all add: active_def timed_def)
  ultimately have once: "called_once (active (expire_all (drop ?n ys) ?q) kept)
      (timed (expire_all (drop ?n ys) ?q)) (address ` set sent) (expire_all (drop ?n ys) ?q)"
    by simp
  have "push_front hs q = expire_all (drop ?n ys) ?q"
    by (simp only: push_front_eq ys_def)
  moreover have "distinct (map address (take ?n ys @ kept))"
    using d by (simp only: distinct_append)
  ultimately show ?thesis
    using inv once by (simp add: mq_inv_def)
qed

lemma called_once_sent:
  assumes "called_once (A \<union> E) T S q"
  shows "called_once A T (S \<union> E) q"
proof -
  have "expired q a \<le> (if a \<in> A then 0 else 1) + (if a \<in> T then 0 else 1)" for a
  proof -
    have "expired q a \<le> (if a \<in> A \<union> E then 0 else 1) + (if a \<in> T then 0 else 1)"
      using assms unfolding called_once_def by blast
    then show ?thesis by (auto split: if_splits)
  qed
  then show ?thesis
    using assms unfolding called_once_def by (intro conjI allI) blast+
qed

lemma mq_inv_sent:
  assumes inv: "mq_inv (q, held, sent)" and m: "mset held = mset (hs @ kept)"
  shows "mq_inv (q, kept, sent @ hs)"
proof -
  have perm: "mset (map address (messages q @ held)) =
      mset (map address (messages q @ kept) @ map address hs)"
    using m by simp
  moreover have "distinct (map address (messages q @ held))"
    using inv by (simp add: mq_inv_def)
  ultimately have d: "distinct (map address (messages q @ kept) @ map address hs)"
    by (metis mset_eq_imp_distinct_iff)
  have "set (map address (messages q @ held)) =
      set (map address (messages q @ kept)) \<union> set (map address hs)"
    using arg_cong [OF perm, of set_mset] by (simp only: set_mset_mset set_append)
  then have act: "active q held = active q kept \<union> address ` set hs"
    by (simp add: active_def image_Un)
  have once: "called_once (active q held) (timed q) (address ` set sent) q"
    using inv by (simp add: mq_inv_def)
  then have "called_once (active q kept) (timed q) (address ` set (sent @ hs)) q"
    using called_once_sent unfolding act by (simp add: image_Un)
  moreover have "distinct (map address (messages q @ kept))"
    using d by (simp only: distinct_append)
  ultimately show ?thesis using inv by (simp add: mq_inv_def)
qed

lemma sorted_takeWhile_le:
  fixes time :: "'k::linorder"
  assumes "sorted (map fst xs)"
  shows "takeWhile (\<lambda>(k, _). k \<le> time) xs = filter (\<lambda>(k, _). k \<le> time) xs"
    and "dropWhile (\<lambda>(k, _). k \<le> time) xs = filter (\<lambda>(k, _). \<not> k \<le> time) xs"
proof -
  have "(\<forall>x \<in> set xs. y \<le> fst x) \<Longrightarrow> \<not> y \<le> time \<Longrightarrow> filter (\<lambda>(k, _). k \<le> time) xs = []"
    "(\<forall>x \<in> set xs. y \<le> fst x) \<Longrightarrow> \<not> y \<le> time \<Longrightarrow> filter (\<lambda>(k, _). \<not> k \<le> time) xs = xs"
    for y :: 'k and xs :: "('k \<times> 'b) list"
    by (auto simp: filter_empty_conv filter_id_conv)
  note none = this
  show "takeWhile (\<lambda>(k, _). k \<le> time) xs = filter (\<lambda>(k, _). k \<le> time) xs"
    and "dropWhile (\<lambda>(k, _). k \<le> time) xs = filter (\<lambda>(k, _). \<not> k \<le> time) xs"
    using assms by (induction xs) (auto dest: none)
qed

lemma clear_timeouted_eq:
  assumes "sorted (map fst (timed_messages q))"
  shows "clear_timeouted time q =
    expire_counted (map snd (filter (\<lambda>(k, _). k \<le> time) (timed_messages q)))
      (q\<lparr>timed_messages := filter (\<lambda>(k, _). \<not> k \<le> time) (timed_messages q)\<rparr>)"
proof -
  let ?P = "\<lambda>(k, _ :: message_holder). k \<le> time"
  have P: "(\<lambda>(k, _). \<not> time_lt time k) = ?P"
    by (auto simp: time_lt_iff_less not_less)
  have "take (length (takeWhile ?P (timed_messages q))) (timed_messages q) =
      filter ?P (timed_messages q)"
    unfolding takeWhile_eq_take [symmetric] by (rule sorted_takeWhile_le [OF assms])
  moreover have "drop (length (takeWhile ?P (timed_messages q))) (timed_messages q) =
      filter (\<lambda>(k, _). \<not> k \<le> time) (timed_messages q)"
    unfolding dropWhile_eq_drop [symmetric] by (rule sorted_takeWhile_le [OF assms])
  ultimately show ?thesis
    unfolding clear_timeouted_def upper_bound_def Let_def P by simp
qed

lemma mq_inv_clear:
  assumes inv: "mq_inv (q, held, sent)"
  shows "mq_inv (clear_timeouted time q, held, sent)"
proof -
  let ?out = "filter (\<lambda>(k, _). k \<le> time) (timed_messages q)"
  let ?rest = "filter (\<lambda>(k, _). \<not> k \<le> time) (timed_messages q)"
  let ?q = "q\<lparr>timed_messages := ?rest\<rparr>"
  have srt: "sorted (map fst (timed_messages q))" and cnt: "s32 (message_count q) = message_count q"
    and d0: "distinct (map (address \<circ> snd) (timed_messages q))"
    and once: "called_once (active q held) (timed q) (address ` set sent) q"
    using inv by (simp_all add: mq_inv_def)
  have d: "distinct (map address (map snd ?out))"
    using distinct_map_filter [OF d0] by simp
  have out: "address ` set (map snd ?out) \<subseteq> timed q" by (auto simp: timed_def)
  have inj: "inj_on (address \<circ> snd) (set (timed_messages q))"
    using d0 by (simp add: distinct_map)
  have rest: "timed ?q = timed q - address ` set (map snd ?out)"
  proof (intro set_eqI iffI)
    fix a assume "a \<in> timed ?q"
    then obtain x where x: "x \<in> set (timed_messages q)" "\<not> fst x \<le> time" "a = address (snd x)"
      by (auto simp: timed_def)
    have "y = x" if "y \<in> set (timed_messages q)" "address (snd y) = a" for y
      using inj_onD [OF inj, of y x] that x by simp
    then have "a \<notin> address ` set (map snd ?out)" using x by force
    with x show "a \<in> timed q - address ` set (map snd ?out)" by (auto simp: timed_def)
  qed (force simp: timed_def)
  have "called_once (active q held) (timed q) (address ` set sent) ?q"
    using once called_once_cong [of ?q q] by simp
  then have after: "called_once (active q held) (timed ?q) (address ` set sent)
      (expire_all (map snd ?out) ?q)"
    using d out rest by (intro called_once_expire [OF _ d refl]) auto
  have "\<forall>h \<in> set (map snd ?out). 0 \<le> expired ?q (address h) \<and> expired ?q (address h) < 2"
  proof
    fix h assume "h \<in> set (map snd ?out)"
    then have "address h \<in> timed q" using out by blast
    then have "0 \<le> expired q (address h)"
      "expired q (address h) \<le> (if address h \<in> active q held then 0 else 1)"
      using once by (auto simp: called_once_def split: if_splits) (metis+)?
    then show "0 \<le> expired ?q (address h) \<and> expired ?q (address h) < 2"
      by (simp split: if_splits)
  qed
  note eq = expire_counted_eq [OF d this]
  have "clear_timeouted time q = expire_counted (map snd ?out) ?q"
    by (rule clear_timeouted_eq [OF srt])
  then obtain c where "clear_timeouted time q = (expire_all (map snd ?out) ?q)\<lparr>message_count := s32 c\<rparr>"
    using eq cnt by auto
  moreover have "timed (q'\<lparr>message_count := c\<rparr>) = timed q'" "active (q'\<lparr>message_count := c\<rparr>) held = active q' held"
    "called_once A T S (q'\<lparr>message_count := c\<rparr>) = called_once A T S q'" for q' c A T S
    by (simp_all add: timed_def active_def called_once_def)
  moreover have "active (expire_all xs ?q) held = active q held" "timed (expire_all xs ?q) = timed ?q"
    for xs by (simp_all add: active_def timed_def)
  moreover have "sorted (map fst ?rest)" using srt by (rule sorted_filter)
  ultimately show ?thesis
    using inv after distinct_map_filter [OF d0] by (simp add: mq_inv_def)
qed

lemma mq_inv_step:
  assumes "mq_step r r'" and "mq_inv r"
  shows "mq_inv r'"
  using assms
  by cases (auto intro: mq_inv_add mq_inv_add_timed mq_inv_pop mq_inv_push_front mq_inv_sent
    mq_inv_clear)

lemma mq_inv_reachable: "mq_reachable m c r \<Longrightarrow> mq_inv r"
  by (induction rule: mq_reachable.induct) (auto intro: mq_inv_new mq_inv_step)

subsection \<open>The queue as its clients see it\<close>

text \<open>
  What a sending handler relies on: it takes a non-empty batch from the front and gives back
  what it has not sent, in front of the rest and up to the capacity.
\<close>

locale batch_queue =
  fixes items :: "'q \<Rightarrow> 'm list"
    and capacity :: "'q \<Rightarrow> nat"
    and take_batch :: "nat \<Rightarrow> 'q \<Rightarrow> ('m list \<times> 'q) outcome"
    and give_back :: "'m list \<Rightarrow> 'q \<Rightarrow> 'q"
  assumes take_law: "take_batch n q = Inr (b, q') \<Longrightarrow>
      b \<noteq> [] \<and> items q = b @ items q' \<and> capacity q' = capacity q"
    and back_law: "items (give_back b q) = take (capacity q) (b @ items q)"
    and back_capacity: "capacity (give_back b q) = capacity q"
begin

lemma take_shrinks:
  "take_batch n q = Inr (b, q') \<Longrightarrow> length (items q') < length (items q)"
  using take_law [of n q b q'] by (cases b) auto

lemma back_after_take:
  assumes "take_batch n q = Inr (s @ u, q')" and "length (items q) \<le> capacity q"
  shows "items (give_back u q') = drop (length s) (items q)"
  using take_law [OF assms(1)] assms(2) by (simp add: back_law)

lemma back_all_after_take:
  assumes "take_batch n q = Inr (b, q')" and "length (items q) \<le> capacity q"
  shows "items (give_back b q') = items q"
  using back_after_take [of n q "[]" b] assms by simp

lemma round_keeps_capacity:
  assumes "take_batch n q = Inr (b, q')" and "length u \<le> length b"
    and "length (items q) \<le> capacity q"
  shows "length (items (give_back u q')) \<le> length (items q)"
  using take_law [OF assms(1)] assms(2,3) by (simp add: back_law)

end

lemma pop_law:
  assumes "pop n q = Inr (b, q')"
  shows "b \<noteq> [] \<and> messages q = b @ messages q' \<and> max_size q' = max_size q"
  using assms by (cases rule: pop_cases [of n q]) auto

interpretation lq: batch_queue messages max_size pop push_front
  by unfold_locales (simp_all add: pop_law push_front_eq)

text \<open>A client that adds messages which time out before they are sent.\<close>

fun timeout_rounds :: "timeval \<Rightarrow> message_buffer \<Rightarrow> nat \<Rightarrow> message_queue" where
  "timeout_rounds t msg 0 = mq_new 2 0"
| "timeout_rounds t msg (Suc n) =
     clear_timeouted t (snd (add_timed_message t msg t 0 (timeout_rounds t msg n)))"

lemma timeout_rounds_state:
  "mq_reachable 2 0 (timeout_rounds t msg n, [], []) \<and> max_size (timeout_rounds t msg n) = 2 \<and>
    message_count (timeout_rounds t msg n) = 0 \<and> timed_messages (timeout_rounds t msg n) = [] \<and>
    length (messages (timeout_rounds t msg n)) = n \<and> length (fired (timeout_rounds t msg n)) = n"
proof (induction n)
  case 0
  have "mq_reachable 2 0 (mq_new 2 0, [], [])" by (rule mq_init)
  then show ?case by (simp add: mq_new_def s32_def)
next
  case (Suc n)
  let ?q = "timeout_rounds t msg n"
  have r: "mq_reachable 2 0 (timeout_rounds t msg (Suc n), [], [])"
    using Suc by (auto intro: mq_next [OF _ step_add_timed] mq_next [OF _ step_clear])
  have "called_once (active ?q []) (timed ?q) {} ?q"
    using mq_inv_reachable Suc by (fastforce simp: mq_inv_def)
  then have zero: "expired ?q (next_address ?q) = 0" by (simp add: called_once_def)
  with Suc show ?case
    by (simp add: r del: timeout_rounds.simps(2))
      (simp add: add_timed_message_def new_holder_def clear_timeouted_def upper_bound_def
        time_lt_def expire_def Let_def s32_def u64_def)
qed

subsection \<open>Properties\<close>

text \<open>C15: \<open>pop\<close> moves out the shortest non-empty prefix of the queue whose size with headers
  reaches \<open>send_size\<close>. Where the whole queue is shorter (or empty) the loop runs to \<open>end()\<close> and
  the call is undefined: the only branch that returns is the \<open>break\<close>.\<close>

theorem pop_shortest_prefix:
  "(case pop n q of
      Inr (b, q') \<Rightarrow> messages q = b @ messages q' \<and> b \<noteq> [] \<and> n \<le> total_size b \<and>
        (length b = 1 \<or> total_size (butlast b) < n) \<and>
        q' = q\<lparr>messages := drop (length b) (messages q)\<rparr>
    | Inl f \<Rightarrow> f = Invalid_Iterator) \<and>
   (pop n q = Inl Invalid_Iterator \<longleftrightarrow> messages q = [] \<or> total_size (messages q) < n)"
proof (cases rule: pop_cases [of n q])
  case (popped b rest)
  then have "messages q \<noteq> []" "\<not> total_size (messages q) < n" by auto
  with popped show ?thesis by auto
qed auto

text \<open>Giving back at once what was popped restores the queue of a state within its capacity
  and calls no callback, but for the counter: \<open>pop\<close> leaves it and \<open>push_front\<close> adds to it, so a
  handler that cannot send inflates \<open>message_count_\<close> by the batch on every attempt.\<close>

theorem push_front_after_pop:
  assumes "pop n q = Inr (b, q')" and "length (messages q) \<le> max_size q"
  shows "push_front b q' = q\<lparr>message_count := s32 (message_count q + int (length b))\<rparr>"
  using assms(1)
proof (cases rule: pop_cases [of n q])
  case (popped b' rest)
  then have "messages q = b @ rest" "q' = q\<lparr>messages := rest\<rparr>" using assms(1) by auto
  then show ?thesis using assms(2) by (simp add: push_front_eq)
qed (use assms in simp)

definition example_message :: message_buffer where
  "example_message = \<lparr>buffer_body = [1, 2, 3]\<rparr>"

definition example_queue :: message_queue where
  "example_queue = snd (add_message (Timeval 2 0) example_message
     (snd (add_timed_message (Timeval 1 0) example_message (Timeval 9 0) 7 (mq_new 5 0))))"

theorem push_front_after_pop_witness:
  "message_count example_queue = 2 \<and>
   (case pop 7 example_queue of Inr (b, q') \<Rightarrow>
     length b = 1 \<and> message_count (push_front b q') = 3 \<and>
     messages (push_front b q') = messages example_queue
    | Inl _ \<Rightarrow> False)"
proof -
  obtain b q' where r: "pop 7 example_queue = Inr (b, q')" "length b = 1"
    by (simp add: pop_def example_queue_def add_message_def add_timed_message_def mq_new_def
      new_holder_def example_message_def plain_size_def holder_size_def buffer_size_def Let_def
      s32_def u64_def)
  have q: "message_count example_queue = 2" "length (messages example_queue) \<le> max_size example_queue"
    by (simp_all add: example_queue_def add_message_def add_timed_message_def mq_new_def
      Let_def s32_def u64_def)
  show ?thesis
    using push_front_after_pop [OF r(1) q(2)] q(1) r by (simp add: s32_def)
qed


lemma example_reachable: "mq_reachable 5 0 (example_queue, [], [])"
  unfolding example_queue_def
  by (intro mq_next [OF _ step_add] mq_next [OF _ step_add_timed] mq_init)


text \<open>\<open>push_front\<close> of messages a handler holds puts them before the queue, keeps the first
  \<open>max_size_\<close> of the result, and calls the callbacks of the rest, from the front, but for those
  already called.\<close>

theorem push_front_overflow:
  assumes "mq_reachable m c (q, held, sent)" and "mset held = mset (hs @ kept)"
  shows "messages (push_front hs q) = take (max_size q) (hs @ messages q) \<and>
    fired (push_front hs q) =
      fired q @ filter (\<lambda>h. expired q (address h) = 0) (drop (max_size q) (hs @ messages q)) \<and>
    timed_messages (push_front hs q) = timed_messages q \<and>
    message_count (push_front hs q) = s32 (message_count q + int (length hs))"
proof -
  let ?out = "drop (max_size q) (hs @ messages q)"
  have inv: "mq_inv (q, held, sent)" by (rule mq_inv_reachable [OF assms(1)])
  have perm: "mset (map address (messages q @ held)) =
      mset (map address (hs @ messages q) @ map address kept)"
    using assms(2) by simp
  have d: "distinct (map address (hs @ messages q) @ map address kept)"
  proof -
    have "distinct (map address (messages q @ held))" using inv by (simp add: mq_inv_def)
    with perm show ?thesis by (metis mset_eq_imp_distinct_iff)
  qed
  then have "distinct (map address (hs @ messages q))" by (simp only: distinct_append)
  then have dout: "distinct (map address ?out)"
    unfolding drop_map [symmetric] by (rule distinct_drop)
  have "set ?out \<subseteq> set (messages q @ held)"
    using set_drop_subset [of "max_size q" "hs @ messages q"] arg_cong [OF assms(2), of set_mset]
    by auto
  then have sub: "address ` set ?out \<subseteq> active q held" unfolding active_def by blast
  have "0 \<le> expired q a \<and> expired q a < 2" if "a \<in> active q held" for a
  proof -
    have "called_once (active q held) (timed q) (address ` set sent) q"
      using inv by (simp add: mq_inv_def)
    from called_once_bound [OF this, of a] that show ?thesis by (simp split: if_splits)
  qed
  then have "\<forall>h \<in> set ?out. 0 \<le> expired q (address h) \<and> expired q (address h) < 2"
    using sub by blast
  then show ?thesis
    using expire_all_effect [OF dout, of "q\<lparr>message_count := s32 (message_count q + int (length hs)),
      messages := take (max_size q) (hs @ messages q)\<rparr>"]
    unfolding push_front_eq by simp
qed

definition example_holder :: message_holder where
  "example_holder = new_holder (Timeval 1 0) example_message (Timeval 3 0) 7 (mq_new 3 0)"

text \<open>Two timed messages, the first popped, both timed out, and two more accepted.\<close>

definition example_full :: message_queue where
  "example_full =
     snd (add_message (Timeval 5 0) example_message
       (snd (add_message (Timeval 5 0) example_message
         (clear_timeouted (Timeval 4 0)
           ((snd (add_timed_message (Timeval 1 0) example_message (Timeval 3 0) 8
              (snd (add_timed_message (Timeval 1 0) example_message (Timeval 3 0) 7 (mq_new 3 0)))))
            \<lparr>messages := [example_holder\<lparr>address := 1, request_id := 8\<rparr>]\<rparr>)))))"

lemma example_full_reachable: "mq_reachable 3 0 (example_full, [example_holder], [])"
proof -
  let ?q = "snd (add_timed_message (Timeval 1 0) example_message (Timeval 3 0) 8
    (snd (add_timed_message (Timeval 1 0) example_message (Timeval 3 0) 7 (mq_new 3 0))))"
  have q: "mq_reachable 3 0 (?q, [], [])"
    by (intro mq_next [OF _ step_add_timed] mq_init)
  have "pop 7 ?q = Inr ([example_holder],
    ?q\<lparr>messages := [example_holder\<lparr>address := 1, request_id := 8\<rparr>]\<rparr>)"
    by (simp add: pop_def add_timed_message_def mq_new_def new_holder_def example_message_def
      plain_size_def holder_size_def buffer_size_def Let_def s32_def u64_def example_holder_def)
  from mq_next [OF q step_pop [OF this]] show ?thesis
    unfolding example_full_def
    by (intro mq_next [OF _ step_add] mq_next [OF _ step_clear]) simp
qed

lemmas example_queue_eval =
  example_full_def example_holder_def add_message_def add_timed_message_def mq_new_def
  new_holder_def clear_timeouted_def upper_bound_def time_lt_def expire_def Let_def s32_def u64_def

theorem push_front_overflow_witness:
  "map address (messages (push_front [example_holder] example_full)) = [0, 1, 2] \<and>
   map address (fired example_full) = [0, 1] \<and>
   map address (fired (push_front [example_holder] example_full)) = [0, 1, 3]"
  using push_front_overflow [OF example_full_reachable, of "[example_holder]" "[]"]
  by (simp add: example_queue_eval)

text \<open>\<open>clear_timeouted(time)\<close> takes out of the timeout map exactly the messages whose timeout
  is not after \<open>time\<close>, calls their callbacks in timeout order unless called before, and gives the
  capacity of each callback called back. It leaves the messages themselves in the queue.\<close>

theorem clear_timeouted_exact:
  assumes "mq_reachable m c (q, held, sent)"
  shows "timed_messages (clear_timeouted time q) = filter (\<lambda>(k, _). \<not> k \<le> time) (timed_messages q) \<and>
    fired (clear_timeouted time q) = fired q @
      filter (\<lambda>h. expired q (address h) = 0)
        (map snd (filter (\<lambda>(k, _). k \<le> time) (timed_messages q))) \<and>
    message_count (clear_timeouted time q) = s32 (message_count q -
      int (length (fired (clear_timeouted time q)) - length (fired q))) \<and>
    messages (clear_timeouted time q) = messages q"
proof -
  let ?out = "map snd (filter (\<lambda>(k, _). k \<le> time) (timed_messages q))"
  let ?q = "q\<lparr>timed_messages := filter (\<lambda>(k, _). \<not> k \<le> time) (timed_messages q)\<rparr>"
  have inv: "mq_inv (q, held, sent)" by (rule mq_inv_reachable [OF assms])
  then have srt: "sorted (map fst (timed_messages q))" and cnt: "s32 (message_count ?q) = message_count ?q"
    and d0: "distinct (map (address \<circ> snd) (timed_messages q))"
    and once: "called_once (active q held) (timed q) (address ` set sent) q"
    by (simp_all add: mq_inv_def)
  have d: "distinct (map address ?out)" using distinct_map_filter [OF d0] by simp
  have b: "\<forall>h \<in> set ?out. 0 \<le> expired ?q (address h) \<and> expired ?q (address h) < 2"
  proof
    fix h assume "h \<in> set ?out"
    then have "address h \<in> timed q" by (auto simp: timed_def)
    then show "0 \<le> expired ?q (address h) \<and> expired ?q (address h) < 2"
      using called_once_bound [OF once, of "address h"] by (simp split: if_splits)
  qed
  show ?thesis
    unfolding clear_timeouted_eq [OF srt] expire_counted_eq [OF d b cnt]
    using expire_all_effect [OF d b] by simp
qed

theorem clear_timeouted_exact_witness:
  "map address (fired (clear_timeouted (Timeval 9 0) example_queue)) = [0] \<and>
   message_count (clear_timeouted (Timeval 9 0) example_queue) = 1 \<and>
   map address (messages (clear_timeouted (Timeval 9 0) example_queue)) = [0, 1]"
  using clear_timeouted_exact [OF example_reachable, of "Timeval 9 0"]
  by (simp add: example_queue_def example_queue_eval less_eq_timeval_def time_le_def)

text \<open>No \<open>pop\<close> makes room: a queue that refuses a message still refuses it after any of its
  messages have been taken, whichever of the two \<open>add\<close> is called.\<close>

theorem pop_returns_no_capacity:
  assumes "pop n q = Inr (b, q')"
  shows "message_count q' = message_count q \<and> length (messages q') < length (messages q) \<and>
    fst (add_message now msg q') = fst (add_message now msg q) \<and>
    fst (add_timed_message now msg timeout rid q') = fst (add_timed_message now msg timeout rid q)"
  using assms lq.take_shrinks [OF assms]
  by (cases rule: pop_cases [of n q]) (auto simp: add_message_def add_timed_message_def Let_def)

theorem pop_returns_no_capacity_witness:
  "(case pop 14 (example_queue\<lparr>max_size := 3\<rparr>) of
      Inr (b, q') \<Rightarrow> messages q' = [] \<and> \<not> fst (add_message (Timeval 3 0) example_message q')
    | Inl _ \<Rightarrow> False)"
proof -
  let ?q = "example_queue\<lparr>max_size := 3\<rparr>"
  obtain b q' where r: "pop 14 ?q = Inr (b, q')" "messages q' = []"
    by (simp add: pop_def example_queue_def example_queue_eval example_message_def plain_size_def
      holder_size_def buffer_size_def)
  have "\<not> fst (add_message (Timeval 3 0) example_message ?q)"
    by (simp add: example_queue_def example_queue_eval)
  with pop_returns_no_capacity [OF r(1)] r show ?thesis by simp
qed

text \<open>\<open>max_size_\<close> does not bound the queue: the capacity of a timed out message is given back
  while the message stays in \<open>messages_\<close>, so a queue of capacity 2 reaches every length when
  nothing pops it.\<close>

theorem queue_length_unbounded:
  "\<exists>q. mq_reachable 2 0 (q, [], []) \<and> max_size q = 2 \<and> message_count q = 0 \<and>
    length (messages q) = n"
  using timeout_rounds_state [of time_zero example_message n] by blast

end
