(* ===== verification/SendHandler.thy ===== *)
theory SendHandler
  imports MsgQueue DescHandlers
begin

section \<open>\<open>Connection::SendDescriptorHandler\<close> (litemq/Connection.cpp)\<close>

text \<open>
  The handler that sends the messages of a connection over one socket. Its state is the progress
  of a partly sent message, the message queue it shares with the connection, and \<open>wire\<close>, the bytes
  the kernel took so far. The answers of \<open>sendmsg\<close> are an argument of \<open>write_handle\<close>: a number of
  bytes taken, which is at most what was offered, or an error.

  An \<open>iovec\<close> is the list of the bytes it designates. A message on the wire is its length as 4
  bytes, least significant first (the memory of a \<open>uint32_t\<close> on the x86-64 machines the epoll
  code runs on), then its body. \<open>write_iovec_buf_\<close> is resized to one more than the number of
  messages: an index at or past that is out of bounds.

  The theorems: what the buffers hold when nothing goes wrong, what \<open>remove_sent_messages_\<close> does
  to the progress, and why a handler that starts without a partly sent message can never send:
  \<open>need_to_send\<close> answers the opposite of its name.
\<close>

datatype send_errno = EAGAIN | EWOULDBLOCK | Other_Errno

datatype send_answer = Taken nat | Send_Failed send_errno

record send_handler =
  connect_finished :: bool
  header_sent_size :: nat
  partly_sent_message :: "message_holder option"
  partly_sent_size :: int
  queue :: message_queue
  wire :: "byte list"

definition MSG_MAXIOVLEN :: nat where
  "MSG_MAXIOVLEN = 64"

definition header_size :: nat where
  "header_size = 4"

text \<open>The bytes of a \<open>uint32_t\<close> in memory.\<close>

definition header_bytes :: "nat \<Rightarrow> byte list" where
  "header_bytes n = map (\<lambda>i. word_of_nat (n div 256 ^ i mod 256)) [0, 1, 2, 3]"

definition send_handler_init :: "message_queue \<Rightarrow> send_handler" where
  "send_handler_init q =
     \<lparr>connect_finished = False, header_sent_size = 0, partly_sent_message = None,
      partly_sent_size = 0, queue = q, wire = []\<rparr>"

text \<open>
  The constructor: \<open>socket\<close> and \<open>connect\<close> may fail, which throws; a connection made at once is
  finished. The argument \<open>connect_res\<close> is \<open>None\<close> for a failure other than \<open>EINPROGRESS\<close>.
\<close>

definition send_handler_new :: "bool \<Rightarrow> bool \<Rightarrow> bool option \<Rightarrow> message_queue \<Rightarrow> send_handler call" where
  "send_handler_new socket_ok non_blocking_ok connect_res q =
     (if \<not> socket_ok then Throw
      else if \<not> non_blocking_ok then Throw
      else case connect_res of
             None \<Rightarrow> Throw
           | Some now \<Rightarrow> Return ((send_handler_init q)\<lparr>connect_finished := now\<rparr>))"

definition finish_connect :: "send_handler \<Rightarrow> send_handler" where
  "finish_connect s = (if \<not> connect_finished s then s\<lparr>connect_finished := True\<rparr> else s)"

definition read_handle :: "send_handler \<Rightarrow> 64 word call \<times> send_handler" where
  "read_handle s = (Return CONTINUE_HANDLE, finish_connect s)"

unbundle bit_operations_syntax

definition send_error :: "64 word" where
  "send_error = CLOSE_READ_HANDLE OR CLOSE_WRITE_HANDLE"

subsection \<open>\<open>fill_send_messages_\<close>\<close>

definition push_iovec :: "nat \<Rightarrow> byte list \<Rightarrow> byte list list \<Rightarrow> byte list list outcome" where
  "push_iovec cap v vs = (if length vs < cap then Inr (vs @ [v]) else Inl Out_Of_Bounds)"

text \<open>The buffers of the partly sent message, its header while \<open>header_sent_size_ < 4\<close>.\<close>

definition fill_partly :: "nat \<Rightarrow> send_handler \<Rightarrow> byte list list outcome" where
  "fill_partly cap s =
     (case partly_sent_message s of
        None \<Rightarrow> Inr []
      | Some p \<Rightarrow>
          bind_sum
            (if header_sent_size s < 4
             then push_iovec cap (drop (header_sent_size s) (header_bytes (holder_size p))) []
             else Inr [])
            (\<lambda>vs. bind_sum (holder_data p) (\<lambda>body.
               if partly_sent_size s \<le> int (holder_size p)
               then push_iovec cap (drop (nat (partly_sent_size s)) body) vs
               else Inl Out_Of_Bounds)))"

text \<open>
  The loop over the messages. The header of every message is written from the size of the partly
  sent one, through a pointer that may be null.
\<close>

fun fill_messages ::
  "nat \<Rightarrow> send_handler \<Rightarrow> message_holder list \<Rightarrow> byte list list \<Rightarrow> byte list list outcome" where
  "fill_messages cap s [] vs = Inr vs"
| "fill_messages cap s (h # hs) vs =
     (if need_to_send (queue s) h then
        (case partly_sent_message s of
           None \<Rightarrow> Inl Null_Dereference
         | Some p \<Rightarrow>
             bind_sum (push_iovec cap (header_bytes (holder_size p)) vs) (\<lambda>vs1.
               bind_sum (holder_data h) (\<lambda>body.
                 bind_sum (push_iovec cap body vs1) (\<lambda>vs2. fill_messages cap s hs vs2))))
      else fill_messages cap s hs vs)"

text \<open>The result is what \<open>write_msg_\<close> designates and whether there is anything to send.\<close>

definition fill_send_messages ::
  "send_handler \<Rightarrow> message_holder list \<Rightarrow> (bool \<times> byte list list) outcome" where
  "fill_send_messages s hs =
     (let cap = length hs + 1
      in bind_sum (fill_partly cap s) (\<lambda>vs.
           bind_sum (fill_messages cap s hs vs) (\<lambda>vs.
             Inr (length vs \<noteq> 0, take (min (length vs) MSG_MAXIOVLEN) vs))))"

subsection \<open>\<open>remove_sent_messages_\<close>\<close>

text \<open>
  The state is the handler, the bytes not yet accounted for and the messages kept. All sizes are
  \<open>unsigned long\<close>.
\<close>

definition remove_partly :: "int \<Rightarrow> send_handler \<Rightarrow> int \<times> send_handler" where
  "remove_partly unprocessed s =
     (case partly_sent_message s of
        None \<Rightarrow> (unprocessed, s)
      | Some p \<Rightarrow>
          let left = u64 (int (holder_size p) - partly_sent_size s)
          in if left \<ge> unprocessed
             then (u64 (unprocessed - left), s\<lparr>partly_sent_message := None, partly_sent_size := 0\<rparr>)
             else (0, s\<lparr>partly_sent_size := u64 (partly_sent_size s + unprocessed)\<rparr>))"

fun remove_messages ::
  "int \<Rightarrow> message_holder list \<Rightarrow> send_handler \<Rightarrow> message_holder list \<times> send_handler" where
  "remove_messages unprocessed [] s = ([], s)"
| "remove_messages unprocessed (h # hs) s =
     (if unprocessed > 0 then
        if int (holder_size h) \<le> unprocessed
        then remove_messages (u64 (unprocessed - int (holder_size h))) hs s
        else remove_messages 0 hs (s\<lparr>partly_sent_message := Some h, partly_sent_size := unprocessed\<rparr>)
      else if need_to_send (queue s) h then
        (case remove_messages unprocessed hs s of (kept, s1) \<Rightarrow> (h # kept, s1))
      else remove_messages unprocessed hs s)"

definition remove_sent_messages ::
  "message_holder list \<Rightarrow> int \<Rightarrow> send_handler \<Rightarrow> message_holder list \<times> send_handler" where
  "remove_sent_messages hs sent_size s =
     (case remove_partly (u64 sent_size) s of
        (unprocessed, s1) \<Rightarrow> remove_messages unprocessed hs s1)"

subsection \<open>\<open>write\<close>\<close>

text \<open>
  \<open>sendmsg\<close>: what it returns, and the bytes of the buffers it takes. The result of a failure is -1.
\<close>

definition sent_size_of :: "send_answer \<Rightarrow> int" where
  "sent_size_of a = (case a of Taken n \<Rightarrow> int n | Send_Failed _ \<Rightarrow> - 1)"

definition take_on_wire :: "send_answer \<Rightarrow> byte list list \<Rightarrow> send_handler \<Rightarrow> send_handler" where
  "take_on_wire a vs s =
     (case a of Taken n \<Rightarrow> s\<lparr>wire := wire s @ take n (concat vs)\<rparr> | Send_Failed _ \<Rightarrow> s)"

text \<open>
  The loop of \<open>write\<close>. \<open>None\<close> as the answer means that the answers of \<open>sendmsg\<close> given are used
  up and the handler stands before the next call. The loop ends for every list of answers:
  a round takes an answer, or a message off the queue.
\<close>

function (sequential) write_loop ::
  "send_answer list \<Rightarrow> send_handler \<Rightarrow> (64 word option \<times> send_handler) outcome" where
  "write_loop answers s =
     (case pop 16000 (queue s) of
        Inl f \<Rightarrow> Inl f
      | Inr (result_messages, q) \<Rightarrow>
          let s1 = s\<lparr>queue := q\<rparr>
          in if result_messages = []
             then Inr (Some (START_READ_HANDLE OR STOP_WRITE_HANDLE), s1)
             else (case fill_send_messages s1 result_messages of
                     Inl f \<Rightarrow> Inl f
                   | Inr (ok, vs) \<Rightarrow>
                       if ok then
                         (case answers of
                            [] \<Rightarrow> Inr (None, s1)
                          | a # answers' \<Rightarrow>
                              (case remove_sent_messages result_messages (sent_size_of a)
                                      (take_on_wire a vs s1) of
                                 (kept, s2) \<Rightarrow>
                                   let s3 = s2\<lparr>queue := push_front kept (queue s2)\<rparr>
                                   in if sent_size_of a \<le> 0 then
                                        if a \<in> {Send_Failed EAGAIN, Send_Failed EWOULDBLOCK} \<or>
                                           sent_size_of a = 0
                                        then Inr (Some CONTINUE_HANDLE, s3)
                                        else Inr (Some send_error, s3)
                                      else write_loop answers' s3))
                       else write_loop answers s1))"
  by pat_completeness auto

termination
proof (relation "measures [\<lambda>(answers, s). length answers, \<lambda>(answers, s). length (messages (queue s))]",
    goal_cases)
  case (3 answers s x2 x y s1 x2a xa ya)
  then show ?case using lq.take_shrinks by auto
qed simp_all

definition write_handle ::
  "send_answer list \<Rightarrow> send_handler \<Rightarrow> (64 word option \<times> send_handler) outcome" where
  "write_handle answers s = write_loop answers (finish_connect s)"

declare write_loop.simps [simp del]

subsection \<open>Filling\<close>

lemma fill_messages_none:
  assumes "partly_sent_message s = None"
  shows "fill_messages cap s hs vs =
    (if \<exists>h \<in> set hs. need_to_send (queue s) h then Inl Null_Dereference else Inr vs)"
  using assms by (induction hs) auto

lemma fill_none:
  assumes "partly_sent_message s = None"
  shows "fill_send_messages s hs =
    (if \<exists>h \<in> set hs. need_to_send (queue s) h then Inl Null_Dereference else Inr (False, []))"
  using assms by (simp add: fill_send_messages_def fill_partly_def fill_messages_none)

lemma holder_data_nonempty: "holder_size h \<noteq> 0 \<Longrightarrow> holder_data h = Inr (buffer_body (message h))"
  by (auto simp: holder_data_def buffer_data_def holder_size_def buffer_size_def)

lemma fill_messages_some:
  assumes "partly_sent_message s = Some p" and "\<forall>h \<in> set hs. holder_size h \<noteq> 0"
    and "length vs \<le> cap"
  shows "fill_messages cap s hs vs =
    (let hs' = filter (need_to_send (queue s)) hs in
     if length vs + 2 * length hs' \<le> cap
     then Inr (vs @ concat (map (\<lambda>h. [header_bytes (holder_size p), buffer_body (message h)]) hs'))
     else Inl Out_Of_Bounds)"
  using assms(2,3)
proof (induction hs arbitrary: vs)
  case (Cons h hs)
  show ?case
  proof (cases "need_to_send (queue s) h")
    case False
    then show ?thesis using Cons by simp
  next
    case True
    show ?thesis
    proof (cases "length vs + 2 \<le> cap")
      case True
      then show ?thesis
        using Cons \<open>need_to_send (queue s) h\<close> assms(1)
        by (simp add: push_iovec_def holder_data_nonempty Let_def)
    next
      case False
      then show ?thesis
        using Cons.prems \<open>need_to_send (queue s) h\<close> assms(1)
        by (auto simp: push_iovec_def holder_data_nonempty bind_sum_def Let_def)
    qed
  qed
qed (simp add: Let_def)

text \<open>What \<open>fill_send_messages_\<close> offers to \<open>sendmsg\<close> while a message is partly sent: first the
  rest of its header and the rest of its body, then, for each message of the batch that needs
  sending, a header and the body, of all that at most 64 buffers. Every one of those headers
  carries the length of the partly sent message; and the buffers fit only while two
  per message to send and two more are no more than the batch and one: otherwise the vector is
  written out of bounds.\<close>

theorem fill_send_messages_buffers:
  assumes "partly_sent_message s = Some p" and "holder_size p \<noteq> 0" and "header_sent_size s < 4"
    and "0 \<le> partly_sent_size s" and "partly_sent_size s \<le> int (holder_size p)"
    and "hs \<noteq> []" and "\<forall>h \<in> set hs. holder_size h \<noteq> 0"
  shows "fill_send_messages s hs =
    (let hs' = filter (need_to_send (queue s)) hs;
         vs = [drop (header_sent_size s) (header_bytes (holder_size p)),
               drop (nat (partly_sent_size s)) (buffer_body (message p))] @
              concat (map (\<lambda>h. [header_bytes (holder_size p), buffer_body (message h)]) hs')
     in if 2 + 2 * length hs' \<le> length hs + 1 then Inr (True, take 64 vs) else Inl Out_Of_Bounds)"
proof -
  let ?vs = "[drop (header_sent_size s) (header_bytes (holder_size p)),
    drop (nat (partly_sent_size s)) (buffer_body (message p))]"
  have "1 < length hs + 1" using assms(6) by simp
  then have p: "fill_partly (length hs + 1) s = Inr ?vs"
    using assms by (simp add: fill_partly_def push_iovec_def holder_data_nonempty)
  have "length ?vs \<le> length hs + 1" using assms(6) by (cases hs) simp_all
  note m = fill_messages_some [OF assms(1,7) this]
  have t: "take (min (length vs) 64) vs = take 64 vs" for vs :: "byte list list"
    by (simp add: min_def)
  show ?thesis
    unfolding fill_send_messages_def Let_def p bind_sum_simps m
    by (simp add: t MSG_MAXIOVLEN_def)
qed

definition sample_holder :: "nat \<Rightarrow> nat \<Rightarrow> message_holder" where
  "sample_holder a n = \<lparr>address = a, push_time = time_zero, expire_time = time_zero, request_id = 0,
     message = \<lparr>buffer_body = replicate n 7\<rparr>\<rparr>"

lemma sample_holder_size [simp]: "holder_size (sample_holder a n) = n"
  by (simp add: holder_size_def sample_holder_def buffer_size_def)

lemma sample_holder_body [simp]: "buffer_body (message (sample_holder a n)) = replicate n 7"
  by (simp add: sample_holder_def)

theorem fill_send_messages_buffers_witness:
  "fill_send_messages ((send_handler_init (mq_new 5 0))\<lparr>partly_sent_message := Some (sample_holder 0 3),
      partly_sent_size := 1\<rparr>) [sample_holder 1 9] =
    Inr (True, [[3, 0, 0, 0], replicate 2 7])"
  using fill_send_messages_buffers [of "(send_handler_init (mq_new 5 0))
      \<lparr>partly_sent_message := Some (sample_holder 0 3), partly_sent_size := 1\<rparr>" "sample_holder 0 3"
      "[sample_holder 1 9]"]
  by (simp add: send_handler_init_def need_to_send_def mq_new_def header_bytes_def Let_def)

subsection \<open>Sending\<close>

text \<open>C14: a handler with no partly sent message, which is how every handler starts, never sends
  anything: \<open>need_to_send\<close> answers whether the message has expired, so the batch popped is either
  skipped as a whole and lost, or its first expired message is headed through the null
  \<open>partly_sent_message_\<close>; and when the queue is too short for \<open>pop\<close> (16000 bytes) the iterator
  runs past its end. Whatever the kernel would answer, \<open>write\<close> does not return.\<close>

theorem write_never_sends:
  assumes "partly_sent_message s = None"
  shows "write_handle answers s = Inl Null_Dereference \<or> write_handle answers s = Inl Invalid_Iterator"
proof -
  have "write_loop answers s = Inl Null_Dereference \<or> write_loop answers s = Inl Invalid_Iterator"
    if "partly_sent_message s = None" for s
    using that
  proof (induction answers s rule: write_loop.induct)
    case (1 answers s)
    show ?case
    proof (cases rule: pop_cases [of 16000 "queue s"])
      case past_end
      then show ?thesis by (simp add: write_loop.simps [of answers s])
    next
      case (popped b rest)
      let ?s1 = "s\<lparr>queue := queue s\<lparr>messages := rest\<rparr>\<rparr>"
      have none: "partly_sent_message ?s1 = None" using 1(3) by simp
      show ?thesis
      proof (cases "\<exists>h \<in> set b. need_to_send (queue ?s1) h")
        case True
        then show ?thesis
          using popped fill_none [OF none, of b] by (simp add: write_loop.simps [of answers s] Let_def)
      next
        case False
        have "write_loop answers ?s1 = Inl Null_Dereference \<or> write_loop answers ?s1 = Inl Invalid_Iterator"
          using False fill_none [OF none, of b] popped none
          by (intro 1(2)) (auto simp: Let_def)
        then show ?thesis
          using False popped fill_none [OF none, of b]
          by (simp add: write_loop.simps [of answers s] Let_def)
      qed
    qed
  qed
  moreover have "partly_sent_message (finish_connect s) = None"
    using assms by (simp add: finish_connect_def)
  ultimately show ?thesis by (simp add: write_handle_def)
qed

theorem write_never_sends_witness:
  "write_handle [Taken 5] (send_handler_init example_queue) = Inl Null_Dereference \<or>
   write_handle [Taken 5] (send_handler_init example_queue) = Inl Invalid_Iterator"
  by (rule write_never_sends) (simp add: send_handler_init_def)

subsection \<open>Removing what was sent\<close>

abbreviation body_sizes :: "message_holder list \<Rightarrow> nat" where
  "body_sizes hs \<equiv> sum_list (map holder_size hs)"

lemma u64_rest [simp]: "0 \<le> a \<Longrightarrow> a < 2 ^ 64 \<Longrightarrow> u64 a = a"
  by (rule u64_id)

lemma remove_messages_none:
  "remove_messages 0 hs s = (filter (need_to_send (queue s)) hs, s)"
  by (induction hs) auto

lemma remove_messages_whole:
  assumes "\<forall>h \<in> set hs. holder_size h \<noteq> 0" and "int (body_sizes (take j hs)) < 2 ^ 64"
  shows "remove_messages (int (body_sizes (take j hs))) hs s =
    (filter (need_to_send (queue s)) (drop j hs), s)"
  using assms
proof (induction j arbitrary: hs)
  case 0
  then show ?case by (simp add: remove_messages_none)
next
  case (Suc j)
  show ?case
  proof (cases hs)
    case (Cons h hs')
    have "int (body_sizes (take (Suc j) hs)) - int (holder_size h) = int (body_sizes (take j hs'))"
      by (simp add: Cons)
    moreover have "int (body_sizes (take j hs')) < 2 ^ 64" using Suc.prems(2) Cons by simp
    ultimately show ?thesis
      using Suc.IH [of hs'] Suc.prems(1) Cons by simp
  qed simp
qed

lemma remove_messages_all:
  assumes "int (body_sizes hs) < unprocessed" and "unprocessed < 2 ^ 64"
  shows "remove_messages unprocessed hs s = ([], s)"
  using assms by (induction hs arbitrary: unprocessed) auto

text \<open>With no message partly sent, a count that is the sum of the first bodies removes exactly
  those messages, keeps the progress as it was, and gives back of the others the ones that
  \<open>need_to_send\<close> names. In particular, after a send of 0 bytes every message that has not expired
  is dropped instead of given back.\<close>

theorem remove_sent_whole_messages:
  assumes "partly_sent_message s = None" and "\<forall>h \<in> set hs. holder_size h \<noteq> 0"
    and "int (body_sizes (take j hs)) < 2 ^ 64"
  shows "remove_sent_messages hs (int (body_sizes (take j hs))) s =
      (filter (need_to_send (queue s)) (drop j hs), s) \<and>
    remove_sent_messages hs 0 s = (filter (need_to_send (queue s)) hs, s)"
  using assms by (simp add: remove_sent_messages_def remove_partly_def remove_messages_whole
    remove_messages_none)

theorem remove_sent_whole_messages_witness:
  "remove_sent_messages [sample_holder 0 3, sample_holder 1 5] 3
    ((send_handler_init ((mq_new 5 0)\<lparr>expired := \<lambda>_. 1\<rparr>))) =
    ([sample_holder 1 5], send_handler_init ((mq_new 5 0)\<lparr>expired := \<lambda>_. 1\<rparr>))"
  using remove_sent_whole_messages [of "send_handler_init ((mq_new 5 0)\<lparr>expired := \<lambda>_. 1\<rparr>)"
      "[sample_holder 0 3, sample_holder 1 5]" 1]
  by (simp add: send_handler_init_def need_to_send_def)

text \<open>The headers are not counted. When the kernel has taken exactly the first message, header
  and body, the code books the 4 bytes of its header on the second one, of which nothing was
  sent: the handler goes on with that message as if its first 4 body bytes were out.\<close>

theorem remove_sent_ignores_headers:
  assumes "partly_sent_message s = None" and "holder_size h1 \<noteq> 0" and "4 < holder_size h2"
    and "int (plain_size h1) < 2 ^ 64"
  shows "remove_sent_messages (h1 # h2 # hs) (int (plain_size h1)) s =
    (filter (need_to_send (queue s)) hs,
     s\<lparr>partly_sent_message := Some h2, partly_sent_size := 4\<rparr>)"
  using assms
  by (simp add: remove_sent_messages_def remove_partly_def plain_size_def remove_messages_none)

theorem remove_sent_ignores_headers_witness:
  "partly_sent_size (snd (remove_sent_messages [sample_holder 0 3, sample_holder 1 5] 7
    (send_handler_init (mq_new 5 0)))) = 4"
  using remove_sent_ignores_headers [of "send_handler_init (mq_new 5 0)" "sample_holder 0 3"
      "sample_holder 1 5" "[]"]
  by (simp add: send_handler_init_def plain_size_def)

text \<open>A failed \<open>sendmsg\<close> returns -1, also when it would only block. The code reads it as 2 to the 64
  less one byte sent, and gives no message of the batch back: the batch is lost.\<close>

theorem failed_send_loses_batch:
  assumes "partly_sent_message s = None" and "int (body_sizes hs) < 2 ^ 64 - 1"
  shows "remove_sent_messages hs (sent_size_of (Send_Failed e)) s = ([], s)"
proof -
  have "u64 (- 1) = 2 ^ 64 - 1" by (simp add: u64_def)
  then show ?thesis
    using assms remove_messages_all [of hs "2 ^ 64 - 1" s]
    by (simp add: remove_sent_messages_def remove_partly_def sent_size_of_def)
qed

theorem failed_send_loses_batch_witness:
  "remove_sent_messages [sample_holder 1 5] (sent_size_of (Send_Failed EAGAIN))
    (send_handler_init (mq_new 5 0)) = ([], send_handler_init (mq_new 5 0))"
  by (rule failed_send_loses_batch) (simp_all add: send_handler_init_def)

text \<open>The comparison for a message partly sent before is the wrong way round: when the kernel took
  less than the rest of it, the message is forgotten as finished, the count wraps below 0, and
  the whole batch is lost with it; when the kernel took more, the message stays and its progress
  runs past its end.\<close>

theorem short_send_forgets_message:
  assumes "partly_sent_message s = Some p" and "0 \<le> partly_sent_size s"
    and "int few < int (holder_size p) - partly_sent_size s"
    and "int (holder_size p) - partly_sent_size s < int many" and "int many < 2 ^ 62"
    and "int (holder_size p) + int (body_sizes hs) < 2 ^ 63"
  shows "remove_sent_messages hs (int few) s =
      ([], s\<lparr>partly_sent_message := None, partly_sent_size := 0\<rparr>) \<and>
    remove_sent_messages hs (int many) s =
      (filter (need_to_send (queue s)) hs, s\<lparr>partly_sent_size := partly_sent_size s + int many\<rparr>) \<and>
    int (holder_size p) < partly_sent_size s + int many"
proof -
  let ?left = "int (holder_size p) - partly_sent_size s"
  have l: "u64 ?left = ?left" "u64 (int few) = int few" "u64 (int many) = int many"
    "u64 (partly_sent_size s + int many) = partly_sent_size s + int many"
    using assms by simp_all
  have "u64 (int few - ?left) = int few - ?left + 2 ^ 64"
  proof -
    have "(int few - ?left) mod 2 ^ 64 = (int few - ?left + 2 ^ 64) mod 2 ^ 64" by simp
    also have "\<dots> = int few - ?left + 2 ^ 64"
      using assms by (intro mod_pos_pos_trivial) simp_all
    finally show ?thesis by (simp add: u64_def)
  qed
  moreover have "remove_messages (int few - ?left + 2 ^ 64) hs q = ([], q)" for q
    using assms by (intro remove_messages_all) simp_all
  ultimately have "remove_sent_messages hs (int few) s =
      ([], s\<lparr>partly_sent_message := None, partly_sent_size := 0\<rparr>)"
    using assms(1,3) l by (simp add: remove_sent_messages_def remove_partly_def Let_def)
  moreover have "remove_sent_messages hs (int many) s =
      (filter (need_to_send (queue s)) hs, s\<lparr>partly_sent_size := partly_sent_size s + int many\<rparr>)"
    using assms(1,4) l
    by (simp add: remove_sent_messages_def remove_partly_def Let_def remove_messages_none)
  ultimately show ?thesis using assms(4) by simp
qed

theorem short_send_forgets_message_witness:
  "remove_sent_messages [sample_holder 1 5] 2 ((send_handler_init (mq_new 5 0))
      \<lparr>partly_sent_message := Some (sample_holder 0 9)\<rparr>) = ([], send_handler_init (mq_new 5 0))"
  using short_send_forgets_message [of "(send_handler_init (mq_new 5 0))
      \<lparr>partly_sent_message := Some (sample_holder 0 9)\<rparr>" "sample_holder 0 9" 2 10 "[sample_holder 1 5]"]
  by (simp add: send_handler_init_def)

end
