(* ===== verification/WakeUps.thy ===== *)
theory WakeUps
  imports PollerLinks SendHandler
begin

section \<open>Waking a handler (litemq/Connection.cpp on litemq/DescriptorHandlerPoller.cpp)\<close>

text \<open>
  \<open>SendDescriptorHandler\<close> as a handler of the poller, and what \<open>wakeup\<close> does to it there. A sending handler
  with nothing to send answers \<open>STOP_WRITE_HANDLE\<close>, which clears \<open>handle_write\<close> of its holder. \<open>Connection::send\<close> puts
  a message into the shared queue and calls \<open>wakeup\<close>, which is \<open>rearm(false, true)\<close>: it arms the descriptor for
  writing and leaves the flags of the holder alone.

  The theorems: the events that follow call \<open>read\<close> and never \<open>write\<close>, and arm the descriptor for reading only again,
  so the message stays in the queue.
\<close>

subsection \<open>The handler\<close>

record send_peer =
  sender :: send_handler
  sender_fd :: int

definition send_read :: "send_peer \<Rightarrow> 64 word call \<times> send_peer" where
  "send_read peer = (case read_handle (sender peer) of (r, s) \<Rightarrow> (r, peer\<lparr>sender := s\<rparr>))"

text \<open>After the answers of \<open>sendmsg\<close> given the socket would block.\<close>

definition send_write :: "(send_handler \<Rightarrow> send_answer list) \<Rightarrow> send_peer \<Rightarrow> 64 word call \<times> send_peer" where
  "send_write sends peer =
     (case write_handle (sends (sender peer) @ [Send_Failed EAGAIN]) (sender peer) of
        Inl x \<Rightarrow> (Fault x, peer)
      | Inr (None, s) \<Rightarrow> (Return CONTINUE_HANDLE, peer\<lparr>sender := s\<rparr>)
      | Inr (Some w, s) \<Rightarrow> (Return w, peer\<lparr>sender := s\<rparr>))"

definition send_class :: "(send_handler \<Rightarrow> send_answer list) \<Rightarrow> send_peer handler_class" where
  "send_class sends = \<lparr>vfd = sender_fd, vread = send_read, vwrite = send_write sends, vstopped = id\<rparr>"

definition send_wakeup :: "'h handler_class \<Rightarrow> epoll_answer \<Rightarrow> nat \<Rightarrow> 'h poller \<Rightarrow> unit call \<times> 'h poller" where
  "send_wakeup cls ctl_ok d p = handler_rearm cls ctl_ok d False True p"

text \<open>\<open>Connection::send\<close> puts the message into the queue it shares with the handler.\<close>

definition put_message :: "timeval \<times> message_buffer \<Rightarrow> send_peer \<Rightarrow> send_peer" where
  "put_message m peer =
     peer\<lparr>sender := (sender peer)\<lparr>queue := snd (add_message (fst m) (snd m) (queue (sender peer)))\<rparr>\<rparr>"

text \<open>
  Wake-ups one after the other, each after a change somebody else makes to the handler and before the event it
  causes. A refused \<open>epoll_ctl\<close> ends the program, as \<open>rearm\<close> is declared not to throw: then there is no result.
\<close>

fun wake_rounds ::
  "nat \<Rightarrow> 'h handler_class \<Rightarrow> epoll_answer \<Rightarrow> nat \<Rightarrow> nat \<Rightarrow> nat \<Rightarrow> ('h \<Rightarrow> 'h) list \<Rightarrow> 'h poller \<Rightarrow>
    process_end option \<times> 'h poller" where
  "wake_rounds fuel cls ctl_ok thread_i hid d [] p = (Some Process_Waiting, p)"
| "wake_rounds fuel cls ctl_ok thread_i hid d (c # cs) p =
     (case send_wakeup cls ctl_ok d (p\<lparr>objects := (objects p)(d := c (objects p d))\<rparr>) of
        (Return _, p1) \<Rightarrow>
          (case process fuel cls ctl_ok thread_i [Wait_Events [(hid, [])]] p1 of
             (Some Process_Waiting, p2) \<Rightarrow> wake_rounds fuel cls ctl_ok thread_i hid d cs p2
           | r \<Rightarrow> r)
      | (_, p1) \<Rightarrow> (None, p1))"

subsection \<open>One wake-up\<close>

text \<open>A handler that has stopped writing and goes on reading.\<close>

definition reading_only :: "nat \<Rightarrow> nat \<Rightarrow> 'h poller \<Rightarrow> bool" where
  "reading_only hid d p \<longleftrightarrow>
     linked p d = [hid] \<and> descriptor_handler (holders p hid) = Some d \<and> handle_read (holders p hid) \<and>
     \<not> handle_write (holders p hid) \<and> \<not> closed_both (holders p hid) \<and> handle_in_progress (holders p hid) = 0 \<and>
     handling_finished (holders p hid) = 0 \<and> cleaner_inv (poller_cleaner p)"

text \<open>The descriptor of a handler does not change.\<close>

definition keeps_fd :: "'h handler_class \<Rightarrow> ('h \<Rightarrow> 'h) \<Rightarrow> bool" where
  "keeps_fd cls c \<longleftrightarrow> (\<forall>obj. vfd cls (c obj) = vfd cls obj)"

definition read_continues :: "'h handler_class \<Rightarrow> bool" where
  "read_continues cls \<longleftrightarrow>
     (\<forall>obj. fst (vread cls obj) = Return CONTINUE_HANDLE) \<and> keeps_fd cls (snd \<circ> vread cls)"

lemma call_continue:
  assumes "f (objects p d) = (Return CONTINUE_HANDLE, obj)"
  shows "call_handler f hid d p = (Return False, p\<lparr>objects := (objects p)(d := obj)\<rparr>)"
proof -
  have "apply_state_modify (holders p hid) CONTINUE_HANDLE = (False, holders p hid)"
    by (simp add: apply_state_modify_def flag_set_def CONTINUE_HANDLE_def)
  then show ?thesis
    using assms by (simp add: call_handler_def set_holder_def)
qed

lemma reading_round:
  assumes "read_continues cls" and "handle_read (holders p hid)" and "\<not> handle_write (holders p hid)"
  shows "round_parts cls hid d p = (Return False, p\<lparr>objects := (objects p)(d := snd (vread cls (objects p d)))\<rparr>)"
proof -
  have "vread cls (objects p d) = (Return CONTINUE_HANDLE, snd (vread cls (objects p d)))"
    using assms(1) unfolding read_continues_def by (metis prod.collapse)
  then have "call_handler (vread cls) hid d p =
      (Return False, p\<lparr>objects := (objects p)(d := snd (vread cls (objects p d)))\<rparr>)"
    by (rule call_continue)
  then show ?thesis
    using assms(2,3) by (simp add: round_parts_def handle_read_part_def handle_write_part_def)
qed

lemma wake_only_reads:
  assumes "read_continues cls" and "reading_only hid d p"
    and "thread_i < length (release_array (poller_cleaner p))"
    and "\<forall>log request. ctl_ok log request" and "0 < fuel"
  obtains p1 p2 where "send_wakeup cls ctl_ok d p = (Return (), p1)"
    and "process fuel cls ctl_ok thread_i [Wait_Events [(hid, [])]] p1 = (Some Process_Waiting, p2)"
    and "objects p2 = (objects p)(d := snd (vread cls (objects p d)))" and "reading_only hid d p2"
    and "epoll_log p2 = epoll_log p @ [Epoll_Mod (vfd cls (objects p d)) hid (armed_events False True),
      Epoll_Mod (vfd cls (objects p d)) hid (armed_events True False)]"
    and "length (release_array (poller_cleaner p2)) = length (release_array (poller_cleaner p))"
proof -
  have r: "linked p d = [hid]" "descriptor_handler (holders p hid) = Some d" "handle_read (holders p hid)"
    "\<not> handle_write (holders p hid)" "\<not> closed_both (holders p hid)" "handle_in_progress (holders p hid) = 0"
    "handling_finished (holders p hid) = 0" "cleaner_inv (poller_cleaner p)"
    using assms(2) unfolding reading_only_def by blast+
  let ?log = "epoll_log p @ [Epoll_Mod (vfd cls (objects p d)) hid (armed_events False True)]"
  let ?p1 = "p\<lparr>epoll_log := ?log\<rparr>"
  let ?q = "(add_in_progress 1 hid ?p1)\<lparr>objects := (objects p)(d := snd (vread cls (objects p d)))\<rparr>"
  have fd: "vfd cls (snd (vread cls obj)) = vfd cls obj" for obj
    using assms(1) by (simp add: read_continues_def keeps_fd_def)
  have wake: "send_wakeup cls ctl_ok d p = (Return (), ?p1)"
    using r assms(4) by (simp add: send_wakeup_def handler_rearm_def epoll_rearm_fd_def epoll_ctl_def)
  have round: "round_parts cls hid d (add_in_progress 1 hid ?p1) = (Return False, ?q)"
    using reading_round [OF assms(1), of "add_in_progress 1 hid ?p1" hid d] r by simp
  have pre: "descriptor_handler (holders ?p1 hid) = Some d" "handle_in_progress (holders ?p1 hid) = 0"
    "handling_finished (holders ?p1 hid) = 0" "\<not> closed_both (holders ?q hid)" "cleaner_inv (poller_cleaner ?p1)"
    "thread_i < length (release_array (poller_cleaner ?p1))"
    using r assms(3) by (simp_all add: closed_both_def)
  obtain p' where p': "handle fuel cls ctl_ok thread_i hid [] ?p1 = (Some (Return False), p')" "objects p' = objects ?q"
    "holders p' = (holders ?q)(hid := (holders ?q hid)\<lparr>handle_in_progress := 0\<rparr>)"
    "epoll_log p' = epoll_log ?p1 @ [Epoll_Mod (vfd cls (objects ?q d)) hid
      (armed_events (handle_read (holders ?q hid)) (handle_write (holders ?q hid)))]"
    "handlers p' = handlers ?p1" "linked p' = linked ?p1" "cleaner_inv (poller_cleaner p')"
    "length (release_array (poller_cleaner p')) = length (release_array (poller_cleaner ?p1))"
    by (rule handle_single_round [OF pre(1-3) round pre(4) assms(5) pre(5,6) assms(4)])
  obtain c where c: "release_thread thread_i p' = (Return (), p'\<lparr>poller_cleaner := c\<rparr>)" "cleaner_inv c"
    "length (release_array c) = length (release_array (poller_cleaner p'))"
    using release_thread_ok [OF p'(7), of thread_i] p'(8) assms(3) by auto
  let ?p2 = "p'\<lparr>poller_cleaner := c\<rparr>"
  have "process fuel cls ctl_ok thread_i [Wait_Events [(hid, [])]] ?p1 = (Some Process_Waiting, ?p2)"
    using p'(1) c(1) by simp
  moreover have "reading_only hid d ?p2"
    using r p'(3,6) c(2) by (simp add: reading_only_def closed_both_def)
  ultimately show thesis
    using wake p'(2,4,8) r(3,4) c(3) fd by (intro that [of ?p1 ?p2]) simp_all
qed

subsection \<open>Properties\<close>

text \<open>What the changes and the reads make of the object.\<close>

definition read_after :: "'h handler_class \<Rightarrow> ('h \<Rightarrow> 'h) list \<Rightarrow> 'h \<Rightarrow> 'h" where
  "read_after cls cs obj = fold (\<lambda>c obj. snd (vread cls (c obj))) cs obj"

lemma wake_rounds_only_read:
  assumes "read_continues cls" and "\<forall>c \<in> set cs. keeps_fd cls c" and "reading_only hid d p"
    and "thread_i < length (release_array (poller_cleaner p))"
    and "\<forall>log request. ctl_ok log request" and "0 < fuel"
  shows "\<exists>p'. wake_rounds fuel cls ctl_ok thread_i hid d cs p = (Some Process_Waiting, p') \<and>
    objects p' = (objects p)(d := read_after cls cs (objects p d)) \<and> reading_only hid d p' \<and>
    epoll_log p' = epoll_log p @ concat (replicate (length cs)
      [Epoll_Mod (vfd cls (objects p d)) hid (armed_events False True),
       Epoll_Mod (vfd cls (objects p d)) hid (armed_events True False)])"
  using assms(2-4)
proof (induction cs arbitrary: p)
  case Nil
  then show ?case by (simp add: read_after_def)
next
  case (Cons c cs)
  let ?p = "p\<lparr>objects := (objects p)(d := c (objects p d))\<rparr>"
  have pre: "reading_only hid d ?p" "thread_i < length (release_array (poller_cleaner ?p))"
    using Cons.prems(2,3) by (simp_all add: reading_only_def)
  obtain p1 p2 where p2: "send_wakeup cls ctl_ok d ?p = (Return (), p1)"
    "process fuel cls ctl_ok thread_i [Wait_Events [(hid, [])]] p1 = (Some Process_Waiting, p2)"
    "objects p2 = (objects ?p)(d := snd (vread cls (objects ?p d)))" "reading_only hid d p2"
    "epoll_log p2 = epoll_log ?p @ [Epoll_Mod (vfd cls (objects ?p d)) hid (armed_events False True),
      Epoll_Mod (vfd cls (objects ?p d)) hid (armed_events True False)]"
    "length (release_array (poller_cleaner p2)) = length (release_array (poller_cleaner ?p))"
    by (rule wake_only_reads [where ctl_ok = ctl_ok, OF assms(1) pre assms(5,6)])
  have fd: "vfd cls (c obj) = vfd cls obj" "vfd cls (snd (vread cls obj)) = vfd cls obj" for obj
    using Cons.prems(1) assms(1) by (simp_all add: read_continues_def keeps_fd_def)
  have "thread_i < length (release_array (poller_cleaner p2))" using p2(6) Cons.prems(3) by simp
  have others: "\<forall>c \<in> set cs. keeps_fd cls c" using Cons.prems(1) by simp
  note IH = Cons.IH [OF others p2(4) \<open>thread_i < length (release_array (poller_cleaner p2))\<close>]
  obtain p' where
    "wake_rounds fuel cls ctl_ok thread_i hid d cs p2 = (Some Process_Waiting, p')"
    "objects p' = (objects p2)(d := read_after cls cs (objects p2 d))" "reading_only hid d p'"
    "epoll_log p' = epoll_log p2 @ concat (replicate (length cs)
      [Epoll_Mod (vfd cls (objects p2 d)) hid (armed_events False True),
       Epoll_Mod (vfd cls (objects p2 d)) hid (armed_events True False)])"
    using IH by blast
  then show ?case using p2(1,2,3,5) fd by (simp add: read_after_def fun_eq_iff del: process.simps)
qed


text \<open>Waking a handler that has stopped writing does not make it write: after \<open>rearm(false, true)\<close> the event comes, \<open>handle_\<close> finds
  \<open>handle_write\<close> of the holder as \<open>write\<close> left it, calls \<open>read\<close> alone and arms the descriptor for reading only. So it goes
  for any number of wake-ups, whatever is given to the handler before each.\<close>

theorem wakeup_never_calls_write:
  assumes "read_continues cls" and "\<forall>c \<in> set cs. keeps_fd cls c" and "reading_only hid d p"
    and "thread_i < length (release_array (poller_cleaner p))"
    and "\<forall>log request. ctl_ok log request" and "0 < fuel"
  shows "\<exists>p'. wake_rounds fuel cls ctl_ok thread_i hid d cs p = (Some Process_Waiting, p') \<and>
    objects p' = (objects p)(d := read_after cls cs (objects p d)) \<and> reading_only hid d p' \<and>
    epoll_log p' = epoll_log p @ concat (replicate (length cs)
      [Epoll_Mod (vfd cls (objects p d)) hid (armed_events False True),
       Epoll_Mod (vfd cls (objects p d)) hid (armed_events True False)])"
  by (rule wake_rounds_only_read [where ctl_ok = ctl_ok, OF assms])

text \<open>A handler that counts its reads, after its first event: \<open>write\<close> has answered \<open>STOP_WRITE_HANDLE\<close>.\<close>

definition waiting_poller :: "nat poller" where
  "waiting_poller = snd (handle 1 counting_class (\<lambda>_ _. True) 0 0 [] counting_poller)"

lemma waiting_poller_state:
  "reading_only 0 3 waiting_poller" "0 < length (release_array (poller_cleaner waiting_poller))"
  "objects waiting_poller 3 = 1"
proof -
  let ?p0 = "add_in_progress 1 0 counting_poller"
  let ?p1 = "?p0\<lparr>objects := (objects ?p0)(3 := 1)\<rparr>"
  let ?q = "set_holder 0 (snd (apply_state_modify (holders ?p1 0) STOP_WRITE_HANDLE)) (?p1\<lparr>objects := (objects ?p1)(3 := 1)\<rparr>)"
  have h: "handle_read (holders counting_poller 0)" "handle_write (holders counting_poller 0)"
    "\<not> write_closed (holders counting_poller 0)" "objects counting_poller 3 = 0" "linked counting_poller 3 = [0]"
    by (simp_all add: counting_poller_def poller_new_def poller_add_def link_new_holder_def epoll_ctl_def
      holder_new_def set_holder_def link_holder_def Let_def)
  have stop: "flag_set STOP_WRITE_HANDLE STOP_WRITE_HANDLE" "\<not> flag_set STOP_WRITE_HANDLE STOP_PROCESSING"
    "\<not> flag_set STOP_WRITE_HANDLE START_WRITE_HANDLE" "\<not> flag_set STOP_WRITE_HANDLE CLOSE_READ_HANDLE"
    "\<not> flag_set STOP_WRITE_HANDLE CLOSE_WRITE_HANDLE" "\<not> flag_set STOP_WRITE_HANDLE STOP_READ_HANDLE"
    "\<not> flag_set STOP_WRITE_HANDLE START_READ_HANDLE"
    by (simp_all add: flag_set_def state_change_defs)
  have "call_handler (vread counting_class) 0 3 ?p0 = (Return False, ?p1)"
    using call_continue [of "vread counting_class" ?p0 3 1 0] h by (simp add: counting_class_def)
  moreover have "call_handler (vwrite counting_class) 0 3 ?p1 = (Return False, ?q)"
    using call_handler_return [of "vwrite counting_class" ?p1 3 STOP_WRITE_HANDLE 1 0] stop
    by (simp add: counting_class_def)
  ultimately have round: "round_parts counting_class 0 3 ?p0 = (Return False, ?q)"
    using h by (simp add: round_parts_def handle_read_part_def handle_write_part_def)
  have "\<not> closed_both (holders ?q 0)"
    using h stop counting_poller_state(4) by (simp add: closed_both_def set_holder_def)
  moreover have "cleaner_inv (poller_cleaner counting_poller)" "0 < length (release_array (poller_cleaner counting_poller))"
    using cleaner_new_inv_2 by (simp_all add: counting_poller_state(5)) (simp add: cleaner_new_def)
  moreover have "\<forall>log request. (\<lambda>_ _. True) log request" by simp
  ultimately obtain p' where p': "handle 1 counting_class (\<lambda>_ _. True) 0 0 [] counting_poller = (Some (Return False), p')"
    "objects p' = objects ?q" "holders p' = (holders ?q)(0 := (holders ?q 0)\<lparr>handle_in_progress := 0\<rparr>)"
    "linked p' = linked counting_poller" "cleaner_inv (poller_cleaner p')"
    "length (release_array (poller_cleaner p')) = length (release_array (poller_cleaner counting_poller))"
    using handle_single_round [OF counting_poller_state(1-3) round, of 1 0 "\<lambda>_ _. True"] by auto
  then show "reading_only 0 3 waiting_poller" "objects waiting_poller 3 = 1"
    "0 < length (release_array (poller_cleaner waiting_poller))"
    using h stop counting_poller_state \<open>0 < length (release_array (poller_cleaner counting_poller))\<close>
    by (simp_all add: waiting_poller_def reading_only_def closed_both_def set_holder_def)
qed

theorem wakeup_never_calls_write_witness:
  "\<exists>p'. wake_rounds 1 counting_class (\<lambda>_ _. True) 0 0 3 [id, id] waiting_poller = (Some Process_Waiting, p') \<and>
    objects p' 3 = 3 \<and> \<not> handle_write (holders p' 0)"
proof -
  have "read_continues counting_class" "\<forall>c \<in> set [id, id]. keeps_fd counting_class c"
    by (simp_all add: read_continues_def keeps_fd_def counting_class_def)
  from wakeup_never_calls_write [OF this waiting_poller_state(1,2), of "\<lambda>_ _. True" 1]
  obtain p' where "wake_rounds 1 counting_class (\<lambda>_ _. True) 0 0 3 [id, id] waiting_poller = (Some Process_Waiting, p')"
    "objects p' = (objects waiting_poller)(3 := read_after counting_class [id, id] (objects waiting_poller 3))"
    "reading_only 0 3 p'"
    by auto
  moreover have "read_after counting_class [id, id] 1 = 3"
    by (simp add: read_after_def counting_class_def)
  ultimately show ?thesis by (simp add: reading_only_def waiting_poller_state(3))
qed

text \<open>The sending handler is one of these: once its \<open>write\<close> has stopped, the messages that \<open>send\<close> puts into the queue stay there and
  nothing goes on the wire.\<close>

theorem woken_sender_sends_nothing:
  assumes "reading_only hid d p" and "thread_i < length (release_array (poller_cleaner p))"
    and "\<forall>log request. ctl_ok log request" and "0 < fuel"
  shows "\<exists>p'. wake_rounds fuel (send_class sends) ctl_ok thread_i hid d (map put_message ms) p = (Some Process_Waiting, p') \<and>
    reading_only hid d p' \<and> wire (sender (objects p' d)) = wire (sender (objects p d)) \<and>
    queue (sender (objects p' d)) =
      fold (\<lambda>m q. snd (add_message (fst m) (snd m) q)) ms (queue (sender (objects p d)))"
proof -
  have cls: "read_continues (send_class sends)"
    by (simp add: read_continues_def keeps_fd_def send_class_def send_read_def read_handle_def)
  have "\<forall>c \<in> set (map put_message ms). keeps_fd (send_class sends) c"
    by (auto simp: keeps_fd_def send_class_def put_message_def)
  from wake_rounds_only_read [where ctl_ok = ctl_ok, OF cls this assms] obtain p' where
    "wake_rounds fuel (send_class sends) ctl_ok thread_i hid d (map put_message ms) p = (Some Process_Waiting, p')"
    "objects p' = (objects p)(d := read_after (send_class sends) (map put_message ms) (objects p d))" "reading_only hid d p'"
    by blast
  moreover have "wire (sender (read_after (send_class sends) (map put_message ms) peer)) = wire (sender peer) \<and>
      queue (sender (read_after (send_class sends) (map put_message ms) peer)) =
        fold (\<lambda>m q. snd (add_message (fst m) (snd m) q)) ms (queue (sender peer))" for peer
    by (induction ms arbitrary: peer)
      (simp_all add: read_after_def send_class_def send_read_def read_handle_def finish_connect_def put_message_def)
  ultimately show ?thesis by simp
qed

end
