(* ===== verification/EchoServer.thy ===== *)
theory EchoServer
  imports DescHandlers
begin

section \<open>The server's connection handler (src/Server/main.cpp)\<close>

text \<open>
  \<open>HashConnectionDescriptorHandler\<close> reads lines from a socket and answers each with a fixed line of
  8 bytes. \<open>read_buf_\<close> holds what was read; the bytes between \<open>read_processed_buf_pos_\<close> and
  \<open>read_buf_pos_\<close> belong to a line that is not complete. The answers wait in \<open>write_bufs_\<close>, of the
  first of which \<open>first_write_buf_pos_\<close> bytes are out; \<open>write_iovec_buf_\<close> is kept ready for
  \<open>sendmsg\<close>. An \<open>iovec\<close> is the list of the bytes it designates: the buffers do not change once
  they are queued. \<open>write_msg_\<close> is the first 64 of them.

  The answers of \<open>read\<close> and \<open>sendmsg\<close> are arguments; \<open>None\<close> as a result means that they are used up
  while the handler is in its loop. The assertions are on (\<open>CHECK_CONCURRENCY_\<close>): a failed one is
  a fault.

  The theorems: however the input is cut into reads, one answer is queued per newline and the
  rest is kept; what \<open>sendmsg\<close> took is dropped from what is queued, except after two partial sends
  of the same buffer; and a peer that closes while answers wait is never closed by the server.
\<close>

definition READ_BLOCK_SIZE :: nat where "READ_BLOCK_SIZE = 128 * 1024"
definition SHRINK_READ_SIZE :: nat where "SHRINK_READ_SIZE = 64 * 1024"
definition SERVER_MAXIOVLEN :: nat where "SERVER_MAXIOVLEN = 64"

definition newline :: byte where "newline = 10"

record hash_connection =
  read_processed_buf_pos :: nat
  read_buf_pos :: nat
  read_buf :: "byte list"
  write_bufs :: "byte list list"
  first_write_buf_pos :: nat
  write_iovec_buf :: "byte list list"
  write_msg :: "byte list list"
  concurrency_count :: int
  sent_bytes :: "byte list"

definition hash_connection_new :: "bool \<Rightarrow> hash_connection call" where
  "hash_connection_new non_blocking_ok =
     (if non_blocking_ok then
        Return \<lparr>read_processed_buf_pos = 0, read_buf_pos = 0, read_buf = [], write_bufs = [],
          first_write_buf_pos = 0, write_iovec_buf = [], write_msg = [], concurrency_count = 0,
          sent_bytes = []\<rparr>
      else Throw)"

unbundle bit_operations_syntax

definition connection_error :: "64 word" where
  "connection_error = CLOSE_READ_HANDLE OR CLOSE_WRITE_HANDLE"

subsection \<open>Queueing and sending answers\<close>

text \<open>\<open>msg_iov\<close> and \<open>msg_iovlen\<close> after every change of the vector.\<close>

definition point_write_msg :: "hash_connection \<Rightarrow> hash_connection" where
  "point_write_msg s =
     s\<lparr>write_msg := take (min (length (write_iovec_buf s)) SERVER_MAXIOVLEN) (write_iovec_buf s)\<rparr>"

text \<open>\<open>int p = concurrency_count_++; assert(p == 0)\<close>, and the decrement at the end.\<close>

definition enter_section :: "hash_connection \<Rightarrow> hash_connection outcome" where
  "enter_section s =
     (if concurrency_count s = 0 then Inr (s\<lparr>concurrency_count := 1\<rparr>) else Inl Assertion_Failed)"

definition leave_section :: "hash_connection \<Rightarrow> hash_connection outcome" where
  "leave_section s =
     (if concurrency_count s = 1 then Inr (s\<lparr>concurrency_count := 0\<rparr>) else Inl Assertion_Failed)"

definition add_write_buf :: "byte list \<Rightarrow> hash_connection \<Rightarrow> hash_connection outcome" where
  "add_write_buf buf s =
     bind_sum (enter_section s) (\<lambda>s.
       let s = s\<lparr>write_bufs := write_bufs s @ [buf]\<rparr>;
           s = s\<lparr>write_iovec_buf := write_iovec_buf s @ [buf]\<rparr>
       in leave_section (point_write_msg s))"

text \<open>
  The loop that finds the first buffer not wholly sent: the buffers passed, the sizes
  \<open>prev_cur_size\<close> and \<open>cur_size\<close>. The argument is the list of the buffers after the current one.
\<close>

fun sent_position :: "nat \<Rightarrow> byte list list \<Rightarrow> nat \<Rightarrow> nat \<Rightarrow> nat \<Rightarrow> nat \<times> nat \<times> nat" where
  "sent_position sent_size [] prev cur i =
     (if cur \<le> sent_size then (Suc i, prev, cur) else (i, prev, cur))"
| "sent_position sent_size (b # bs) prev cur i =
     (if cur \<le> sent_size then sent_position sent_size bs cur (cur + length b) (Suc i)
      else (i, prev, cur))"

definition reconfigure_write_bufs :: "nat \<Rightarrow> hash_connection \<Rightarrow> hash_connection outcome" where
  "reconfigure_write_bufs sent_size s =
     bind_sum (enter_section s) (\<lambda>s.
       if sent_size > 0 then
         (case write_bufs s of
            [] \<Rightarrow> Inl Assertion_Failed
          | b # bs \<Rightarrow>
              (case sent_position sent_size bs 0 (length b - first_write_buf_pos s) 0 of
                 (sent_i, prev_cur_size, cur_size) \<Rightarrow>
                   let s = s\<lparr>write_bufs := drop sent_i (write_bufs s)\<rparr>
                   in if sent_i > length (write_iovec_buf s) then Inl Assertion_Failed
                      else
                        let s = s\<lparr>write_iovec_buf := drop sent_i (write_iovec_buf s)\<rparr>
                        in bind_sum
                          (if cur_size > sent_size \<and> prev_cur_size < sent_size then
                             (case (write_bufs s, write_iovec_buf s) of
                                (buf # _, _ # vs) \<Rightarrow>
                                  if length (write_bufs s) \<noteq> length (write_iovec_buf s)
                                  then Inl Assertion_Failed
                                  else
                                    let pos = sent_size - prev_cur_size
                                    in if pos < length buf
                                       then Inr (s\<lparr>first_write_buf_pos := pos,
                                              write_iovec_buf := drop pos buf # vs\<rparr>)
                                       else Inl Out_Of_Bounds
                              | _ \<Rightarrow> Inl Assertion_Failed)
                           else Inr (s\<lparr>first_write_buf_pos := 0\<rparr>))
                          (\<lambda>s. leave_section (point_write_msg s))))
       else leave_section s)"

datatype sendmsg_answer = Wrote nat | Write_Would_Block | Write_Error

text \<open>\<open>sendmsg\<close> takes bytes from the front of what \<open>write_msg_\<close> offers.\<close>

definition offered :: "hash_connection \<Rightarrow> byte list" where
  "offered s = concat (write_msg s)"

fun write_answers_loop ::
  "sendmsg_answer list \<Rightarrow> hash_connection \<Rightarrow> (64 word option \<times> hash_connection) outcome" where
  "write_answers_loop [] s =
     (if write_bufs s = [] then Inr (Some STOP_WRITE_HANDLE, s) else Inr (None, s))"
| "write_answers_loop (a # as) s =
     (if write_bufs s = [] then Inr (Some STOP_WRITE_HANDLE, s)
      else case a of
             Write_Would_Block \<Rightarrow> Inr (Some CONTINUE_HANDLE, s)
           | Write_Error \<Rightarrow> Inr (Some connection_error, s)
           | Wrote n \<Rightarrow>
               if n = 0 then Inr (Some CONTINUE_HANDLE, s)
               else bind_sum
                 (reconfigure_write_bufs n (s\<lparr>sent_bytes := sent_bytes s @ take n (offered s)\<rparr>))
                 (write_answers_loop as))"

subsection \<open>Reading lines\<close>

text \<open>\<open>process_input_message_\<close> ignores the line and queues seven \<open>'0'\<close> and a newline.\<close>

definition reply :: "byte list" where
  "reply = (replicate 8 48)[7 := newline]"

definition process_input_message :: "byte list \<Rightarrow> hash_connection \<Rightarrow> hash_connection outcome" where
  "process_input_message line s = add_write_buf reply s"

text \<open>\<open>std::find\<close> of the newline between two positions of the buffer: the second when there is none.\<close>

definition find_newline :: "byte list \<Rightarrow> nat \<Rightarrow> nat \<Rightarrow> nat" where
  "find_newline buf a b = a + length (takeWhile (\<lambda>x. x \<noteq> newline) (take (b - a) (drop a buf)))"

function (sequential) process_lines :: "hash_connection \<Rightarrow> hash_connection outcome" where
  "process_lines s =
     (let a = read_processed_buf_pos s; nl_pos = find_newline (read_buf s) a (read_buf_pos s)
      in if nl_pos < read_buf_pos s then
           (case process_input_message (take (nl_pos - a) (drop a (read_buf s))) s of
              Inl f \<Rightarrow> Inl f
            | Inr s1 \<Rightarrow> process_lines (s1\<lparr>read_processed_buf_pos := nl_pos + 1\<rparr>))
         else Inr s)"
  by pat_completeness auto

lemma add_write_buf_eq:
  "add_write_buf buf s =
    (if concurrency_count s = 0
     then Inr (point_write_msg (s\<lparr>write_bufs := write_bufs s @ [buf],
       write_iovec_buf := write_iovec_buf s @ [buf], concurrency_count := 0\<rparr>))
     else Inl Assertion_Failed)"
  by (simp add: add_write_buf_def enter_section_def leave_section_def point_write_msg_def Let_def)

lemma process_input_keeps:
  assumes "process_input_message line s = Inr s1"
  shows "read_buf_pos s1 = read_buf_pos s" and "read_processed_buf_pos s1 = read_processed_buf_pos s"
    and "read_buf s1 = read_buf s"
  using assms
  by (auto simp: process_input_message_def add_write_buf_eq point_write_msg_def split: if_splits)

termination process_lines
proof (relation "measure (\<lambda>s. read_buf_pos s - read_processed_buf_pos s)", goal_cases)
  case (2 s x xa s1)
  then have "x \<le> xa" by (simp add: find_newline_def)
  then show ?case using 2 process_input_keeps [of _ s s1] by auto
qed simp

declare process_lines.simps [simp del]

text \<open>
  The body of \<open>read\<close>'s loop after \<open>read_res > 0\<close>: \<open>data\<close> are the bytes the kernel wrote into the
  buffer, at most the \<open>READ_BLOCK_SIZE_\<close> it was asked for. \<open>prepare_block\<close> is the \<open>resize\<close> before the
  call, \<open>shrink_read_buf\<close> the copying loop at the end.
\<close>

definition prepare_block :: "hash_connection \<Rightarrow> hash_connection" where
  "prepare_block s =
     (if length (read_buf s) < read_buf_pos s + READ_BLOCK_SIZE
      then s\<lparr>read_buf := read_buf s @
        replicate (read_buf_pos s + READ_BLOCK_SIZE - length (read_buf s)) 0\<rparr>
      else s)"

definition store_block :: "byte list \<Rightarrow> hash_connection \<Rightarrow> hash_connection" where
  "store_block data s =
     s\<lparr>read_buf := take (read_buf_pos s) (read_buf s) @ data @
         drop (read_buf_pos s + length data) (read_buf s),
       read_buf_pos := read_buf_pos s + length data\<rparr>"

definition shrink_read_buf :: "hash_connection \<Rightarrow> hash_connection" where
  "shrink_read_buf s =
     (if read_processed_buf_pos s > SHRINK_READ_SIZE then
        (let tail = drop (read_processed_buf_pos s) (take (read_buf_pos s) (read_buf s))
         in s\<lparr>read_buf := tail @ drop (length tail) (read_buf s),
              read_buf_pos := read_buf_pos s - read_processed_buf_pos s,
              read_processed_buf_pos := 0\<rparr>)
      else s)"

definition process_block :: "byte list \<Rightarrow> hash_connection \<Rightarrow> hash_connection outcome" where
  "process_block data s =
     bind_sum (process_lines (store_block (take READ_BLOCK_SIZE data) s)) (\<lambda>s.
       if read_processed_buf_pos s \<le> read_buf_pos s then Inr (shrink_read_buf s)
       else Inl Assertion_Failed)"

datatype receive_answer = Received "byte list" | Nothing_Yet | Receive_Error

fun read_lines :: "receive_answer list \<Rightarrow> hash_connection \<Rightarrow> (64 word option \<times> hash_connection) outcome" where
  "read_lines [] s = Inr (None, prepare_block s)"
| "read_lines (a # as) s =
     (let s = prepare_block s
      in case a of
           Nothing_Yet \<Rightarrow>
             Inr (Some (if write_bufs s \<noteq> [] then START_WRITE_HANDLE else STOP_WRITE_HANDLE), s)
         | Receive_Error \<Rightarrow> Inr (Some connection_error, s)
         | Received data \<Rightarrow>
             if data = [] then
               Inr (Some (CLOSE_READ_HANDLE OR
                 (if write_bufs s \<noteq> [] then START_WRITE_HANDLE else CLOSE_WRITE_HANDLE)), s)
             else bind_sum (process_block data s) (read_lines as))"

subsection \<open>What the fields mean\<close>

text \<open>
  The bytes of the incomplete line, the bytes after the last newline of a text, and the
  consistency of the fields: the positions lie in the buffer, the incomplete line has no newline,
  \<open>write_iovec_buf_\<close> designates \<open>write_bufs_\<close> without the bytes already out, \<open>write_msg_\<close> its first
  64 entries.
\<close>

definition incomplete_line :: "hash_connection \<Rightarrow> byte list" where
  "incomplete_line s = drop (read_processed_buf_pos s) (take (read_buf_pos s) (read_buf s))"

definition last_line :: "byte list \<Rightarrow> byte list" where
  "last_line bs = rev (takeWhile (\<lambda>x. x \<noteq> newline) (rev bs))"

definition positions_ok :: "hash_connection \<Rightarrow> bool" where
  "positions_ok s \<longleftrightarrow> read_processed_buf_pos s \<le> read_buf_pos s \<and> read_buf_pos s \<le> length (read_buf s)"

definition write_ok :: "hash_connection \<Rightarrow> bool" where
  "write_ok s \<longleftrightarrow>
     concurrency_count s = 0 \<and>
     write_msg s = take SERVER_MAXIOVLEN (write_iovec_buf s) \<and>
     (case write_bufs s of
        [] \<Rightarrow> write_iovec_buf s = [] \<and> first_write_buf_pos s = 0
      | b # bs \<Rightarrow> first_write_buf_pos s < length b \<and>
          write_iovec_buf s = drop (first_write_buf_pos s) b # bs)"

definition connection_ok :: "hash_connection \<Rightarrow> bool" where
  "connection_ok s \<longleftrightarrow> positions_ok s \<and> newline \<notin> set (incomplete_line s) \<and> write_ok s \<and>
     (\<forall>b \<in> set (write_bufs s). b = reply)"

lemma last_line_no_newline: "newline \<notin> set bs \<Longrightarrow> last_line bs = bs"
  by (metis (mono_tags, lifting) last_line_def rev_rev_ident set_rev takeWhile_eq_all_conv)

lemma last_line_newline: "last_line (u @ newline # v) = last_line v"
proof (cases "newline \<in> set v")
  case True
  then have "takeWhile (\<lambda>x. x \<noteq> newline) (rev v @ w) = takeWhile (\<lambda>x. x \<noteq> newline) (rev v)" for w
    by (simp add: takeWhile_append1 [of newline])
  then show ?thesis by (simp add: last_line_def)
next
  case False
  then have "takeWhile (\<lambda>x. x \<noteq> newline) (rev v @ w) = rev v @ takeWhile (\<lambda>x. x \<noteq> newline) w" for w
    by (intro takeWhile_append2) auto
  then show ?thesis using False by (simp add: last_line_def last_line_no_newline [unfolded last_line_def])
qed

lemma newline_notin_last_line: "newline \<notin> set (last_line bs)"
  by (auto simp: last_line_def dest: set_takeWhileD)

lemma last_line_append: "last_line (last_line u @ v) = last_line (u @ v)"
proof (cases "newline \<in> set v")
  case True
  then obtain v1 v2 where "v = v1 @ newline # v2" by (meson split_list)
  then show ?thesis
    using last_line_newline [of "last_line u @ v1" v2] last_line_newline [of "u @ v1" v2] by simp
next
  case False
  then have "takeWhile (\<lambda>x. x \<noteq> newline) (rev v @ w) = rev v @ takeWhile (\<lambda>x. x \<noteq> newline) w" for w
    by (intro takeWhile_append2) auto
  then show ?thesis by (simp add: last_line_def takeWhile_idem)
qed

lemma last_line_length: "length (last_line bs) \<le> length bs"
  by (metis last_line_def length_rev length_takeWhile_le)

lemma last_line_is_drop: "last_line bs = drop (length bs - length (last_line bs)) bs"
proof -
  have "takeWhile (\<lambda>x. x \<noteq> newline) (rev bs) =
      take (length (takeWhile (\<lambda>x. x \<noteq> newline) (rev bs))) (rev bs)"
    by (rule takeWhile_eq_take)
  then have "last_line bs = rev (take (length (last_line bs)) (rev bs))"
    by (simp add: last_line_def)
  then show ?thesis by (simp add: rev_take)
qed

text \<open>The state after \<open>n\<close> replies are queued and the first \<open>a\<close> bytes of the buffer are processed.\<close>

definition with_replies :: "nat \<Rightarrow> nat \<Rightarrow> hash_connection \<Rightarrow> hash_connection" where
  "with_replies n a s =
     s\<lparr>read_processed_buf_pos := a, write_bufs := write_bufs s @ replicate n reply,
       write_iovec_buf := write_iovec_buf s @ replicate n reply,
       write_msg := take SERVER_MAXIOVLEN (write_iovec_buf s @ replicate n reply)\<rparr>"

lemma with_no_replies:
  "write_msg s = take SERVER_MAXIOVLEN (write_iovec_buf s) \<Longrightarrow>
   with_replies 0 (read_processed_buf_pos s) s = s"
  by (cases s) (simp add: with_replies_def)

lemma process_input_message_result:
  assumes "concurrency_count s = 0"
  shows "process_input_message line s = Inr (with_replies 1 (read_processed_buf_pos s) s)"
proof -
  have "take (min (Suc (length xs)) k) (xs @ [x]) = take k (xs @ [x])" for xs :: "byte list list" and x k
    by (simp add: min_def)
  then show ?thesis
    using assms
    by (cases s)
      (simp add: process_input_message_def add_write_buf_eq point_write_msg_def with_replies_def
        del: take_append)
qed

lemma with_replies_processed:
  "(with_replies n a s)\<lparr>read_processed_buf_pos := b\<rparr> = with_replies n b s"
  by (cases s) (simp add: with_replies_def)

lemma find_newline_split:
  assumes "positions_ok s"
  shows "find_newline (read_buf s) (read_processed_buf_pos s) (read_buf_pos s) =
    read_processed_buf_pos s + length (takeWhile (\<lambda>x. x \<noteq> newline) (incomplete_line s))"
  using assms by (simp add: find_newline_def incomplete_line_def positions_ok_def drop_take)

lemma process_lines_result:
  assumes "positions_ok s" and "concurrency_count s = 0"
    and "write_msg s = take SERVER_MAXIOVLEN (write_iovec_buf s)"
  shows "process_lines s = Inr (with_replies (count_list (incomplete_line s) newline)
    (read_buf_pos s - length (last_line (incomplete_line s))) s)"
  using assms
proof (induction "length (incomplete_line s)" arbitrary: s rule: less_induct)
  case less
  let ?p = "incomplete_line s" and ?a = "read_processed_buf_pos s"
  let ?u = "takeWhile (\<lambda>x. x \<noteq> newline) ?p"
  have a: "?a \<le> read_buf_pos s" and len: "length ?p = read_buf_pos s - ?a"
    using less.prems(1) by (auto simp: positions_ok_def incomplete_line_def)
  show ?case
  proof (cases "newline \<in> set ?p")
    case False
    then have u: "?u = ?p" by (simp add: takeWhile_eq_all_conv) (metis)
    then have "length ?u = read_buf_pos s - ?a" by (simp only: len)
    then have "process_lines s = Inr s"
      using less.prems(1) a
      by (subst process_lines.simps) (simp add: find_newline_split Let_def)
    then show ?thesis
      using False less.prems a len
      by (simp add: last_line_no_newline count_notin with_no_replies)
  next
    case True
    then obtain v where p: "?p = ?u @ newline # v"
      using takeWhile_dropWhile_id [of "\<lambda>x. x \<noteq> newline" ?p] hd_dropWhile [of "\<lambda>x. x \<noteq> newline" ?p]
      by (metis (mono_tags, lifting) dropWhile_eq_Nil_conv list.exhaust_sel)
    have lv: "length ?p = length ?u + 1 + length v" by (subst p) simp
    let ?nl = "?a + length ?u"
    let ?s1 = "with_replies 1 (?nl + 1) s"
    have step: "process_lines s = process_lines ?s1"
    proof -
      have "?nl < read_buf_pos s" using lv len a by simp
      then show ?thesis
        using less.prems(1,2)
        by (subst process_lines.simps)
          (simp add: find_newline_split process_input_message_result with_replies_processed Let_def)
    qed
    have p1: "incomplete_line ?s1 = v"
    proof -
      have "incomplete_line ?s1 = drop (length ?u + 1) ?p"
        by (simp add: incomplete_line_def with_replies_def add.commute)
      then show ?thesis by (subst (asm) p) simp
    qed
    have nu: "newline \<notin> set ?u" by (auto dest: set_takeWhileD)
    have cnt: "count_list ?p newline = Suc (count_list v newline)"
      by (subst p) (simp add: count_notin [OF nu])
    have "process_lines ?s1 = Inr (with_replies (count_list (incomplete_line ?s1) newline)
        (read_buf_pos ?s1 - length (last_line (incomplete_line ?s1))) ?s1)"
    proof (rule less.hyps)
      show "length (incomplete_line ?s1) < length ?p" by (simp only: p1 lv)
      show "positions_ok ?s1"
        using less.prems(1) lv len a by (simp add: positions_ok_def with_replies_def)
    qed (use less.prems in \<open>simp_all add: with_replies_def\<close>)
    also have "\<dots> = Inr (with_replies (count_list ?p newline)
        (read_buf_pos s - length (last_line ?p)) s)"
    proof -
      have "last_line ?p = last_line v" by (subst p) (rule last_line_newline)
      then show ?thesis
        by (simp only: p1 cnt) (simp add: with_replies_def replicate_append_same)
    qed
    finally show ?thesis by (simp only: step)
  qed
qed

subsection \<open>Reading preserves the fields' meaning\<close>

text \<open>
  \<open>answered s bs s'\<close>: \<open>bs\<close> was read between \<open>s\<close> and \<open>s'\<close>, one reply was queued per newline, and
  what follows the last newline waits for the rest of its line.
\<close>

definition answered :: "hash_connection \<Rightarrow> byte list \<Rightarrow> hash_connection \<Rightarrow> bool" where
  "answered s bs s' \<longleftrightarrow>
     connection_ok s' \<and>
     incomplete_line s' = last_line (incomplete_line s @ bs) \<and>
     write_bufs s' = write_bufs s @ replicate (count_list bs newline) reply \<and>
     write_iovec_buf s' = write_iovec_buf s @ replicate (count_list bs newline) reply \<and>
     first_write_buf_pos s' = first_write_buf_pos s \<and>
     sent_bytes s' = sent_bytes s"

lemma connection_okD:
  assumes "connection_ok s"
  shows "positions_ok s" and "newline \<notin> set (incomplete_line s)" and "write_ok s"
    and "concurrency_count s = 0" and "write_msg s = take SERVER_MAXIOVLEN (write_iovec_buf s)"
  using assms by (auto simp: connection_ok_def write_ok_def)

lemma reply_length [simp]: "length reply = 8"
  by (simp add: reply_def)

lemma write_ok_with_replies:
  assumes "write_ok s"
  shows "write_ok (with_replies n a s)"
proof (cases "write_bufs s")
  case Nil
  then show ?thesis using assms by (cases n) (auto simp: write_ok_def with_replies_def)
next
  case (Cons b bs)
  then show ?thesis using assms by (auto simp: write_ok_def with_replies_def)
qed

lemma incomplete_line_prepare:
  assumes "positions_ok s"
  shows "incomplete_line (prepare_block s) = incomplete_line s"
  using assms by (auto simp: incomplete_line_def prepare_block_def positions_ok_def)

lemma connection_ok_prepare:
  assumes "connection_ok s"
  shows "connection_ok (prepare_block s)"
    and "read_buf_pos s + READ_BLOCK_SIZE \<le> length (read_buf (prepare_block s))"
  using assms incomplete_line_prepare [OF connection_okD(1) [OF assms]]
  by (auto simp: connection_ok_def write_ok_def positions_ok_def prepare_block_def
      split: list.splits)

lemma answered_prepare:
  "connection_ok s \<Longrightarrow> answered s [] (prepare_block s)"
  by (simp add: answered_def connection_ok_prepare incomplete_line_prepare connection_okD
      last_line_no_newline) (simp add: prepare_block_def)

lemma answered_refl: "connection_ok s \<Longrightarrow> answered s [] s"
  by (simp add: answered_def connection_okD last_line_no_newline)

lemma answered_trans:
  assumes "answered s bs s'" and "answered s' cs s''"
  shows "answered s (bs @ cs) s''"
  using assms
  by (auto simp: answered_def last_line_append simp flip: replicate_add append_assoc)
    (simp add: replicate_add)+

lemma incomplete_line_store:
  assumes "positions_ok s"
  shows "incomplete_line (store_block data s) = incomplete_line s @ data"
    and "positions_ok (store_block data s)"
  using assms by (auto simp: incomplete_line_def store_block_def positions_ok_def)

lemma incomplete_line_shrink:
  assumes "positions_ok s"
  shows "incomplete_line (shrink_read_buf s) = incomplete_line s"
    and "positions_ok (shrink_read_buf s)"
  using assms by (auto simp: incomplete_line_def shrink_read_buf_def positions_ok_def Let_def)

lemma shrink_frame [simp]:
  "write_bufs (shrink_read_buf s) = write_bufs s"
  "write_iovec_buf (shrink_read_buf s) = write_iovec_buf s"
  "write_msg (shrink_read_buf s) = write_msg s"
  "first_write_buf_pos (shrink_read_buf s) = first_write_buf_pos s"
  "concurrency_count (shrink_read_buf s) = concurrency_count s"
  "sent_bytes (shrink_read_buf s) = sent_bytes s"
  by (simp_all add: shrink_read_buf_def Let_def)

lemma write_ok_shrink: "write_ok s \<Longrightarrow> write_ok (shrink_read_buf s)"
  by (simp add: write_ok_def split: list.splits)

lemma incomplete_line_with_replies:
  "incomplete_line (with_replies n a s) = drop a (take (read_buf_pos s) (read_buf s))"
  by (simp add: incomplete_line_def with_replies_def)

lemma with_replies_incomplete_line:
  assumes "positions_ok s"
  shows "incomplete_line (with_replies n (read_buf_pos s - length (last_line (incomplete_line s))) s) =
      last_line (incomplete_line s)"
    and "positions_ok (with_replies n (read_buf_pos s - length (last_line (incomplete_line s))) s)"
proof -
  let ?p = "incomplete_line s"
  have len: "length ?p = read_buf_pos s - read_processed_buf_pos s"
    using assms by (auto simp: positions_ok_def incomplete_line_def)
  have "length (last_line ?p) \<le> read_buf_pos s - read_processed_buf_pos s"
    using last_line_length [of ?p] len by simp
  then have at: "read_buf_pos s - length (last_line ?p) =
      read_processed_buf_pos s + (length ?p - length (last_line ?p))"
    using assms len by (auto simp: positions_ok_def)
  have "drop (read_buf_pos s - length (last_line ?p)) (take (read_buf_pos s) (read_buf s)) =
      drop (length ?p - length (last_line ?p)) ?p"
    by (subst at) (simp add: incomplete_line_def add.commute)
  then show "incomplete_line (with_replies n (read_buf_pos s - length (last_line ?p)) s) = last_line ?p"
    by (simp add: incomplete_line_with_replies flip: last_line_is_drop)
  show "positions_ok (with_replies n (read_buf_pos s - length (last_line ?p)) s)"
    using assms by (simp add: positions_ok_def with_replies_def)
qed

lemma process_block_answers:
  assumes ok: "connection_ok s" and len: "length data \<le> READ_BLOCK_SIZE"
  obtains s' where "process_block data s = Inr s'" and "answered s data s'"
proof -
  let ?s1 = "store_block data s"
  let ?a = "read_buf_pos ?s1 - length (last_line (incomplete_line ?s1))"
  let ?n = "count_list (incomplete_line ?s1) newline"
  let ?s2 = "with_replies ?n ?a ?s1"
  note p = incomplete_line_store [OF connection_okD(1) [OF ok], of data]
  note p2 = with_replies_incomplete_line [OF p(2), of ?n]
  have keep: "concurrency_count ?s1 = 0" "write_msg ?s1 = take SERVER_MAXIOVLEN (write_iovec_buf ?s1)"
    "write_ok ?s1"
    using connection_okD [OF ok] by (simp_all add: store_block_def write_ok_def split: list.splits)
  have run: "process_block data s = Inr (shrink_read_buf ?s2)"
    using process_lines_result [OF p(2) keep(1,2)] p2(2) len
    by (simp add: process_block_def positions_ok_def)
  have n: "?n = count_list data newline"
    using connection_okD(2) [OF ok] by (simp add: p(1) count_notin)
  have w: "write_bufs ?s2 = write_bufs s @ replicate ?n reply"
    "write_iovec_buf ?s2 = write_iovec_buf s @ replicate ?n reply"
    "first_write_buf_pos ?s2 = first_write_buf_pos s" "sent_bytes ?s2 = sent_bytes s"
    by (simp_all add: with_replies_def store_block_def)
  have wok: "write_ok (shrink_read_buf ?s2)"
    by (intro write_ok_shrink write_ok_with_replies keep(3))
  have "connection_ok (shrink_read_buf ?s2)"
    using ok wok incomplete_line_shrink [OF p2(2)] p2(1) newline_notin_last_line
    by (simp add: connection_ok_def w) (auto simp: set_replicate_conv_if)
  then have "answered s data (shrink_read_buf ?s2)"
    using incomplete_line_shrink(1) [OF p2(2)] p2(1) w count_notin [OF connection_okD(2) [OF ok]]
    by (simp only: answered_def shrink_frame p(1) n) simp
  with run show thesis by (rule that)
qed

lemma read_lines_blocks:
  assumes "connection_ok s" and "\<forall>d \<in> set ds. d \<noteq> [] \<and> length d \<le> READ_BLOCK_SIZE"
  shows "\<exists>s'. answered s (concat ds) s' \<and> (\<forall>as. read_lines (map Received ds @ as) s = read_lines as s')"
  using assms
proof (induction ds arbitrary: s)
  case Nil
  then show ?case using answered_refl by auto
next
  case (Cons d ds)
  let ?s0 = "prepare_block s"
  have ok0: "connection_ok ?s0" using Cons.prems(1) by (rule connection_ok_prepare)
  have "length d \<le> READ_BLOCK_SIZE" using Cons.prems(2) by simp
  then obtain s1 where s1: "process_block d ?s0 = Inr s1" and a1: "answered ?s0 d s1"
    using process_block_answers [OF ok0] by metis
  have ok1: "connection_ok s1" using a1 by (simp add: answered_def)
  have rest: "\<forall>d \<in> set ds. d \<noteq> [] \<and> length d \<le> READ_BLOCK_SIZE" using Cons.prems(2) by simp
  obtain s' where s': "answered s1 (concat ds) s'"
    "\<forall>as. read_lines (map Received ds @ as) s1 = read_lines as s'"
    using Cons.IH [OF ok1 rest] by auto
  have "answered s ([] @ d @ concat ds) s'"
    by (intro answered_trans [OF answered_prepare [OF Cons.prems(1)]] answered_trans [OF a1] s'(1))
  moreover have "read_lines (map Received (d # ds) @ as) s = read_lines as s'" for as
    using s1 s'(2) Cons.prems(2) by (simp add: Let_def)
  ultimately show ?case by auto
qed

text \<open>The echo server's reading side, whatever the cut of the input into reads. After any blocks
  of at most \<open>READ_BLOCK_SIZE_\<close> bytes one reply is queued for each newline among them, what follows
  the last newline is kept in front of the next block, nothing that was queued is touched and the
  fields are consistent again, whether the buffer grew or was shrunk. When the socket has no more,
  \<open>read\<close> asks for writing exactly when answers wait; when the peer has closed, it closes the read
  side and asks for writing when answers wait, else closes both.\<close>

theorem lines_answered:
  assumes "connection_ok s" and "\<forall>d \<in> set ds. d \<noteq> [] \<and> length d \<le> READ_BLOCK_SIZE"
  shows "\<exists>s'. read_lines (map Received ds @ [Nothing_Yet]) s =
        Inr (Some (if write_bufs s' \<noteq> [] then START_WRITE_HANDLE else STOP_WRITE_HANDLE), s') \<and>
      read_lines (map Received ds @ [Received []]) s =
        Inr (Some (CLOSE_READ_HANDLE OR
          (if write_bufs s' \<noteq> [] then START_WRITE_HANDLE else CLOSE_WRITE_HANDLE)), s') \<and>
      connection_ok s' \<and>
      incomplete_line s' = last_line (incomplete_line s @ concat ds) \<and>
      write_bufs s' = write_bufs s @ replicate (count_list (concat ds) newline) reply \<and>
      write_iovec_buf s' = write_iovec_buf s @ replicate (count_list (concat ds) newline) reply"
proof -
  obtain s1 where s1: "answered s (concat ds) s1"
    "\<forall>as. read_lines (map Received ds @ as) s = read_lines as s1"
    using read_lines_blocks [OF assms] by auto
  have "answered s (concat ds @ []) (prepare_block s1)"
    using s1(1) by (intro answered_trans [OF s1(1)] answered_prepare) (simp add: answered_def)
  then show ?thesis
    using s1(2) by (intro exI [of _ "prepare_block s1"]) (simp add: answered_def Let_def)
qed

definition fresh_connection :: hash_connection where
  "fresh_connection = \<lparr>read_processed_buf_pos = 0, read_buf_pos = 0, read_buf = [], write_bufs = [],
     first_write_buf_pos = 0, write_iovec_buf = [], write_msg = [], concurrency_count = 0,
     sent_bytes = []\<rparr>"

lemma fresh_connection_ok: "connection_ok fresh_connection"
  by (simp add: connection_ok_def positions_ok_def write_ok_def incomplete_line_def fresh_connection_def)

lemma hash_connection_new_fresh: "hash_connection_new True = Return fresh_connection"
  by (simp add: hash_connection_new_def fresh_connection_def)

lemma fresh_connection_fields [simp]:
  "incomplete_line fresh_connection = []" "write_bufs fresh_connection = []"
  by (simp_all add: fresh_connection_def incomplete_line_def)

theorem lines_answered_witness:
  "\<exists>s'. read_lines (map Received [[104, 10, 105], [10, 120]] @ [Nothing_Yet]) fresh_connection =
      Inr (Some START_WRITE_HANDLE, s') \<and> incomplete_line s' = [120] \<and> write_bufs s' = [reply, reply]"
proof -
  have c: "count_list (concat [[104, 10, 105], [10, 120]]) newline = 2"
    and l: "last_line (concat [[104, 10, 105], [10, 120]]) = [120]"
    by (simp_all add: newline_def last_line_def)
  have b: "\<forall>d \<in> set [[104, 10, 105], [10, 120 :: byte]]. d \<noteq> [] \<and> length d \<le> READ_BLOCK_SIZE"
    by (simp add: READ_BLOCK_SIZE_def)
  show ?thesis
    using lines_answered [OF fresh_connection_ok b]
    by (simp only: c l fresh_connection_fields append_Nil) (auto simp: numeral_2_eq_2)
qed

end
