(* ===== verification/EchoWrites.thy ===== *)
theory EchoWrites
  imports EchoServer
begin

section \<open>Sending the server's answers (src/Server/main.cpp, write and reconfigure_write_bufs_)\<close>

text \<open>
  What \<open>reconfigure_write_bufs_\<close> leaves of the queue after \<open>sendmsg\<close> took a number of bytes, and
  what \<open>write\<close>'s loop sends in all. The reference is \<open>unsent\<close>, the entries left when that many
  bytes are dropped from the front. The code agrees with it while no buffer is sent in more than
  two parts; a third part starts again inside the second one.
\<close>

fun unsent :: "nat \<Rightarrow> byte list list \<Rightarrow> byte list list" where
  "unsent n [] = []"
| "unsent n (v # vs) = (if length v \<le> n then unsent (n - length v) vs else drop n v # vs)"

lemma concat_unsent: "concat (unsent n vs) = drop n (concat vs)"
  by (induction n vs rule: unsent.induct) simp_all

text \<open>Where the loop stops: \<open>j\<close> entries passed, and what is cut from the next one.\<close>

lemma sent_position_unsent:
  assumes "prev \<le> n"
  shows "\<exists>j prev' cur'. sent_position n bs prev (prev + length v) i = (i + j, prev', cur') \<and>
    (j = 0 \<longleftrightarrow> n - prev < length v) \<and> (j = 0 \<longrightarrow> prev' = prev) \<and>
    (if cur' \<le> n then j = Suc (length bs) \<and> unsent (n - prev) (v # bs) = []
     else j < Suc (length bs) \<and> prev' \<le> n \<and> n - prev' < length ((v # bs) ! j) \<and>
       unsent (n - prev) (v # bs) = drop (n - prev') ((v # bs) ! j) # drop (Suc j) (v # bs))"
  using assms
proof (induction bs arbitrary: prev v i)
  case Nil
  then show ?case by auto
next
  case (Cons b bs)
  show ?case
  proof (cases "prev + length v \<le> n")
    case True
    then obtain j prev' cur' where
      j: "sent_position n bs (prev + length v) (prev + length v + length b) (Suc i) = (Suc i + j, prev', cur')"
      "if cur' \<le> n then j = Suc (length bs) \<and> unsent (n - (prev + length v)) (b # bs) = []
       else j < Suc (length bs) \<and> prev' \<le> n \<and> n - prev' < length ((b # bs) ! j) \<and>
         unsent (n - (prev + length v)) (b # bs) = drop (n - prev') ((b # bs) ! j) # drop (Suc j) (b # bs)"
      using Cons.IH [of "prev + length v" b "Suc i"] by blast
    show ?thesis
      using True j by (intro exI [of _ "Suc j"] exI [of _ prev'] exI [of _ cur']) (auto split: if_splits)
  next
    case False
    then show ?thesis using Cons.prems by auto
  qed
qed

text \<open>The states that differ in the fields for writing only.\<close>

definition same_reading :: "hash_connection \<Rightarrow> hash_connection \<Rightarrow> bool" where
  "same_reading s s' \<longleftrightarrow> read_processed_buf_pos s' = read_processed_buf_pos s \<and>
     read_buf_pos s' = read_buf_pos s \<and> read_buf s' = read_buf s"

lemma point_write_msg_eq:
  "point_write_msg s = s\<lparr>write_msg := take SERVER_MAXIOVLEN (write_iovec_buf s)\<rparr>"
  by (simp add: point_write_msg_def min_def)

lemma reconfigure_result:
  assumes ok: "write_ok s" and bufs: "write_bufs s = b # bs" and n: "0 < n"
  shows "\<exists>s' j. reconfigure_write_bufs n s = Inr s' \<and> write_ok s' \<and> same_reading s s' \<and>
    sent_bytes s' = sent_bytes s \<and> write_bufs s' = drop j (write_bufs s) \<and>
    (n < length b - first_write_buf_pos s \<longrightarrow> j = 0 \<and> first_write_buf_pos s' = n) \<and>
    write_iovec_buf s' =
      (if n < length b - first_write_buf_pos s then drop n b # bs else unsent n (write_iovec_buf s))"
proof -
  let ?p = "first_write_buf_pos s" and ?v = "drop (first_write_buf_pos s) b"
  have p: "?p < length b" and iov: "write_iovec_buf s = ?v # bs" and c: "concurrency_count s = 0"
    using ok bufs by (simp_all add: write_ok_def)
  obtain j prev' cur' where
    pos: "sent_position n bs 0 (length b - ?p) 0 = (j, prev', cur')" and
    j0: "j = 0 \<longleftrightarrow> n < length b - ?p" "j = 0 \<longrightarrow> prev' = 0" and
    cut: "if cur' \<le> n then j = Suc (length bs) \<and> unsent n (?v # bs) = []
     else j < Suc (length bs) \<and> prev' \<le> n \<and> n - prev' < length ((?v # bs) ! j) \<and>
       unsent n (?v # bs) = drop (n - prev') ((?v # bs) ! j) # drop (Suc j) (?v # bs)"
    using sent_position_unsent [of 0 n bs ?v 0, unfolded add_0 diff_zero length_drop]
    by (elim meta_mp [OF _ le0, elim_format] exE conjE)
  show ?thesis
  proof (cases "j = 0")
    case True
    then show ?thesis
      using n c bufs iov pos j0 cut p
      by (intro exI [of _ "point_write_msg (s\<lparr>first_write_buf_pos := n, write_iovec_buf := drop n b # bs\<rparr>)"]
          exI [of _ 0])
        (auto simp: reconfigure_write_bufs_def enter_section_def leave_section_def point_write_msg_eq
          write_ok_def same_reading_def Let_def)
  next
    case False
    then obtain k where k: "j = Suc k" by (cases j) auto
    show ?thesis
    proof (cases "cur' \<le> n")
      case True
      then show ?thesis
        using n c bufs iov pos j0 cut p k
        by (intro exI [of _ "point_write_msg (s\<lparr>write_bufs := [], write_iovec_buf := [],
            first_write_buf_pos := 0\<rparr>)"] exI [of _ j])
          (auto simp: reconfigure_write_bufs_def enter_section_def leave_section_def point_write_msg_eq
            write_ok_def same_reading_def Let_def)
    next
      case cur: False
      then have kl: "k < length bs" and m: "n - prev' < length (bs ! k)" "prev' \<le> n" and
        u: "unsent n (?v # bs) = drop (n - prev') (bs ! k) # drop (Suc k) bs"
        using cut k by auto
      have d: "drop k bs = bs ! k # drop (Suc k) bs" using kl by (simp add: Cons_nth_drop_Suc)
      show ?thesis
        using n c bufs iov pos j0 p k kl m u d cur
        by (intro exI [of _ "point_write_msg (s\<lparr>write_bufs := drop k bs,
            write_iovec_buf := drop (n - prev') (bs ! k) # drop (Suc k) bs,
            first_write_buf_pos := n - prev'\<rparr>)"] exI [of _ j])
          (auto simp: reconfigure_write_bufs_def enter_section_def leave_section_def point_write_msg_eq
            write_ok_def same_reading_def Let_def)
    qed
  qed
qed


lemma offered_prefix:
  "write_msg s = take SERVER_MAXIOVLEN (write_iovec_buf s) \<Longrightarrow>
   \<exists>r. concat (write_iovec_buf s) = offered s @ r"
  by (metis append_take_drop_id concat_append offered_def)

lemma take_of_prefix: "\<exists>r. ys = xs @ r \<Longrightarrow> n \<le> length xs \<Longrightarrow> take n xs = take n ys"
  by auto

text \<open>C11: what one \<open>sendmsg\<close> took leaves the queue exactly once: when the first waiting buffer is
  untouched, or is finished by this call, the bytes taken followed by what still waits are the
  bytes that waited before. The fields stay consistent, so the next call offers the rest.\<close>

theorem sent_bytes_leave_queue:
  assumes "write_ok s" and "write_bufs s \<noteq> []" and "0 < n" and "n \<le> length (offered s)"
    and "first_write_buf_pos s = 0 \<or> length (hd (write_iovec_buf s)) \<le> n"
  shows "\<exists>s'. reconfigure_write_bufs n s = Inr s' \<and> write_ok s' \<and>
    take n (offered s) @ concat (write_iovec_buf s') = concat (write_iovec_buf s)"
proof -
  obtain b bs where b: "write_bufs s = b # bs" using assms(2) by (cases "write_bufs s") auto
  have v: "write_iovec_buf s = drop (first_write_buf_pos s) b # bs"
    and m: "write_msg s = take SERVER_MAXIOVLEN (write_iovec_buf s)"
    using assms(1) b by (simp_all add: write_ok_def)
  obtain s' where s': "reconfigure_write_bufs n s = Inr s'" "write_ok s'"
    "write_iovec_buf s' = (if n < length b - first_write_buf_pos s then drop n b # bs
       else unsent n (write_iovec_buf s))"
    using reconfigure_result [OF assms(1) b assms(3)] by blast
  have "concat (write_iovec_buf s') = drop n (concat (write_iovec_buf s))"
    using assms(5) by (auto simp: s'(3) concat_unsent v)
  moreover have "take n (offered s) = take n (concat (write_iovec_buf s))"
    using offered_prefix [OF m] assms(4) by (simp add: take_of_prefix)
  ultimately show ?thesis using s'(1,2) by simp
qed


lemma reply_nonempty: "reply \<noteq> []"
  using reply_length by (metis list.size(3) zero_neq_numeral)

lemma write_ok_sent [simp]: "write_ok (s\<lparr>sent_bytes := bs\<rparr>) = write_ok s"
  by (simp add: write_ok_def split: list.splits)

definition waiting :: "byte list list \<Rightarrow> hash_connection" where
  "waiting bufs = \<lparr>read_processed_buf_pos = 0, read_buf_pos = 0, read_buf = [], write_bufs = bufs,
     first_write_buf_pos = 0, write_iovec_buf = bufs, write_msg = take SERVER_MAXIOVLEN bufs,
     concurrency_count = 0, sent_bytes = []\<rparr>"

lemma write_ok_waiting: "[] \<notin> set bufs \<Longrightarrow> write_ok (waiting bufs)"
  by (auto simp: write_ok_def waiting_def split: list.splits)

theorem sent_bytes_leave_queue_witness:
  "\<exists>s'. reconfigure_write_bufs 10 (waiting [reply, reply]) = Inr s' \<and> write_ok s' \<and>
    take 10 (offered (waiting [reply, reply])) @ concat (write_iovec_buf s') = reply @ reply"
proof -
  have "[] \<notin> set [reply, reply]" using reply_nonempty by auto
  then have ok: "write_ok (waiting [reply, reply])" by (rule write_ok_waiting)
  have l: "length (offered (waiting [reply, reply])) = 16"
    by (simp add: offered_def waiting_def SERVER_MAXIOVLEN_def)
  show ?thesis
    using sent_bytes_leave_queue [OF ok, of 10]
    by (simp only: l) (simp add: waiting_def)
qed

text \<open>A buffer sent in three parts. When the first waiting buffer is already partly out and this
  call does not finish it, the bytes between the two positions go back into the queue: as many as
  were out before the call are sent twice, the ones right after what the call took.\<close>

theorem second_partial_send_resends:
  assumes "write_ok s" and "write_bufs s = b # bs" and "0 < n"
    and "n < length (hd (write_iovec_buf s))"
  shows "\<exists>s'. reconfigure_write_bufs n s = Inr s' \<and> first_write_buf_pos s' = n \<and>
    concat (write_iovec_buf s') =
      take (first_write_buf_pos s) (drop n b) @ drop n (concat (write_iovec_buf s)) \<and>
    length (concat (write_iovec_buf s')) + n =
      length (concat (write_iovec_buf s)) + first_write_buf_pos s"
proof -
  let ?p = "first_write_buf_pos s"
  have v: "write_iovec_buf s = drop ?p b # bs" using assms(1,2) by (simp add: write_ok_def)
  then have n: "n < length b - ?p" using assms(4) by simp
  obtain s' where s': "reconfigure_write_bufs n s = Inr s'" "first_write_buf_pos s' = n"
    "write_iovec_buf s' = drop n b # bs"
    using reconfigure_result [OF assms(1-3)] n by auto
  have "drop n b = take ?p (drop n b) @ drop n (drop ?p b)"
    by (metis add.commute append_take_drop_id drop_drop)
  then have "concat (write_iovec_buf s') = take ?p (drop n b) @ drop n (concat (write_iovec_buf s))"
    using s'(3) v n by simp
  then show ?thesis
    using s'(1,2,3) v n by (intro exI [of _ s']) simp
qed

theorem second_partial_send_resends_witness:
  "\<exists>s s'. reconfigure_write_bufs 3 (waiting [reply]) = Inr s \<and> reconfigure_write_bufs 2 s = Inr s' \<and>
    length (concat (write_iovec_buf s')) = 6"
proof -
  have "[] \<notin> set [reply]" using reply_nonempty by auto
  then have ok: "write_ok (waiting [reply])" by (rule write_ok_waiting)
  have b: "write_bufs (waiting [reply]) = [reply]" and f: "first_write_buf_pos (waiting [reply]) = 0"
    by (simp_all add: waiting_def)
  obtain s where s: "reconfigure_write_bufs 3 (waiting [reply]) = Inr s" "write_ok s"
    "first_write_buf_pos s = 3" "write_bufs s = [reply]" "write_iovec_buf s = [drop 3 reply]"
    using reconfigure_result [OF ok b, of 3] f b by (auto simp: waiting_def)
  then show ?thesis
    using second_partial_send_resends [of s reply "[]" 2] by auto
qed

lemma one_byte_sends:
  assumes "write_ok s" and "write_bufs s = [reply]" and "first_write_buf_pos s \<le> 1"
  shows "\<exists>s'. write_answers_loop (replicate k (Wrote 1)) s = Inr (None, s') \<and>
    write_bufs s' = [reply] \<and> length (sent_bytes s') = length (sent_bytes s) + k"
  using assms
proof (induction k arbitrary: s)
  case 0
  then show ?case by simp
next
  case (Suc k)
  let ?s = "s\<lparr>sent_bytes := sent_bytes s @ take 1 (offered s)\<rparr>"
  have l: "length (take 1 (offered s)) = 1"
    using Suc.prems by (auto simp: write_ok_def offered_def SERVER_MAXIOVLEN_def)
  have ok: "write_ok ?s" using Suc.prems by simp
  have "write_bufs ?s = reply # []" using Suc.prems by simp
  then obtain s1 where s1: "reconfigure_write_bufs 1 ?s = Inr s1" "write_ok s1"
    "sent_bytes s1 = sent_bytes ?s" "write_bufs s1 = [reply]" "first_write_buf_pos s1 = 1"
    using reconfigure_result [OF ok, of reply "[]" 1] Suc.prems(2,3) by auto
  then show ?case
    using Suc.IH [OF s1(2,4)] Suc.prems(2) l by auto
qed

text \<open>A socket that takes one byte at a time never gets rid of a reply of 8 bytes: after any number
  of calls \<open>write\<close> is still in its loop with the reply in the queue, and every call has put one
  more byte on the wire.\<close>

theorem one_byte_sends_never_finish:
  "\<exists>s'. write_answers_loop (replicate k (Wrote 1)) (waiting [reply]) = Inr (None, s') \<and>
    write_bufs s' = [reply] \<and> length (sent_bytes s') = k"
proof -
  have "[] \<notin> set [reply]" using reply_nonempty by auto
  then show ?thesis
    using one_byte_sends [OF write_ok_waiting, of "[reply]" k] by (simp add: waiting_def)
qed

text \<open>The answers of a socket that takes whatever it is offered, 64 entries a call.\<close>

function (sequential) full_sends :: "byte list list \<Rightarrow> sendmsg_answer list" where
  "full_sends [] = []"
| "full_sends vs = Wrote (length (concat (take SERVER_MAXIOVLEN vs))) # full_sends (drop SERVER_MAXIOVLEN vs)"
  by pat_completeness auto
termination by (relation "measure length") (auto simp: SERVER_MAXIOVLEN_def)

lemma unsent_whole: "[] \<notin> set vs \<Longrightarrow> unsent (length (concat us)) (us @ vs) = vs"
  by (induction us) (cases vs; auto)+

lemma write_sends_all:
  assumes "write_ok s" and "[] \<notin> set (write_iovec_buf s)"
  shows "\<exists>s'. write_answers_loop (full_sends (write_iovec_buf s)) s = Inr (Some STOP_WRITE_HANDLE, s') \<and>
    write_ok s' \<and> same_reading s s' \<and> write_bufs s' = [] \<and>
    sent_bytes s' = sent_bytes s @ concat (write_iovec_buf s)"
  using assms
proof (induction "write_iovec_buf s" arbitrary: s rule: full_sends.induct)
  case 1
  then have "write_bufs s = []" by (auto simp: write_ok_def split: list.splits)
  then show ?case using 1 by (simp flip: 1(1) add: same_reading_def)
next
  case (2 v vs)
  let ?vs = "write_iovec_buf s" and ?n = "length (offered s)"
  let ?s = "s\<lparr>sent_bytes := sent_bytes s @ take ?n (offered s)\<rparr>"
  obtain b bs where b: "write_bufs s = b # bs"
    using 2(2,3) by (auto simp: write_ok_def split: list.splits)
  have o: "offered s = concat (take SERVER_MAXIOVLEN ?vs)"
    and v: "?vs = drop (first_write_buf_pos s) b # bs"
    using 2(3) b by (simp_all add: offered_def write_ok_def)
  have len: "length b - first_write_buf_pos s \<le> ?n"
    by (simp add: o v SERVER_MAXIOVLEN_def)
  have n0: "0 < ?n" using 2(4) len by (auto simp: v)
  have ok: "write_ok ?s" using 2(3) by simp
  have "write_bufs ?s = b # bs" using b by simp
  then obtain s1 where s1: "reconfigure_write_bufs ?n ?s = Inr s1" "write_ok s1" "same_reading ?s s1"
    "sent_bytes s1 = sent_bytes ?s" "write_iovec_buf s1 = unsent ?n ?vs"
    using reconfigure_result [OF ok _ n0] len by fastforce
  have "[] \<notin> set (drop SERVER_MAXIOVLEN ?vs)" using 2(4) by (meson in_set_dropD)
  then have iov: "write_iovec_buf s1 = drop SERVER_MAXIOVLEN ?vs"
    using unsent_whole [of "drop SERVER_MAXIOVLEN ?vs" "take SERVER_MAXIOVLEN ?vs"] by (simp add: s1(5) o)
  have ne: "[] \<notin> set (write_iovec_buf s1)" using 2(4) by (metis iov in_set_dropD)
  obtain s' where s': "write_answers_loop (full_sends (write_iovec_buf s1)) s1 = Inr (Some STOP_WRITE_HANDLE, s')"
    "write_ok s'" "same_reading s1 s'" "write_bufs s' = []"
    "sent_bytes s' = sent_bytes s1 @ concat (write_iovec_buf s1)"
    using 2(1) [of s1] iov s1(2) ne by (auto simp flip: 2(2))
  have "full_sends ?vs = Wrote ?n # full_sends (write_iovec_buf s1)"
    by (simp add: o iov v)
  moreover have "sent_bytes s' = sent_bytes s @ concat ?vs"
    by (simp add: s'(5) s1(4) iov o flip: concat_append)
  moreover have "same_reading s s'" using s1(3) s'(3) by (simp add: same_reading_def)
  ultimately show ?case
    using s' s1(1) b n0 by auto
qed
lemma connection_ok_nonempty:
  assumes "connection_ok s"
  shows "[] \<notin> set (write_iovec_buf s)"
proof (cases "write_bufs s")
  case (Cons b bs)
  then show ?thesis
    using assms reply_nonempty by (auto simp: connection_ok_def write_ok_def)
qed (use assms in \<open>simp add: connection_ok_def write_ok_def\<close>)

text \<open>C13: \<open>write\<close> on a socket that takes what it is offered, at most 64 entries a call: it sends every
  waiting byte once and in order, asks to stop writing with the queue empty, needs one call per 64
  entries, and leaves the reading side alone.\<close>

theorem write_drains_queue:
  assumes "connection_ok s"
  shows "\<exists>s'. write_answers_loop (full_sends (write_iovec_buf s)) s = Inr (Some STOP_WRITE_HANDLE, s') \<and>
    connection_ok s' \<and> write_bufs s' = [] \<and> incomplete_line s' = incomplete_line s \<and>
    sent_bytes s' = sent_bytes s @ concat (write_iovec_buf s) \<and>
    length (full_sends (write_iovec_buf s)) = (length (write_iovec_buf s) + 63) div 64"
proof -
  have calls: "length (full_sends vs) = (length vs + 63) div 64" for vs
  proof (induction vs rule: full_sends.induct)
    case (2 v vs)
    show ?case
    proof (cases "length vs < 64")
      case True
      then have "drop SERVER_MAXIOVLEN (v # vs) = []" by (simp add: SERVER_MAXIOVLEN_def)
      then show ?thesis using True by simp
    next
      case False
      then obtain k where "length vs = 64 + k" by (metis le_Suc_ex not_less)
      then show ?thesis using 2 by (simp add: SERVER_MAXIOVLEN_def)
    qed
  qed simp
  obtain s' where "write_answers_loop (full_sends (write_iovec_buf s)) s = Inr (Some STOP_WRITE_HANDLE, s')"
    "write_ok s'" "same_reading s s'" "write_bufs s' = []"
    "sent_bytes s' = sent_bytes s @ concat (write_iovec_buf s)"
    using write_sends_all [OF connection_okD(3) [OF assms] connection_ok_nonempty [OF assms]] by blast
  then show ?thesis
    using calls assms
    by (intro exI [of _ s'])
      (simp add: connection_ok_def positions_ok_def same_reading_def incomplete_line_def)
qed

theorem write_drains_queue_witness:
  "\<exists>s'. write_answers_loop (full_sends (replicate 100 reply)) (waiting (replicate 100 reply)) =
      Inr (Some STOP_WRITE_HANDLE, s') \<and> write_bufs s' = [] \<and>
    length (full_sends (replicate 100 reply)) = 2"
proof -
  have w: "write_ok (waiting (replicate 100 reply))"
    using reply_nonempty by (intro write_ok_waiting) auto
  then have "connection_ok (waiting (replicate 100 reply))"
    by (simp add: connection_ok_def positions_ok_def incomplete_line_def)
      (simp add: waiting_def)
  then show ?thesis
    using write_drains_queue [of "waiting (replicate 100 reply)"]
    by (simp add: waiting_def) blast
qed

text \<open>A peer that sends a line and closes before its answer is out. \<open>read\<close> closes the read side
  and starts writing, \<open>write\<close> sends everything and stops writing; the holder is then closed for
  reading, not closed for writing, and armed for neither, so that no further round is asked for and
  the connection is not taken out of the poller.\<close>

theorem peer_close_leaves_connection_open:
  assumes "connection_ok s" and "\<forall>d \<in> set ds. d \<noteq> [] \<and> length d \<le> READ_BLOCK_SIZE"
    and "write_bufs s \<noteq> [] \<or> newline \<in> set (concat ds)" and "\<not> write_closed h"
  shows "\<exists>w1 s1 w2 s2 h'. read_lines (map Received ds @ [Received []]) s = Inr (Some w1, s1) \<and>
    write_answers_loop (full_sends (write_iovec_buf s1)) s1 = Inr (Some w2, s2) \<and> write_bufs s2 = [] \<and>
    h' = snd (apply_state_modify (snd (apply_state_modify h w1)) w2) \<and>
    read_closed h' \<and> \<not> write_closed h' \<and> \<not> handle_read h' \<and> \<not> handle_write h'"
proof -
  obtain s0 where a: "answered s (concat ds) s0" and
    r: "\<forall>as. read_lines (map Received ds @ as) s = read_lines as s0"
    using read_lines_blocks [OF assms(1,2)] by auto
  let ?s1 = "prepare_block s0" and ?w1 = "CLOSE_READ_HANDLE OR START_WRITE_HANDLE"
  have ok: "connection_ok ?s1" and b1: "write_bufs ?s1 = write_bufs s0"
    using a by (auto simp: answered_def connection_ok_prepare) (simp add: prepare_block_def)
  have "write_bufs s0 \<noteq> []"
    using a assms(3) by (auto simp: answered_def count_list_0_iff)
  then have read: "read_lines (map Received ds @ [Received []]) s = Inr (Some ?w1, ?s1)"
    using r b1 by (simp add: Let_def)
  obtain s2 where sent: "write_answers_loop (full_sends (write_iovec_buf ?s1)) ?s1 =
      Inr (Some STOP_WRITE_HANDLE, s2)" "write_bufs s2 = []"
    using write_sends_all [OF connection_okD(3) [OF ok] connection_ok_nonempty [OF ok]] by blast
  have f: "flag_set ?w1 CLOSE_READ_HANDLE" "\<not> flag_set ?w1 CLOSE_WRITE_HANDLE"
    "flag_set ?w1 START_WRITE_HANDLE" "\<not> flag_set STOP_WRITE_HANDLE CLOSE_READ_HANDLE"
    "\<not> flag_set STOP_WRITE_HANDLE CLOSE_WRITE_HANDLE" "\<not> flag_set STOP_WRITE_HANDLE START_READ_HANDLE"
    "\<not> flag_set STOP_WRITE_HANDLE START_WRITE_HANDLE" "flag_set STOP_WRITE_HANDLE STOP_WRITE_HANDLE"
    by (simp_all add: flag_set_def state_change_defs)
  show ?thesis
    using read sent assms(4) f
    by - (rule exI [of _ ?w1], rule exI [of _ ?s1], rule exI [of _ STOP_WRITE_HANDLE],
        rule exI [of _ s2], simp)
qed

theorem peer_close_leaves_connection_open_witness:
  "\<exists>w1 s1 w2 s2 h'. read_lines [Received [newline], Received []] fresh_connection = Inr (Some w1, s1) \<and>
    write_answers_loop (full_sends (write_iovec_buf s1)) s1 = Inr (Some w2, s2) \<and> write_bufs s2 = [] \<and>
    h' = snd (apply_state_modify (snd (apply_state_modify (holder_new 0) w1)) w2) \<and>
    read_closed h' \<and> \<not> write_closed h' \<and> \<not> handle_read h' \<and> \<not> handle_write h'"
proof -
  have "\<forall>d \<in> set [[newline]]. d \<noteq> [] \<and> length d \<le> READ_BLOCK_SIZE"
    by (simp add: READ_BLOCK_SIZE_def)
  then show ?thesis
    using peer_close_leaves_connection_open [OF fresh_connection_ok, of "[[newline]]" "holder_new 0"]
    by (simp add: holder_new_def)
qed

end
