(* ===== verification/ServerLoop.thy ===== *)
theory ServerLoop
  imports PollerLinks EchoWrites
begin

section \<open>The echo server on its poller (src/Server/main.cpp on litemq/DescriptorHandlerPoller.cpp)\<close>

text \<open>
  \<open>HashConnectionDescriptorHandler\<close> as a handler of the poller: the two are composed as the program composes them,
  through the virtual functions \<open>fd\<close>, \<open>read\<close>, \<open>write\<close> and \<open>stopped\<close>. What the socket has to read at each event is kept
  with the handler; after it \<open>read\<close> is told \<open>EAGAIN\<close>. What \<open>sendmsg\<close> answers is a parameter that may depend on the
  connection, and after those answers the socket would block.

  The theorems follow one thread through \<open>process_\<close>, \<open>handle_\<close>, \<open>read\<close> and \<open>write\<close> over any number of events: every
  line is answered, however the input is cut into events and reads; a connection closed by its peer is removed
  when nothing waits to be sent, and kept for ever otherwise.
\<close>

subsection \<open>The handler\<close>

record echo_peer =
  conn :: hash_connection
  peer_fd :: int
  inputs :: "receive_answer list list"

definition next_input :: "echo_peer \<Rightarrow> receive_answer list" where
  "next_input peer = (case inputs peer of [] \<Rightarrow> [Nothing_Yet] | as # _ \<Rightarrow> as @ [Nothing_Yet])"

text \<open>The end of the loop of \<open>read\<close> is never reached: the code asserts it.\<close>

definition echo_read :: "echo_peer \<Rightarrow> 64 word call \<times> echo_peer" where
  "echo_read peer =
     (let later = peer\<lparr>inputs := tl (inputs peer)\<rparr> in
      case read_lines (next_input peer) (conn peer) of
        Inl x \<Rightarrow> (Fault x, later)
      | Inr (None, s) \<Rightarrow> (Fault Assertion_Failed, later\<lparr>conn := s\<rparr>)
      | Inr (Some w, s) \<Rightarrow> (Return w, later\<lparr>conn := s\<rparr>))"

definition echo_write :: "(hash_connection \<Rightarrow> sendmsg_answer list) \<Rightarrow> echo_peer \<Rightarrow> 64 word call \<times> echo_peer" where
  "echo_write sends peer =
     (case write_answers_loop (sends (conn peer) @ [Write_Would_Block]) (conn peer) of
        Inl x \<Rightarrow> (Fault x, peer)
      | Inr (None, s) \<Rightarrow> (Return CONTINUE_HANDLE, peer\<lparr>conn := s\<rparr>)
      | Inr (Some w, s) \<Rightarrow> (Return w, peer\<lparr>conn := s\<rparr>))"

definition echo_class :: "(hash_connection \<Rightarrow> sendmsg_answer list) \<Rightarrow> echo_peer handler_class" where
  "echo_class sends = \<lparr>vfd = peer_fd, vread = echo_read, vwrite = echo_write sends, vstopped = id\<rparr>"

lemma echo_class_simps [simp]:
  "vfd (echo_class sends) = peer_fd" "vread (echo_class sends) = echo_read"
  "vwrite (echo_class sends) = echo_write sends" "vstopped (echo_class sends) = id"
  by (simp_all add: echo_class_def)

text \<open>A socket that takes whatever it is offered.\<close>

definition willing :: "hash_connection \<Rightarrow> sendmsg_answer list" where
  "willing s = full_sends (write_iovec_buf s)"

subsection \<open>One round\<close>

lemma write_answers_loop_append:
  "write_answers_loop as s = Inr (Some w, s') \<Longrightarrow> write_answers_loop (as @ bs) s = Inr (Some w, s')"
proof (induction as s rule: write_answers_loop.induct)
  case (1 s)
  then show ?case by (cases bs) (auto split: if_splits)
next
  case (2 a as s)
  then show ?case by (auto simp: bind_sum_Inr_iff split: if_splits sendmsg_answer.splits)
qed

lemma echo_write_willing:
  assumes "connection_ok (conn peer)"
  obtains s' where "echo_write willing peer = (Return STOP_WRITE_HANDLE, peer\<lparr>conn := s'\<rparr>)"
    and "connection_ok s'" and "write_bufs s' = []" and "incomplete_line s' = incomplete_line (conn peer)"
    and "sent_bytes s' = sent_bytes (conn peer) @ concat (write_iovec_buf (conn peer))"
proof -
  obtain s' where s': "write_answers_loop (full_sends (write_iovec_buf (conn peer))) (conn peer) = Inr (Some STOP_WRITE_HANDLE, s')"
    "write_ok s'" "same_reading (conn peer) s'" "write_bufs s' = []"
    "sent_bytes s' = sent_bytes (conn peer) @ concat (write_iovec_buf (conn peer))"
    using write_sends_all [OF connection_okD(3) [OF assms] connection_ok_nonempty [OF assms]] by blast
  then show thesis
    using assms write_answers_loop_append [OF s'(1)]
    by (intro that [of s'])
      (simp_all add: echo_write_def willing_def connection_ok_def positions_ok_def same_reading_def incomplete_line_def)
qed

text \<open>Blocks the socket can deliver in one event.\<close>

definition blocks_ok :: "byte list list \<Rightarrow> bool" where
  "blocks_ok ds \<longleftrightarrow> (\<forall>d \<in> set ds. d \<noteq> [] \<and> length d \<le> READ_BLOCK_SIZE)"

lemma answered_prepared:
  assumes "answered s bs s'"
  shows "answered s bs (prepare_block s')"
  using answered_trans [OF assms answered_prepare, of] assms by (simp add: answered_def)

text \<open>What an event with input does to the connection: the lines are answered, and everything is sent.\<close>

definition served :: "hash_connection \<Rightarrow> byte list \<Rightarrow> hash_connection \<Rightarrow> bool" where
  "served s bs s' \<longleftrightarrow>
     connection_ok s' \<and> write_bufs s' = [] \<and> incomplete_line s' = last_line (incomplete_line s @ bs) \<and>
     sent_bytes s' = sent_bytes s @ concat (replicate (count_list bs newline) reply)"

lemma idle_write: "connection_ok s \<Longrightarrow> write_bufs s = [] \<Longrightarrow> write_iovec_buf s = []"
  by (simp add: connection_ok_def write_ok_def)

lemma served_trans: "served s bs s' \<Longrightarrow> served s' cs s'' \<Longrightarrow> served s (bs @ cs) s''"
  by (simp add: served_def last_line_append replicate_add flip: append_assoc)

lemma server_flags:
  "\<not> flag_set START_WRITE_HANDLE CLOSE_READ_HANDLE" "\<not> flag_set START_WRITE_HANDLE CLOSE_WRITE_HANDLE"
  "\<not> flag_set START_WRITE_HANDLE START_READ_HANDLE" "\<not> flag_set START_WRITE_HANDLE STOP_READ_HANDLE"
  "flag_set START_WRITE_HANDLE START_WRITE_HANDLE" "\<not> flag_set START_WRITE_HANDLE STOP_PROCESSING"
  "\<not> flag_set STOP_WRITE_HANDLE CLOSE_READ_HANDLE" "\<not> flag_set STOP_WRITE_HANDLE CLOSE_WRITE_HANDLE"
  "\<not> flag_set STOP_WRITE_HANDLE START_READ_HANDLE" "\<not> flag_set STOP_WRITE_HANDLE STOP_READ_HANDLE"
  "\<not> flag_set STOP_WRITE_HANDLE START_WRITE_HANDLE" "flag_set STOP_WRITE_HANDLE STOP_WRITE_HANDLE"
  "\<not> flag_set STOP_WRITE_HANDLE STOP_PROCESSING"
  by (simp_all add: flag_set_def state_change_defs)

text \<open>The round of an event: \<open>read\<close>, and \<open>write\<close> in the same round when there is something to answer.\<close>

lemma echo_round:
  assumes "handle_read (holders p hid)" and "connection_ok (conn (objects p d))" and "write_bufs (conn (objects p d)) = []"
    and "inputs (objects p d) = map Received ds # rest" and "blocks_ok ds"
  obtains p1 s' where "round_parts (echo_class willing) hid d p = (Return False, p1)"
    and "objects p1 = (objects p)(d := (objects p d)\<lparr>inputs := rest, conn := s'\<rparr>)"
    and "served (conn (objects p d)) (concat ds) s'"
    and "handle_read (holders p1 hid)" and "\<not> handle_write (holders p1 hid)"
    and "read_closed (holders p1 hid) = read_closed (holders p hid)"
    and "write_closed (holders p1 hid) = write_closed (holders p hid)"
proof -
  let ?peer = "objects p d" and ?s = "conn (objects p d)"
  have "\<forall>d \<in> set ds. d \<noteq> [] \<and> length d \<le> READ_BLOCK_SIZE" using assms(5) by (simp add: blocks_ok_def)
  then obtain s0 where s0: "answered ?s (concat ds) s0" "\<And>as. read_lines (map Received ds @ as) ?s = read_lines as s0"
    using read_lines_blocks [OF assms(2)] by metis
  let ?s1 = "prepare_block s0"
  have a: "answered ?s (concat ds) ?s1" by (rule answered_prepared [OF s0(1)])
  have iov: "write_iovec_buf ?s1 = replicate (count_list (concat ds) newline) reply"
    and bufs: "write_bufs ?s1 = replicate (count_list (concat ds) newline) reply"
    using a idle_write [OF assms(2,3)] assms(3) by (simp_all add: answered_def)
  define w where "w = (if write_bufs ?s1 \<noteq> [] then START_WRITE_HANDLE else STOP_WRITE_HANDLE)"
  have same: "write_bufs s0 = write_bufs ?s1" by (simp add: prepare_block_def)
  let ?peer1 = "?peer\<lparr>inputs := rest, conn := ?s1\<rparr>"
  have read: "echo_read ?peer = (Return w, ?peer1)"
    by (simp add: echo_read_def next_input_def assms(4) s0(2) Let_def w_def same)
  let ?p1 = "set_holder hid (snd (apply_state_modify (holders p hid) w)) (p\<lparr>objects := (objects p)(d := ?peer1)\<rparr>)"
  have r: "handle_read_part (echo_class willing) hid d p = (Return False, ?p1)"
    using assms(1) call_handler_return [of echo_read p d w ?peer1 hid] read
    by (simp add: handle_read_part_def w_def server_flags)
  have h1: "handle_read (holders ?p1 hid)" "handle_write (holders ?p1 hid) \<longleftrightarrow> write_bufs ?s1 \<noteq> []"
    "read_closed (holders ?p1 hid) = read_closed (holders p hid)"
    "write_closed (holders ?p1 hid) = write_closed (holders p hid)"
    using assms(1) by (simp_all add: set_holder_def w_def server_flags)
  have ok: "connection_ok (conn ?peer1)" using a by (simp add: answered_def)
  show thesis
  proof (cases "write_bufs ?s1 = []")
    case True
    then have "count_list (concat ds) newline = 0" using bufs by (cases "count_list (concat ds) newline") simp_all
    then have "served ?s (concat ds) ?s1" using a True by (simp add: served_def answered_def)
    moreover have "round_parts (echo_class willing) hid d p = (Return False, ?p1)"
      using r h1(2) True by (simp add: round_parts_def handle_write_part_def)
    ultimately show thesis using h1 True by (intro that [of ?p1 ?s1]) (simp_all add: set_holder_def)
  next
    case False
    obtain s' where s': "echo_write willing ?peer1 = (Return STOP_WRITE_HANDLE, ?peer1\<lparr>conn := s'\<rparr>)"
      "connection_ok s'" "write_bufs s' = []" "incomplete_line s' = incomplete_line ?s1"
      "sent_bytes s' = sent_bytes ?s1 @ concat (write_iovec_buf ?s1)"
      using echo_write_willing [OF ok] by auto
    let ?p2 = "set_holder hid (snd (apply_state_modify (holders ?p1 hid) STOP_WRITE_HANDLE))
      (?p1\<lparr>objects := (objects ?p1)(d := ?peer1\<lparr>conn := s'\<rparr>)\<rparr>)"
    have "objects ?p1 d = ?peer1" by (simp add: set_holder_def)
    then have "call_handler (echo_write willing) hid d ?p1 = (Return False, ?p2)"
      using call_handler_return [of "echo_write willing" ?p1 d STOP_WRITE_HANDLE "?peer1\<lparr>conn := s'\<rparr>" hid] s'(1)
      by (simp add: server_flags)
    then have "round_parts (echo_class willing) hid d p = (Return False, ?p2)"
      using r h1(2) False by (simp add: round_parts_def handle_write_part_def)
    moreover have "served ?s (concat ds) s'"
      using s' a iov by (simp add: served_def answered_def)
    ultimately show thesis
      using h1 by (intro that [of ?p2 s']) (simp_all add: set_holder_def server_flags)
  qed
qed

subsection \<open>Sessions\<close>

text \<open>A connection of the poller between two events: open, armed for reading, with nothing left to send.\<close>

definition echo_idle :: "nat \<Rightarrow> nat \<Rightarrow> echo_peer poller \<Rightarrow> bool" where
  "echo_idle hid d p \<longleftrightarrow>
     connection_ok (conn (objects p d)) \<and> write_bufs (conn (objects p d)) = [] \<and>
     descriptor_handler (holders p hid) = Some d \<and> handle_read (holders p hid) \<and>
     \<not> read_closed (holders p hid) \<and> \<not> write_closed (holders p hid) \<and>
     handle_in_progress (holders p hid) = 0 \<and> handling_finished (holders p hid) = 0 \<and>
     cleaner_inv (poller_cleaner p)"

text \<open>One event served by \<open>handle_\<close>.\<close>

lemma handle_serves:
  assumes "echo_idle hid d p" and "inputs (objects p d) = map Received ds # rest" and "blocks_ok ds"
    and "thread_i < length (release_array (poller_cleaner p))"
    and "\<forall>log request. ctl_ok log request" and "0 < fuel"
  obtains p' where "handle fuel (echo_class willing) ctl_ok thread_i hid [] p = (Some (Return False), p')"
    and "echo_idle hid d p'" and "inputs (objects p' d) = rest" and "peer_fd (objects p' d) = peer_fd (objects p d)"
    and "served (conn (objects p d)) (concat ds) (conn (objects p' d))"
    and "epoll_log p' = epoll_log p @ [Epoll_Mod (peer_fd (objects p d)) hid (armed_events True False)]"
    and "length (release_array (poller_cleaner p')) = length (release_array (poller_cleaner p))"
    and "handlers p' = handlers p" and "\<And>x. x \<noteq> d \<Longrightarrow> objects p' x = objects p x"
    and "\<And>x. x \<noteq> hid \<Longrightarrow> holders p' x = holders p x"
proof -
  let ?p0 = "add_in_progress 1 hid p"
  have i: "connection_ok (conn (objects p d))" "write_bufs (conn (objects p d)) = []"
    "descriptor_handler (holders p hid) = Some d" "handle_read (holders p hid)"
    "\<not> read_closed (holders p hid)" "\<not> write_closed (holders p hid)"
    "handle_in_progress (holders p hid) = 0" "handling_finished (holders p hid) = 0"
    "cleaner_inv (poller_cleaner p)"
    using assms(1) unfolding echo_idle_def by blast+
  obtain p1 s' where p1: "round_parts (echo_class willing) hid d ?p0 = (Return False, p1)"
    "objects p1 = (objects p)(d := (objects p d)\<lparr>inputs := rest, conn := s'\<rparr>)"
    "served (conn (objects p d)) (concat ds) s'" "handle_read (holders p1 hid)" "\<not> handle_write (holders p1 hid)"
    "\<not> read_closed (holders p1 hid)" "\<not> write_closed (holders p1 hid)"
    using echo_round [of ?p0 hid d ds rest] i assms(2,3) by auto
  have opened: "\<not> closed_both (holders p1 hid)" using p1(6) by (simp add: closed_both_def)
  obtain p' where p': "handle fuel (echo_class willing) ctl_ok thread_i hid [] p = (Some (Return False), p')"
    "objects p' = objects p1" "holders p' = (holders p1)(hid := (holders p1 hid)\<lparr>handle_in_progress := 0\<rparr>)"
    "epoll_log p' = epoll_log p @ [Epoll_Mod (peer_fd (objects p1 d)) hid
      (armed_events (handle_read (holders p1 hid)) (handle_write (holders p1 hid)))]"
    "handlers p' = handlers p" "cleaner_inv (poller_cleaner p')"
    "length (release_array (poller_cleaner p')) = length (release_array (poller_cleaner p))"
    using handle_single_round [OF i(3,7,8) p1(1) opened assms(6) i(9) assms(4,5)] by (metis echo_class_simps(1))
  have k: "descriptor_handler (holders p1 hid) = Some d" "handling_finished (holders p1 hid) = 0"
    "\<And>x. x \<noteq> hid \<Longrightarrow> holders p1 x = holders p x"
    using round_parts_touches [of hid d ?p0 "echo_class willing"] p1(1) i
    by (simp_all add: touches_def add_in_progress_def set_holder_def)
  then have "echo_idle hid d p'"
    using p1 p' by (simp add: echo_idle_def served_def)
  then show thesis using p1 p' k(3) by (intro that [of p']) simp_all
qed

text \<open>The events of one connection, one after the other, each with the blocks it brings.\<close>

definition one_event_each :: "nat \<Rightarrow> byte list list list \<Rightarrow> wait_answer list" where
  "one_event_each hid dss = map (\<lambda>_. Wait_Events [(hid, [])]) dss"

text \<open>The echo server end to end: whatever the number of events and however the bytes of a client are cut into
  events and reads, the thread that serves its connection sends one answer for each line it has read, in the same
  event, keeps the beginning of the last line for later, and arms the descriptor for reading again after each event.
  No other connection of the poller is touched.\<close>

theorem server_answers_every_line:
  assumes "echo_idle hid d p" and "inputs (objects p d) = map (map Received) dss @ rest" and "\<forall>ds \<in> set dss. blocks_ok ds"
    and "thread_i < length (release_array (poller_cleaner p))"
    and "\<forall>log request. ctl_ok log request" and "0 < fuel"
  shows "\<exists>p'. process fuel (echo_class willing) ctl_ok thread_i (one_event_each hid dss) p = (Some Process_Waiting, p') \<and>
    echo_idle hid d p' \<and> inputs (objects p' d) = rest \<and>
    sent_bytes (conn (objects p' d)) = sent_bytes (conn (objects p d)) @
      concat (replicate (count_list (concat (concat dss)) newline) reply) \<and>
    incomplete_line (conn (objects p' d)) = last_line (incomplete_line (conn (objects p d)) @ concat (concat dss)) \<and>
    epoll_log p' = epoll_log p @ replicate (length dss) (Epoll_Mod (peer_fd (objects p d)) hid (armed_events True False)) \<and>
    (\<forall>x. x \<noteq> d \<longrightarrow> objects p' x = objects p x)"
  using assms(1-4)
proof (induction dss arbitrary: p)
  case Nil
  then have "newline \<notin> set (incomplete_line (conn (objects p d)))"
    by (simp add: echo_idle_def connection_ok_def)
  then show ?case using Nil by (simp add: one_event_each_def last_line_no_newline)
next
  case (Cons ds dss)
  have "inputs (objects p d) = map Received ds # (map (map Received) dss @ rest)" and "blocks_ok ds"
    using Cons.prems(2,3) by simp_all
  then obtain p1 where p1: "handle fuel (echo_class willing) ctl_ok thread_i hid [] p = (Some (Return False), p1)"
    "echo_idle hid d p1" "inputs (objects p1 d) = map (map Received) dss @ rest"
    "peer_fd (objects p1 d) = peer_fd (objects p d)"
    "served (conn (objects p d)) (concat ds) (conn (objects p1 d))"
    "epoll_log p1 = epoll_log p @ [Epoll_Mod (peer_fd (objects p d)) hid (armed_events True False)]"
    "length (release_array (poller_cleaner p1)) = length (release_array (poller_cleaner p))"
    "\<forall>x. x \<noteq> d \<longrightarrow> objects p1 x = objects p x"
    using handle_serves [OF Cons.prems(1) _ _ Cons.prems(4) assms(5,6)] by metis
  have inv: "cleaner_inv (poller_cleaner p1)" using p1(2) by (simp add: echo_idle_def)
  obtain c where c: "release_thread thread_i p1 = (Return (), p1\<lparr>poller_cleaner := c\<rparr>)" "cleaner_inv c"
    "length (release_array c) = length (release_array (poller_cleaner p1))"
    using release_thread_ok [OF inv] p1(7) Cons.prems(4) by metis
  let ?p2 = "p1\<lparr>poller_cleaner := c\<rparr>"
  have step: "process fuel (echo_class willing) ctl_ok thread_i (one_event_each hid (ds # dss)) p =
      process fuel (echo_class willing) ctl_ok thread_i (one_event_each hid dss) ?p2"
    using p1(1) c(1) by (simp add: one_event_each_def)
  have idle: "echo_idle hid d ?p2" using p1(2) c(2) by (simp add: echo_idle_def)
  have "inputs (objects ?p2 d) = map (map Received) dss @ rest" "\<forall>ds \<in> set dss. blocks_ok ds"
    "thread_i < length (release_array (poller_cleaner ?p2))"
    using p1(3,7) c(3) Cons.prems(3,4) by simp_all
  from Cons.IH [OF idle this] obtain p' where
    "process fuel (echo_class willing) ctl_ok thread_i (one_event_each hid dss) ?p2 = (Some Process_Waiting, p')"
    "echo_idle hid d p'" "inputs (objects p' d) = rest"
    "sent_bytes (conn (objects p' d)) = sent_bytes (conn (objects p1 d)) @
      concat (replicate (count_list (concat (concat dss)) newline) reply)"
    "incomplete_line (conn (objects p' d)) = last_line (incomplete_line (conn (objects p1 d)) @ concat (concat dss))"
    "epoll_log p' = epoll_log p1 @ replicate (length dss) (Epoll_Mod (peer_fd (objects p1 d)) hid (armed_events True False))"
    "\<forall>x. x \<noteq> d \<longrightarrow> objects p' x = objects p1 x"
    by auto
  then show ?case
    unfolding step using p1(4,5,6,8)
    by (intro exI [of _ p']) (simp add: served_def last_line_append replicate_add)
qed

text \<open>A poller of two threads with one fresh connection.\<close>

definition echo_start :: "receive_answer list list \<Rightarrow> echo_peer poller" where
  "echo_start as = snd (poller_new (echo_class willing) (\<lambda>_ _. True) 2
     (\<lambda>_. \<lparr>conn = fresh_connection, peer_fd = 7, inputs = as\<rparr>) 3)"

lemma echo_start_state:
  "echo_idle 0 3 (echo_start as)" "inputs (objects (echo_start as) 3) = as" "peer_fd (objects (echo_start as) 3) = 7"
  "conn (objects (echo_start as) 3) = fresh_connection" "handlers (echo_start as) 3 = Some 0"
  "length (release_array (poller_cleaner (echo_start as))) = 2"
  using fresh_connection_ok cleaner_new_inv_2
  by (simp_all add: echo_idle_def echo_start_def poller_new_def poller_add_def link_new_holder_def
    epoll_ctl_def holder_new_def set_holder_def Let_def link_holder_def)
    (simp_all add: cleaner_new_def)

theorem server_answers_every_line_witness:
  "\<exists>p'. process 1 (echo_class willing) (\<lambda>_ _. True) 0 (one_event_each 0 [[[104]], [[105, 10], [106, 10, 107]]])
      (echo_start [[Received [104]], [Received [105, 10], Received [106, 10, 107]]]) = (Some Process_Waiting, p') \<and>
    sent_bytes (conn (objects p' 3)) = reply @ reply \<and> incomplete_line (conn (objects p' 3)) = [107]"
proof -
  let ?dss = "[[[104]], [[105, 10], [106, 10, 107]]] :: byte list list list"
  let ?p = "echo_start [[Received [104]], [Received [105, 10], Received [106, 10, 107]]]"
  have "inputs (objects ?p 3) = map (map Received) ?dss @ []" "0 < length (release_array (poller_cleaner ?p))"
    by (simp_all add: echo_start_state)
  moreover have "\<forall>ds \<in> set ?dss. blocks_ok ds" by (simp add: blocks_ok_def READ_BLOCK_SIZE_def)
  ultimately obtain p' where
    "process 1 (echo_class willing) (\<lambda>_ _. True) 0 (one_event_each 0 ?dss) ?p = (Some Process_Waiting, p')"
    "sent_bytes (conn (objects p' 3)) = sent_bytes (conn (objects ?p 3)) @
      concat (replicate (count_list (concat (concat ?dss)) newline) reply)"
    "incomplete_line (conn (objects p' 3)) = last_line (incomplete_line (conn (objects ?p 3)) @ concat (concat ?dss))"
    using server_answers_every_line [OF echo_start_state(1), of _ ?dss "[]" 0 "\<lambda>_ _. True" 1] by auto
  moreover have "count_list (concat (concat ?dss)) newline = 2" "last_line (concat (concat ?dss)) = [107]"
    by (simp_all add: newline_def last_line_def)
  ultimately show ?thesis by (simp add: echo_start_state numeral_2_eq_2 fresh_connection_def incomplete_line_def)
qed

subsection \<open>The end of a connection\<close>

text \<open>\<open>read\<close> of the last blocks and of the end of file.\<close>

lemma echo_read_closed:
  assumes "connection_ok (conn peer)" and "write_bufs (conn peer) = []"
    and "inputs peer = (map Received ds @ [Received []]) # rest" and "blocks_ok ds"
  obtains s' where "answered (conn peer) (concat ds) s'"
    and "echo_read peer = (Return (CLOSE_READ_HANDLE OR (if newline \<in> set (concat ds) then START_WRITE_HANDLE else CLOSE_WRITE_HANDLE)),
      peer\<lparr>inputs := rest, conn := s'\<rparr>)"
proof -
  have "\<forall>d \<in> set ds. d \<noteq> [] \<and> length d \<le> READ_BLOCK_SIZE" using assms(4) by (simp add: blocks_ok_def)
  then obtain s0 where s0: "answered (conn peer) (concat ds) s0"
    "\<And>as. read_lines (map Received ds @ as) (conn peer) = read_lines as s0"
    using read_lines_blocks [OF assms(1)] by metis
  have "write_bufs (prepare_block s0) = replicate (count_list (concat ds) newline) reply"
    using s0(1) assms(2) by (simp add: answered_def) (simp add: prepare_block_def)
  then have "write_bufs (prepare_block s0) \<noteq> [] \<longleftrightarrow> newline \<in> set (concat ds)"
    by (simp add: count_list_0_iff)
  moreover have "write_bufs s0 = write_bufs (prepare_block s0)" by (simp add: prepare_block_def)
  ultimately have "echo_read peer = (Return (CLOSE_READ_HANDLE OR (if newline \<in> set (concat ds) then START_WRITE_HANDLE else CLOSE_WRITE_HANDLE)),
      peer\<lparr>inputs := rest, conn := prepare_block s0\<rparr>)"
    by (simp add: echo_read_def next_input_def assms(3) s0(2) Let_def)
  with answered_prepared [OF s0(1)] show thesis by (rule that)
qed

lemma close_flags:
  "flag_set (CLOSE_READ_HANDLE OR START_WRITE_HANDLE) CLOSE_READ_HANDLE"
  "\<not> flag_set (CLOSE_READ_HANDLE OR START_WRITE_HANDLE) CLOSE_WRITE_HANDLE"
  "flag_set (CLOSE_READ_HANDLE OR START_WRITE_HANDLE) START_WRITE_HANDLE"
  "\<not> flag_set (CLOSE_READ_HANDLE OR START_WRITE_HANDLE) STOP_PROCESSING"
  "flag_set (CLOSE_READ_HANDLE OR CLOSE_WRITE_HANDLE) CLOSE_READ_HANDLE"
  "flag_set (CLOSE_READ_HANDLE OR CLOSE_WRITE_HANDLE) CLOSE_WRITE_HANDLE"
  "\<not> flag_set (CLOSE_READ_HANDLE OR CLOSE_WRITE_HANDLE) STOP_PROCESSING"
  by (simp_all add: flag_set_def state_change_defs)

text \<open>An end of file with nothing to answer: the round closes both sides, with or without a call of \<open>write\<close>.\<close>

lemma closing_echo_round:
  assumes "handle_read (holders p hid)" and "connection_ok (conn (objects p d))" and "write_bufs (conn (objects p d)) = []"
    and "inputs (objects p d) = (map Received ds @ [Received []]) # rest" and "blocks_ok ds" and "newline \<notin> set (concat ds)"
  obtains p1 where "round_parts (echo_class willing) hid d p = (Return False, p1)" and "closed_both (holders p1 hid)"
    and "peer_fd (objects p1 d) = peer_fd (objects p d)" and "sent_bytes (conn (objects p1 d)) = sent_bytes (conn (objects p d))"
proof -
  obtain s1 where s1: "answered (conn (objects p d)) (concat ds) s1"
    and read: "echo_read (objects p d) = (Return (CLOSE_READ_HANDLE OR CLOSE_WRITE_HANDLE), (objects p d)\<lparr>inputs := rest, conn := s1\<rparr>)"
    using echo_read_closed [OF assms(2-5)] assms(6) by auto
  let ?w = "CLOSE_READ_HANDLE OR CLOSE_WRITE_HANDLE" and ?peer1 = "(objects p d)\<lparr>inputs := rest, conn := s1\<rparr>"
  let ?p1 = "set_holder hid (snd (apply_state_modify (holders p hid) ?w)) (p\<lparr>objects := (objects p)(d := ?peer1)\<rparr>)"
  have r: "handle_read_part (echo_class willing) hid d p = (Return False, ?p1)"
    using assms(1) call_handler_return [of echo_read p d ?w ?peer1 hid] read by (simp add: handle_read_part_def close_flags)
  have closed: "closed_both (holders ?p1 hid)" by (simp add: closed_both_def set_holder_def close_flags)
  have s: "connection_ok s1" "write_bufs s1 = []" "sent_bytes s1 = sent_bytes (conn (objects p d))"
    using s1 assms(3,6) by (simp_all add: answered_def)
  have o1: "objects ?p1 d = ?peer1" by (simp add: set_holder_def)
  show thesis
  proof (cases "handle_write (holders ?p1 hid)")
    case False
    then show thesis using r closed s(3) by (intro that [of ?p1]) (simp_all add: round_parts_def handle_write_part_def o1)
  next
    case True
    let ?p2 = "set_holder hid (snd (apply_state_modify (holders ?p1 hid) STOP_WRITE_HANDLE))
      (?p1\<lparr>objects := (objects ?p1)(d := ?peer1)\<rparr>)"
    have "echo_write willing (objects ?p1 d) = (Return STOP_WRITE_HANDLE, ?peer1)"
      using s(2) idle_write [OF s(1,2)] unfolding o1 by (simp add: echo_write_def willing_def)
    then have "call_handler (echo_write willing) hid d ?p1 = (Return False, ?p2)"
      using call_handler_return [of "echo_write willing" ?p1 d STOP_WRITE_HANDLE ?peer1 hid] by (simp add: server_flags)
    then have "round_parts (echo_class willing) hid d p = (Return False, ?p2)"
      using r True by (simp add: round_parts_def handle_write_part_def)
    moreover have "closed_both (holders ?p2 hid)"
      using closed by (simp add: closed_both_def set_holder_def)
    ultimately show thesis using s(3) by (intro that [of ?p2]) (simp_all add: set_holder_def)
  qed
qed

text \<open>A connection that its peer closes while nothing waits to be sent is removed with that event: its
  descriptor leaves the poll set, its handler the map, and its holder goes to the cleaner; what was sent stays as it
  was.\<close>

theorem server_removes_closed_connection:
  assumes "echo_idle hid d p" and "inputs (objects p d) = (map Received ds @ [Received []]) # rest" and "blocks_ok ds"
    and "newline \<notin> set (concat ds)" and "thread_i < length (release_array (poller_cleaner p))"
    and "\<forall>log request. ctl_ok log request" and "0 < fuel"
  shows "\<exists>p'. handle fuel (echo_class willing) ctl_ok thread_i hid arrivals p = (Some (Return False), p') \<and>
    handlers p' = (handlers p)(d := None) \<and> epoll_log p' = epoll_log p @ [Epoll_Del (peer_fd (objects p d))] \<and>
    descriptor_handler (holders p' hid) = None \<and>
    hid \<in> set (free_candidates (poller_cleaner p')) \<union> set (free (poller_cleaner p')) \<and>
    sent_bytes (conn (objects p' d)) = sent_bytes (conn (objects p d))"
proof -
  let ?p0 = "add_in_progress 1 hid p"
  have i: "connection_ok (conn (objects p d))" "write_bufs (conn (objects p d)) = []"
    "descriptor_handler (holders p hid) = Some d" "handle_read (holders p hid)"
    "handle_in_progress (holders p hid) = 0" "handling_finished (holders p hid) = 0" "cleaner_inv (poller_cleaner p)"
    using assms(1) unfolding echo_idle_def by blast+
  obtain p1 where p1: "round_parts (echo_class willing) hid d ?p0 = (Return False, p1)" "closed_both (holders p1 hid)"
    "peer_fd (objects p1 d) = peer_fd (objects p d)" "sent_bytes (conn (objects p1 d)) = sent_bytes (conn (objects p d))"
    using closing_echo_round [of ?p0 hid d ds rest] i assms(2-4) by auto
  have "ctl_ok (epoll_log p) (Epoll_Del (vfd (echo_class willing) (objects p1 d)))" using assms(6) by blast
  from handle_closing_round [where ctl_ok = ctl_ok and arrivals = arrivals, OF i(3,5,6) p1(1,2) assms(7) this i(7) assms(5)]
  obtain p' where p': "handle fuel (echo_class willing) ctl_ok thread_i hid arrivals p = (Some (Return False), p')"
    "epoll_log p' = epoll_log p @ [Epoll_Del (vfd (echo_class willing) (objects p1 d))]"
    "handlers p' = (handlers p)(d := None)" "descriptor_handler (holders p' hid) = None"
    "hid \<in> set (free_candidates (poller_cleaner p')) \<union> set (free (poller_cleaner p'))"
    "objects p' = (objects p1)(d := vstopped (echo_class willing) (objects p1 d))"
    by metis
  then show ?thesis using p1(3,4) by auto
qed

theorem server_removes_closed_connection_witness:
  "\<exists>p'. handle 1 (echo_class willing) (\<lambda>_ _. True) 1 0 [] (echo_start [[Received [104], Received []]]) =
      (Some (Return False), p') \<and> handlers p' 3 = None \<and> descriptor_handler (holders p' 0) = None"
proof -
  have "inputs (objects (echo_start [[Received [104], Received []]]) 3) = (map Received [[104]] @ [Received []]) # []"
    by (simp add: echo_start_state)
  moreover have "blocks_ok [[104]]" "newline \<notin> set (concat [[104]])" by (simp_all add: blocks_ok_def READ_BLOCK_SIZE_def newline_def)
  moreover have "1 < length (release_array (poller_cleaner (echo_start [[Received [104], Received []]])))"
    by (simp add: echo_start_state)
  ultimately show ?thesis
    using server_removes_closed_connection [OF echo_start_state(1),
      of "[[Received [104], Received []]]" "[[104]]" "[]" 1 "\<lambda>_ _. True" 1 "[]"] by auto
qed

text \<open>An end of file behind lines that are to be answered: everything is sent, reading is closed, writing stopped.\<close>

lemma half_closing_echo_round:
  assumes "handle_read (holders p hid)" and "connection_ok (conn (objects p d))" and "write_bufs (conn (objects p d)) = []"
    and "inputs (objects p d) = (map Received ds @ [Received []]) # rest" and "blocks_ok ds" and "newline \<in> set (concat ds)"
  obtains p1 s' where "round_parts (echo_class willing) hid d p = (Return False, p1)"
    and "objects p1 = (objects p)(d := (objects p d)\<lparr>inputs := rest, conn := s'\<rparr>)"
    and "served (conn (objects p d)) (concat ds) s'"
    and "\<not> handle_read (holders p1 hid)" and "\<not> handle_write (holders p1 hid)" and "read_closed (holders p1 hid)"
    and "write_closed (holders p1 hid) = write_closed (holders p hid)"
proof -
  obtain s1 where s1: "answered (conn (objects p d)) (concat ds) s1"
    and read: "echo_read (objects p d) = (Return (CLOSE_READ_HANDLE OR START_WRITE_HANDLE), (objects p d)\<lparr>inputs := rest, conn := s1\<rparr>)"
    using echo_read_closed [OF assms(2-5)] assms(6) by auto
  let ?w = "CLOSE_READ_HANDLE OR START_WRITE_HANDLE" and ?peer1 = "(objects p d)\<lparr>inputs := rest, conn := s1\<rparr>"
  let ?p1 = "set_holder hid (snd (apply_state_modify (holders p hid) ?w)) (p\<lparr>objects := (objects p)(d := ?peer1)\<rparr>)"
  have r: "handle_read_part (echo_class willing) hid d p = (Return False, ?p1)"
    using assms(1) call_handler_return [of echo_read p d ?w ?peer1 hid] read by (simp add: handle_read_part_def close_flags)
  have h1: "\<not> handle_read (holders ?p1 hid)" "handle_write (holders ?p1 hid)" "read_closed (holders ?p1 hid)"
    "write_closed (holders ?p1 hid) = write_closed (holders p hid)"
    by (simp_all add: set_holder_def close_flags)
  have o1: "objects ?p1 d = ?peer1" by (simp add: set_holder_def)
  have ok: "connection_ok (conn ?peer1)" using s1 by (simp add: answered_def)
  obtain s' where s': "echo_write willing ?peer1 = (Return STOP_WRITE_HANDLE, ?peer1\<lparr>conn := s'\<rparr>)"
    "connection_ok s'" "write_bufs s' = []" "incomplete_line s' = incomplete_line s1"
    "sent_bytes s' = sent_bytes s1 @ concat (write_iovec_buf s1)"
    using echo_write_willing [OF ok] by auto
  let ?p2 = "set_holder hid (snd (apply_state_modify (holders ?p1 hid) STOP_WRITE_HANDLE))
    (?p1\<lparr>objects := (objects ?p1)(d := ?peer1\<lparr>conn := s'\<rparr>)\<rparr>)"
  have "call_handler (echo_write willing) hid d ?p1 = (Return False, ?p2)"
    using call_handler_return [of "echo_write willing" ?p1 d STOP_WRITE_HANDLE "?peer1\<lparr>conn := s'\<rparr>" hid] s'(1)
    unfolding o1 by (simp add: server_flags)
  then have "round_parts (echo_class willing) hid d p = (Return False, ?p2)"
    using r h1(2) by (simp add: round_parts_def handle_write_part_def)
  moreover have "write_iovec_buf s1 = replicate (count_list (concat ds) newline) reply"
    using s1 idle_write [OF assms(2,3)] by (simp add: answered_def)
  then have "served (conn (objects p d)) (concat ds) s'"
    using s' s1 by (simp add: served_def answered_def)
  ultimately show thesis
    using h1 by (intro that [of ?p2 s']) (simp_all add: set_holder_def server_flags)
qed

text \<open>A holder armed for nothing: an event of its descriptor only arms it for nothing again.\<close>

definition unarmed :: "nat \<Rightarrow> nat \<Rightarrow> 'h poller \<Rightarrow> bool" where
  "unarmed hid d p \<longleftrightarrow>
     descriptor_handler (holders p hid) = Some d \<and> \<not> handle_read (holders p hid) \<and> \<not> handle_write (holders p hid) \<and>
     \<not> write_closed (holders p hid) \<and> handle_in_progress (holders p hid) = 0 \<and>
     handling_finished (holders p hid) = 0 \<and> cleaner_inv (poller_cleaner p)"

lemma process_unarmed:
  assumes "unarmed hid d p" and "thread_i < length (release_array (poller_cleaner p))"
    and "\<forall>log request. ctl_ok log request" and "0 < fuel"
  shows "\<exists>p'. process fuel cls ctl_ok thread_i (replicate n (Wait_Events [(hid, [])])) p = (Some Process_Waiting, p') \<and>
    unarmed hid d p' \<and> objects p' = objects p \<and> handlers p' = handlers p \<and>
    epoll_log p' = epoll_log p @ replicate n (Epoll_Mod (vfd cls (objects p d)) hid (armed_events False False))"
  using assms(1,2)
proof (induction n arbitrary: p)
  case (Suc n)
  have u: "descriptor_handler (holders p hid) = Some d" "handle_in_progress (holders p hid) = 0"
    "handling_finished (holders p hid) = 0" "cleaner_inv (poller_cleaner p)" "\<not> handle_read (holders p hid)"
    "\<not> handle_write (holders p hid)" "\<not> write_closed (holders p hid)"
    using Suc.prems(1) unfolding unarmed_def by blast+
  let ?p0 = "add_in_progress 1 hid p"
  have round: "round_parts cls hid d ?p0 = (Return False, ?p0)"
    using u(5,6) by (simp add: round_parts_def handle_read_part_def handle_write_part_def)
  have opened: "\<not> closed_both (holders ?p0 hid)" using u(7) by (simp add: closed_both_def)
  obtain p1 where raw: "handle fuel cls ctl_ok thread_i hid [] p = (Some (Return False), p1)" "objects p1 = objects ?p0"
    "holders p1 = (holders ?p0)(hid := (holders ?p0 hid)\<lparr>handle_in_progress := 0\<rparr>)"
    "epoll_log p1 = epoll_log p @ [Epoll_Mod (vfd cls (objects ?p0 d)) hid
      (armed_events (handle_read (holders ?p0 hid)) (handle_write (holders ?p0 hid)))]"
    "handlers p1 = handlers p" "cleaner_inv (poller_cleaner p1)"
    "length (release_array (poller_cleaner p1)) = length (release_array (poller_cleaner p))"
    using handle_single_round [OF u(1-3) round opened assms(4) u(4) Suc.prems(2) assms(3)] by blast
  then have p1: "handle fuel cls ctl_ok thread_i hid [] p = (Some (Return False), p1)" "objects p1 = objects p"
    "holders p1 = (holders ?p0)(hid := (holders ?p0 hid)\<lparr>handle_in_progress := 0\<rparr>)"
    "epoll_log p1 = epoll_log p @ [Epoll_Mod (vfd cls (objects p d)) hid (armed_events False False)]"
    "handlers p1 = handlers p" "cleaner_inv (poller_cleaner p1)"
    "length (release_array (poller_cleaner p1)) = length (release_array (poller_cleaner p))"
    using u(5,6) by simp_all
  obtain c where c: "release_thread thread_i p1 = (Return (), p1\<lparr>poller_cleaner := c\<rparr>)" "cleaner_inv c"
    "length (release_array c) = length (release_array (poller_cleaner p1))"
    using release_thread_ok [OF p1(6)] p1(7) Suc.prems(2) by metis
  let ?p2 = "p1\<lparr>poller_cleaner := c\<rparr>"
  have "unarmed hid d ?p2" using u p1(3) c(2) by (simp add: unarmed_def)
  moreover have "thread_i < length (release_array (poller_cleaner ?p2))" using c(3) p1(7) Suc.prems(2) by simp
  ultimately obtain p' where
    "process fuel cls ctl_ok thread_i (replicate n (Wait_Events [(hid, [])])) ?p2 = (Some Process_Waiting, p')"
    "unarmed hid d p'" "objects p' = objects p" "handlers p' = handlers p"
    "epoll_log p' = epoll_log p1 @ replicate n (Epoll_Mod (vfd cls (objects p d)) hid (armed_events False False))"
    using Suc.IH [of ?p2] p1(2,5) by auto
  then show ?case using p1(1,4) c(1) by auto
qed simp

lemma half_closing_handle:
  assumes "echo_idle hid d p" and "inputs (objects p d) = (map Received ds @ [Received []]) # rest" and "blocks_ok ds"
    and "newline \<in> set (concat ds)" and "thread_i < length (release_array (poller_cleaner p))"
    and "\<forall>log request. ctl_ok log request" and "0 < fuel"
  obtains p1 s' where "handle fuel (echo_class willing) ctl_ok thread_i hid [] p = (Some (Return False), p1)"
    "objects p1 = (objects p)(d := (objects p d)\<lparr>inputs := rest, conn := s'\<rparr>)"
    "served (conn (objects p d)) (concat ds) s'" "unarmed hid d p1" "handlers p1 = handlers p"
    "epoll_log p1 = epoll_log p @ [Epoll_Mod (peer_fd (objects p d)) hid (armed_events False False)]"
    "length (release_array (poller_cleaner p1)) = length (release_array (poller_cleaner p))"
proof -
  let ?p0 = "add_in_progress 1 hid p"
  have i: "connection_ok (conn (objects p d))" "write_bufs (conn (objects p d)) = []"
    "descriptor_handler (holders p hid) = Some d" "handle_read (holders p hid)" "\<not> write_closed (holders p hid)"
    "handle_in_progress (holders p hid) = 0" "handling_finished (holders p hid) = 0" "cleaner_inv (poller_cleaner p)"
    using assms(1) unfolding echo_idle_def by blast+
  have pre: "handle_read (holders ?p0 hid)" "connection_ok (conn (objects ?p0 d))" "write_bufs (conn (objects ?p0 d)) = []"
    "inputs (objects ?p0 d) = (map Received ds @ [Received []]) # rest"
    using i assms(2) by simp_all
  obtain q s' where "round_parts (echo_class willing) hid d ?p0 = (Return False, q)"
    "objects q = (objects ?p0)(d := (objects ?p0 d)\<lparr>inputs := rest, conn := s'\<rparr>)"
    "served (conn (objects ?p0 d)) (concat ds) s'" "\<not> handle_read (holders q hid)" "\<not> handle_write (holders q hid)"
    "write_closed (holders q hid) = write_closed (holders ?p0 hid)"
    by (rule half_closing_echo_round [OF pre assms(3,4)])
  then have q: "round_parts (echo_class willing) hid d ?p0 = (Return False, q)"
    "objects q = (objects p)(d := (objects p d)\<lparr>inputs := rest, conn := s'\<rparr>)"
    "served (conn (objects p d)) (concat ds) s'" "\<not> handle_read (holders q hid)" "\<not> handle_write (holders q hid)"
    "\<not> write_closed (holders q hid)"
    using i(5) by simp_all
  have opened: "\<not> closed_both (holders q hid)" using q(6) by (simp add: closed_both_def)
  have k: "descriptor_handler (holders q hid) = Some d" "handling_finished (holders q hid) = 0"
    using round_parts_touches [of hid d ?p0 "echo_class willing"] q(1) i by (simp_all add: touches_def)
  obtain p1 where p1: "handle fuel (echo_class willing) ctl_ok thread_i hid [] p = (Some (Return False), p1)"
    "objects p1 = objects q" "holders p1 = (holders q)(hid := (holders q hid)\<lparr>handle_in_progress := 0\<rparr>)"
    "epoll_log p1 = epoll_log p @ [Epoll_Mod (peer_fd (objects q d)) hid
      (armed_events (handle_read (holders q hid)) (handle_write (holders q hid)))]"
    "handlers p1 = handlers p" "cleaner_inv (poller_cleaner p1)"
    "length (release_array (poller_cleaner p1)) = length (release_array (poller_cleaner p))"
    using handle_single_round [OF i(3,6,7) q(1) opened assms(7) i(8) assms(5,6)] by (metis echo_class_simps(1))
  have "unarmed hid d p1" using q k p1(3,6) by (simp add: unarmed_def)
  then show thesis using that [OF p1(1) _ q(3) _ p1(5) _ p1(7)] p1(2,4) q(2,4,5) by simp
qed

text \<open>C29: A client that sends its last lines and closes is answered, but its connection is never removed: with that
  event the holder is closed for reading, armed for nothing and still open for writing, and every later event of the
  descriptor only arms it for nothing again. The handler stays in the map and its descriptor in the poll set,
  however many events come.\<close>

theorem server_keeps_half_closed_connection:
  assumes "echo_idle hid d p" and "inputs (objects p d) = (map Received ds @ [Received []]) # rest" and "blocks_ok ds"
    and "newline \<in> set (concat ds)" and "thread_i < length (release_array (poller_cleaner p))"
    and "\<forall>log request. ctl_ok log request" and "0 < fuel"
  shows "\<exists>p'. process fuel (echo_class willing) ctl_ok thread_i (replicate (Suc n) (Wait_Events [(hid, [])])) p =
      (Some Process_Waiting, p') \<and>
    served (conn (objects p d)) (concat ds) (conn (objects p' d)) \<and> inputs (objects p' d) = rest \<and>
    unarmed hid d p' \<and> handlers p' = handlers p \<and>
    epoll_log p' = epoll_log p @ replicate (Suc n) (Epoll_Mod (peer_fd (objects p d)) hid (armed_events False False))"
proof -
  obtain p1 s' where p1: "handle fuel (echo_class willing) ctl_ok thread_i hid [] p = (Some (Return False), p1)"
    "objects p1 = (objects p)(d := (objects p d)\<lparr>inputs := rest, conn := s'\<rparr>)"
    "served (conn (objects p d)) (concat ds) s'" "unarmed hid d p1" "handlers p1 = handlers p"
    "epoll_log p1 = epoll_log p @ [Epoll_Mod (peer_fd (objects p d)) hid (armed_events False False)]"
    "length (release_array (poller_cleaner p1)) = length (release_array (poller_cleaner p))"
    by (rule half_closing_handle [OF assms])
  obtain c where c: "release_thread thread_i p1 = (Return (), p1\<lparr>poller_cleaner := c\<rparr>)" "cleaner_inv c"
    "length (release_array c) = length (release_array (poller_cleaner p1))"
    using release_thread_ok [of p1 thread_i] p1(4,7) assms(5) unfolding unarmed_def by metis
  let ?p2 = "p1\<lparr>poller_cleaner := c\<rparr>"
  have "unarmed hid d ?p2" using p1(4) c(2) by (simp add: unarmed_def)
  moreover have "thread_i < length (release_array (poller_cleaner ?p2))" using c(3) p1(7) assms(5) by simp
  ultimately obtain p' where
    "process fuel (echo_class willing) ctl_ok thread_i (replicate n (Wait_Events [(hid, [])])) ?p2 = (Some Process_Waiting, p')"
    "unarmed hid d p'" "objects p' = objects p1" "handlers p' = handlers p"
    "epoll_log p' = epoll_log p1 @ replicate n (Epoll_Mod (peer_fd (objects p d)) hid (armed_events False False))"
    using process_unarmed [of hid d ?p2 thread_i ctl_ok fuel "echo_class willing" n] assms(6,7) p1(2,5) by auto
  then show ?thesis using p1(1,2,3,6) c(1) by auto
qed

theorem server_keeps_half_closed_connection_witness:
  "\<exists>p'. process 1 (echo_class willing) (\<lambda>_ _. True) 0 (replicate (Suc 9) (Wait_Events [(0, [])]))
      (echo_start [[Received [104, 10], Received []]]) = (Some Process_Waiting, p') \<and>
    unarmed 0 3 p' \<and> handlers p' 3 = Some 0 \<and> sent_bytes (conn (objects p' 3)) = reply"
proof -
  let ?p = "echo_start [[Received [104, 10], Received []]]"
  have "inputs (objects ?p 3) = (map Received [[104, 10]] @ [Received []]) # []"
    by (simp add: echo_start_state)
  moreover have "blocks_ok [[104, 10]]" "newline \<in> set (concat [[104, 10]])"
    by (simp_all add: blocks_ok_def READ_BLOCK_SIZE_def newline_def)
  moreover have "0 < length (release_array (poller_cleaner ?p))" by (simp add: echo_start_state)
  ultimately obtain p' where
    "process 1 (echo_class willing) (\<lambda>_ _. True) 0 (replicate (Suc 9) (Wait_Events [(0, [])])) ?p = (Some Process_Waiting, p')"
    "served (conn (objects ?p 3)) (concat [[104, 10]]) (conn (objects p' 3))" "unarmed 0 3 p'" "handlers p' = handlers ?p"
    using server_keeps_half_closed_connection [OF echo_start_state(1),
      of "[[Received [104, 10], Received []]]" "[[104, 10]]" "[]" 0 "\<lambda>_ _. True" 1 9] by auto
  then show ?thesis
    by (auto simp: served_def echo_start_state newline_def fresh_connection_def)
qed

end
