(* ===== verification/ServerClients.thy ===== *)
theory ServerClients
  imports ServerLoop
begin

section \<open>The echo server and all its clients (src/Server/main.cpp on litemq/DescriptorHandlerPoller.cpp)\<close>

text \<open>
  \<open>ServerLoop\<close> follows one connection. Here a poller has any number of them, and its threads take turns: each gets an answer of
  \<open>epoll_wait\<close> with the events of some connections, serves them in order and goes back to waiting. The theorem: each client gets the
  answers to its own lines and to no others, whatever the events of the others are and which thread serves them.
\<close>

text \<open>An event is the holder and the blocks its socket has to read; a round is a thread and the events of its answer.\<close>

type_synonym client_event = "nat \<times> byte list list"

definition brought :: "nat \<Rightarrow> client_event list \<Rightarrow> byte list list list" where
  "brought hid evs = map snd (filter (\<lambda>e. fst e = hid) evs)"

definition round_answer :: "client_event list \<Rightarrow> wait_answer" where
  "round_answer evs = Wait_Events (map (\<lambda>e. (fst e, [])) evs)"

fun rounds_of_threads ::
  "nat \<Rightarrow> epoll_answer \<Rightarrow> (nat \<times> client_event list) list \<Rightarrow> echo_peer poller \<Rightarrow> process_end option \<times> echo_peer poller" where
  "rounds_of_threads fuel ctl_ok [] p = (Some Process_Waiting, p)"
| "rounds_of_threads fuel ctl_ok ((thread_i, evs) # rounds) p =
     (case process fuel (echo_class willing) ctl_ok thread_i [round_answer evs] p of
        (Some Process_Waiting, p1) \<Rightarrow> rounds_of_threads fuel ctl_ok rounds p1
      | r \<Rightarrow> r)"

lemma brought_simps [simp]:
  "brought hid [] = []"
  "brought hid (e # evs) = (if fst e = hid then [snd e] else []) @ brought hid evs"
  "brought hid (evs @ evs') = brought hid evs @ brought hid evs'"
  by (simp_all add: brought_def)

text \<open>The connections are given by their holders; \<open>addr\<close> is the handler of each.\<close>

definition clients_idle :: "nat set \<Rightarrow> (nat \<Rightarrow> nat) \<Rightarrow> echo_peer poller \<Rightarrow> bool" where
  "clients_idle H addr p \<longleftrightarrow> inj_on addr H \<and> cleaner_inv (poller_cleaner p) \<and> (\<forall>hid \<in> H. echo_idle hid (addr hid) p)"

text \<open>What has come of all connections after some events.\<close>

definition all_served ::
  "nat set \<Rightarrow> (nat \<Rightarrow> nat) \<Rightarrow> echo_peer poller \<Rightarrow> (nat \<Rightarrow> byte list list list) \<Rightarrow> echo_peer poller \<Rightarrow> bool" where
  "all_served H addr p bs p' \<longleftrightarrow>
     (\<forall>hid \<in> H. served (conn (objects p (addr hid))) (concat (concat (bs hid))) (conn (objects p' (addr hid))))"

lemma served_refl: "connection_ok s \<Longrightarrow> write_bufs s = [] \<Longrightarrow> served s [] s"
  by (simp add: served_def connection_ok_def last_line_no_newline)

lemma all_served_refl: "clients_idle H addr p \<Longrightarrow> all_served H addr p (\<lambda>_. []) p"
  by (simp add: all_served_def clients_idle_def echo_idle_def served_refl)

lemma all_served_trans:
  "all_served H addr p bs p1 \<Longrightarrow> all_served H addr p1 cs p2 \<Longrightarrow> all_served H addr p (\<lambda>hid. bs hid @ cs hid) p2"
  by (auto simp: all_served_def dest: served_trans)

text \<open>One event.\<close>

lemma client_event_served:
  assumes "clients_idle H addr p" and "hid \<in> H" and "inputs (objects p (addr hid)) = map Received ds # rest" and "blocks_ok ds"
    and "thread_i < length (release_array (poller_cleaner p))"
    and "\<forall>log request. ctl_ok log request" and "0 < fuel"
  obtains p' where "handle fuel (echo_class willing) ctl_ok thread_i hid [] p = (Some (Return False), p')"
    and "clients_idle H addr p'" and "all_served H addr p (\<lambda>h. if h = hid then [ds] else []) p'"
    and "inputs (objects p' (addr hid)) = rest"
    and "\<And>h. h \<in> H \<Longrightarrow> h \<noteq> hid \<Longrightarrow> inputs (objects p' (addr h)) = inputs (objects p (addr h))"
    and "length (release_array (poller_cleaner p')) = length (release_array (poller_cleaner p))"
proof -
  have idle: "echo_idle hid (addr hid) p" using assms(1,2) by (simp add: clients_idle_def)
  obtain p' where p': "handle fuel (echo_class willing) ctl_ok thread_i hid [] p = (Some (Return False), p')"
    "echo_idle hid (addr hid) p'" "inputs (objects p' (addr hid)) = rest"
    "served (conn (objects p (addr hid))) (concat ds) (conn (objects p' (addr hid)))"
    "length (release_array (poller_cleaner p')) = length (release_array (poller_cleaner p))"
    "\<And>x. x \<noteq> addr hid \<Longrightarrow> objects p' x = objects p x" "\<And>x. x \<noteq> hid \<Longrightarrow> holders p' x = holders p x"
    using handle_serves [where ctl_ok = ctl_ok, OF idle assms(3-7)] by metis
  have other: "objects p' (addr h) = objects p (addr h)" "holders p' h = holders p h" if "h \<in> H" "h \<noteq> hid" for h
    using that p'(6,7) assms(1,2) by (auto simp: clients_idle_def dest: inj_onD)
  have "echo_idle h (addr h) p'" if "h \<in> H" for h
  proof (cases "h = hid")
    case False
    then show ?thesis
      using other that p'(2) assms(1) by (simp add: clients_idle_def echo_idle_def)
  qed (use p'(2) in simp)
  then have "clients_idle H addr p'" using assms(1) p'(2) by (simp add: clients_idle_def echo_idle_def)
  moreover have "all_served H addr p (\<lambda>h. if h = hid then [ds] else []) p'"
    using p'(4) other all_served_refl [OF assms(1)] by (auto simp: all_served_def)
  ultimately show thesis using p' other by (intro that [of p']) simp_all
qed

text \<open>The events of one answer.\<close>

lemma client_events_served:
  assumes "clients_idle H addr p" and "\<forall>e \<in> set evs. fst e \<in> H \<and> blocks_ok (snd e)"
    and "\<forall>hid \<in> H. inputs (objects p (addr hid)) = map (map Received) (brought hid evs) @ rest hid"
    and "thread_i < length (release_array (poller_cleaner p))"
    and "\<forall>log request. ctl_ok log request" and "0 < fuel"
  shows "\<exists>p'. process_events fuel (echo_class willing) ctl_ok thread_i (map (\<lambda>e. (fst e, [])) evs) False p =
      (Some (Return False), p') \<and>
    clients_idle H addr p' \<and> all_served H addr p (\<lambda>hid. brought hid evs) p' \<and>
    (\<forall>hid \<in> H. inputs (objects p' (addr hid)) = rest hid) \<and>
    length (release_array (poller_cleaner p')) = length (release_array (poller_cleaner p))"
  using assms(1-4)
proof (induction evs arbitrary: p)
  case Nil
  then show ?case using all_served_refl [OF Nil.prems(1)] by simp
next
  case (Cons e evs)
  obtain hid ds where e: "e = (hid, ds)" by (cases e)
  have pre: "hid \<in> H" "blocks_ok ds"
    "inputs (objects p (addr hid)) = map Received ds # (map (map Received) (brought hid evs) @ rest hid)"
    using Cons.prems(2,3) e by auto
  obtain p1 where p1: "handle fuel (echo_class willing) ctl_ok thread_i hid [] p = (Some (Return False), p1)"
    "clients_idle H addr p1" "all_served H addr p (\<lambda>h. if h = hid then [ds] else []) p1"
    "inputs (objects p1 (addr hid)) = map (map Received) (brought hid evs) @ rest hid"
    "\<And>h. h \<in> H \<Longrightarrow> h \<noteq> hid \<Longrightarrow> inputs (objects p1 (addr h)) = inputs (objects p (addr h))"
    "length (release_array (poller_cleaner p1)) = length (release_array (poller_cleaner p))"
    by (rule client_event_served [where ctl_ok = ctl_ok, OF Cons.prems(1) pre(1,3,2) Cons.prems(4) assms(5,6)]) blast
  have "\<forall>h \<in> H. inputs (objects p1 (addr h)) = map (map Received) (brought h evs) @ rest h"
  proof
    fix h assume "h \<in> H"
    then show "inputs (objects p1 (addr h)) = map (map Received) (brought h evs) @ rest h"
      using p1(4,5) Cons.prems(3) e by (cases "h = hid") auto
  qed
  from Cons.IH [OF p1(2) _ this] Cons.prems(2,4) p1(6) obtain p' where
    "process_events fuel (echo_class willing) ctl_ok thread_i (map (\<lambda>e. (fst e, [])) evs) False p1 = (Some (Return False), p')"
    "clients_idle H addr p'" "all_served H addr p1 (\<lambda>hid. brought hid evs) p'"
    "\<forall>hid \<in> H. inputs (objects p' (addr hid)) = rest hid"
    "length (release_array (poller_cleaner p')) = length (release_array (poller_cleaner p))"
    by auto
  moreover from all_served_trans [OF p1(3) this(3)] have "all_served H addr p (\<lambda>hid. brought hid (e # evs)) p'"
    using e by (auto simp: all_served_def split: if_splits)
  ultimately show ?case using p1(1) e by auto
qed



text \<open>A poller with two fresh connections, whose holders are 0 and 1 and whose handlers are 3 and 4.\<close>

definition two_clients :: "(nat \<Rightarrow> receive_answer list list) \<Rightarrow> echo_peer poller" where
  "two_clients inp = snd (poller_add (echo_class willing) (\<lambda>_ _. True) 4 (snd (poller_new (echo_class willing) (\<lambda>_ _. True) 2
     (\<lambda>d. \<lparr>conn = fresh_connection, peer_fd = int d, inputs = inp d\<rparr>) 3)))"

lemma two_clients_state:
  "echo_idle 0 3 (two_clients inp)" "echo_idle 1 4 (two_clients inp)" "inputs (objects (two_clients inp) d) = inp d"
  "conn (objects (two_clients inp) d) = fresh_connection" "length (release_array (poller_cleaner (two_clients inp))) = 2"
  using fresh_connection_ok cleaner_new_inv_2
  by (simp_all add: echo_idle_def two_clients_def poller_new_def poller_add_def link_new_holder_def
    epoll_ctl_def holder_new_def set_holder_def Let_def link_holder_def)
    (simp_all add: cleaner_new_def)


end
