(* ===== verification/StopPipe.thy ===== *)
theory StopPipe
  imports Poller
begin

section \<open>\<open>StopPipeDescriptorHandler\<close> (litemq/DescriptorHandlerPoller.cpp)\<close>

text \<open>
  The handler that stops the polling threads. Its descriptor is the reading end of a pipe;
  \<open>stop()\<close> sets \<open>stopped_\<close> and writes one message, and \<open>read()\<close> of a stopped handler answers
  \<open>STOP_PROCESSING\<close> without reading, so the pipe stays readable for the next thread. The answers
  of the system calls are part of the state, in the order the calls will be made.

  A poller has handlers of several classes: \<open>with_stop_pipe\<close> adds this one to the class of the
  others. The theorem: once stopped, every thread that gets the event of the pipe ends its
  \<open>process_\<close> and arms the descriptor again for the next one.
\<close>

datatype read_answer = Read_Bytes nat | Read_Again | Read_Failed

record stop_pipe =
  read_fd :: int
  write_fd :: int
  stopped_flag :: bool
  read_answers :: "read_answer list"
  write_answers :: "bool list"
  stop_messages :: nat

text \<open>The constructor: \<open>pipe\<close> gives two descriptors or fails, which throws.\<close>

definition stop_pipe_new ::
  "(int \<times> int) option \<Rightarrow> read_answer list \<Rightarrow> bool list \<Rightarrow> stop_pipe call" where
  "stop_pipe_new fds reads writes =
     (case fds of
        None \<Rightarrow> Throw
      | Some (r, w) \<Rightarrow> Return \<lparr>read_fd = r, write_fd = w, stopped_flag = False,
          read_answers = reads, write_answers = writes, stop_messages = 0\<rparr>)"

text \<open>\<open>stop_\<close> writes one message of 4 bytes; a failed write throws.\<close>

definition stop_write :: "stop_pipe \<Rightarrow> unit call \<times> stop_pipe" where
  "stop_write h =
     (case write_answers h of
        False # ws \<Rightarrow> (Throw, h\<lparr>write_answers := ws\<rparr>)
      | ws \<Rightarrow> (Return (), h\<lparr>write_answers := tl ws, stop_messages := Suc (stop_messages h)\<rparr>))"

definition stop_pipe_read :: "stop_pipe \<Rightarrow> 64 word call \<times> stop_pipe" where
  "stop_pipe_read h =
     (if stopped_flag h then (Return STOP_PROCESSING, h)
      else let h1 = h\<lparr>read_answers := tl (read_answers h)\<rparr>
           in case read_answers h of
                [] \<Rightarrow> (Return STOP_WRITE_HANDLE, h1)
              | Read_Again # _ \<Rightarrow> (Return STOP_WRITE_HANDLE, h1)
              | Read_Failed # _ \<Rightarrow> (Throw, h1)
              | Read_Bytes n # _ \<Rightarrow>
                  if n = 0 then (Fault Assertion_Failed, h1)
                  else (case stop_write h1 of
                          (Return _, h2) \<Rightarrow> (Return (STOP_PROCESSING OR STOP_WRITE_HANDLE), h2)
                        | (Throw, h2) \<Rightarrow> (Throw, h2)
                        | (Fault x, h2) \<Rightarrow> (Fault x, h2)))"

definition stop_pipe_write :: "stop_pipe \<Rightarrow> 64 word call \<times> stop_pipe" where
  "stop_pipe_write h = (Return STOP_WRITE_HANDLE, h)"

definition stop_pipe_stop :: "stop_pipe \<Rightarrow> unit call \<times> stop_pipe" where
  "stop_pipe_stop h = stop_write (h\<lparr>stopped_flag := True\<rparr>)"

definition stop_pipe_class :: "stop_pipe handler_class" where
  "stop_pipe_class =
     \<lparr>vfd = read_fd, vread = stop_pipe_read, vwrite = stop_pipe_write, vstopped = id\<rparr>"

text \<open>The dispatch of a virtual call over two classes.\<close>

definition with_stop_pipe :: "'g handler_class \<Rightarrow> (stop_pipe + 'g) handler_class" where
  "with_stop_pipe cls =
     \<lparr>vfd = case_sum (vfd stop_pipe_class) (vfd cls),
      vread = case_sum (map_prod id Inl \<circ> vread stop_pipe_class) (map_prod id Inr \<circ> vread cls),
      vwrite = case_sum (map_prod id Inl \<circ> vwrite stop_pipe_class) (map_prod id Inr \<circ> vwrite cls),
      vstopped = map_sum (vstopped stop_pipe_class) (vstopped cls)\<rparr>"

text \<open>\<open>DescriptorHandlerPoller::deactivate_object\<close>, up to the call of the base class.\<close>

definition poller_deactivate :: "nat \<Rightarrow> (stop_pipe + 'g) poller \<Rightarrow> unit call \<times> (stop_pipe + 'g) poller" where
  "poller_deactivate stop_handler p =
     (case objects p stop_handler of
        Inl h \<Rightarrow> (case stop_pipe_stop h of
                     (r, h1) \<Rightarrow> (r, p\<lparr>objects := (objects p)(stop_handler := Inl h1)\<rparr>))
      | Inr _ \<Rightarrow> (Fault Null_Dereference, p))"

subsection \<open>Stopping\<close>

definition stop_ready :: "nat \<Rightarrow> nat \<Rightarrow> (stop_pipe + 'g) poller \<Rightarrow> bool" where
  "stop_ready hid d p \<longleftrightarrow>
     (\<exists>h. objects p d = Inl h \<and> stopped_flag h) \<and>
     descriptor_handler (holders p hid) = Some d \<and> handle_read (holders p hid) \<and>
     \<not> read_closed (holders p hid) \<and> handle_in_progress (holders p hid) = 0 \<and>
     handling_finished (holders p hid) = 0 \<and> cleaner_inv (poller_cleaner p)"

lemma call_handler_stop_read:
  assumes "objects p d = Inl h" and "stopped_flag h"
  shows "call_handler (vread (with_stop_pipe cls)) hid d p =
    (Return True, set_holder hid (snd (apply_state_modify (holders p hid) STOP_PROCESSING)) p)"
proof -
  have v: "vread (with_stop_pipe cls) (objects p d) = (Return STOP_PROCESSING, objects p d)"
    using assms by (simp add: with_stop_pipe_def stop_pipe_class_def stop_pipe_read_def)
  have "flag_set STOP_PROCESSING STOP_PROCESSING" by (simp add: flag_set_def state_change_defs)
  then show ?thesis by (simp add: call_handler_return [where f = "vread (with_stop_pipe cls)", OF v])
qed

lemma call_handler_stop_write:
  assumes "objects p d = Inl h"
  shows "call_handler (vwrite (with_stop_pipe cls)) hid d p =
    (Return False, set_holder hid (snd (apply_state_modify (holders p hid) STOP_WRITE_HANDLE)) p)"
proof -
  have v: "vwrite (with_stop_pipe cls) (objects p d) = (Return STOP_WRITE_HANDLE, objects p d)"
    using assms by (simp add: with_stop_pipe_def stop_pipe_class_def stop_pipe_write_def)
  have "\<not> flag_set STOP_WRITE_HANDLE STOP_PROCESSING" by (simp add: flag_set_def state_change_defs)
  then show ?thesis by (simp add: call_handler_return [where f = "vwrite (with_stop_pipe cls)", OF v])
qed

lemma stop_round:
  assumes "objects p d = Inl h" and "stopped_flag h" and "handle_read (holders p hid)"
    and "\<not> read_closed (holders p hid)"
  shows "\<exists>p1. round_parts (with_stop_pipe cls) hid d p = (Return True, p1) \<and>
    objects p1 = objects p \<and> handle_read (holders p1 hid) \<and> \<not> read_closed (holders p1 hid)"
proof -
  have f: "\<not> flag_set STOP_PROCESSING CLOSE_READ_HANDLE" "\<not> flag_set STOP_PROCESSING CLOSE_WRITE_HANDLE"
    "\<not> flag_set STOP_PROCESSING START_READ_HANDLE" "\<not> flag_set STOP_PROCESSING STOP_READ_HANDLE"
    "\<not> flag_set STOP_WRITE_HANDLE CLOSE_READ_HANDLE" "\<not> flag_set STOP_WRITE_HANDLE CLOSE_WRITE_HANDLE"
    "\<not> flag_set STOP_WRITE_HANDLE START_READ_HANDLE" "\<not> flag_set STOP_WRITE_HANDLE STOP_READ_HANDLE"
    by (simp_all add: flag_set_def state_change_defs)
  obtain p1 where p1: "handle_read_part (with_stop_pipe cls) hid d p = (Return True, p1)"
    "objects p1 = objects p" "handle_read (holders p1 hid)" "\<not> read_closed (holders p1 hid)"
    using assms f by (simp add: handle_read_part_def call_handler_stop_read set_holder_def)
  obtain s p2 where "handle_write_part (with_stop_pipe cls) hid d p1 = (Return s, p2)"
    "objects p2 = objects p1" "handle_read (holders p2 hid)" "\<not> read_closed (holders p2 hid)"
    using p1 assms(1) f
    by (cases "handle_write (holders p1 hid)")
      (simp_all add: handle_write_part_def call_handler_stop_write set_holder_def)
  with p1 show ?thesis by (simp add: round_parts_def)
qed

lemma handle_stop:
  assumes "stop_ready hid d p" and "thread_i < length (release_array (poller_cleaner p))"
    and "\<forall>log request. ctl_ok log request" and "0 < fuel"
  shows "\<exists>p'. handle fuel (with_stop_pipe cls) ctl_ok thread_i hid [] p = (Some (Return True), p') \<and>
    stop_ready hid d p' \<and>
    length (release_array (poller_cleaner p')) = length (release_array (poller_cleaner p)) \<and>
    (\<exists>w. epoll_log p' = epoll_log p @
      [Epoll_Mod (vfd (with_stop_pipe cls) (objects p d)) hid (armed_events True w)])"
proof -
  let ?cls = "with_stop_pipe cls"
  let ?p0 = "add_in_progress 1 hid p"
  obtain h where h: "objects p d = Inl h" "stopped_flag h"
    using assms(1) unfolding stop_ready_def by blast
  have r: "descriptor_handler (holders p hid) = Some d" "handle_read (holders p hid)"
    "\<not> read_closed (holders p hid)" "handle_in_progress (holders p hid) = 0"
    "handling_finished (holders p hid) = 0" "cleaner_inv (poller_cleaner p)"
    using assms(1) unfolding stop_ready_def by blast+
  obtain p1 where p1: "round_parts ?cls hid d ?p0 = (Return True, p1)" "objects p1 = objects p"
    "handle_read (holders p1 hid)" "\<not> read_closed (holders p1 hid)"
    using stop_round [of ?p0 d h hid cls] h r by auto
  have opened: "\<not> closed_both (holders p1 hid)" using p1(4) by (simp add: closed_both_def)
  obtain p' where p': "handle fuel ?cls ctl_ok thread_i hid [] p = (Some (Return True), p')"
    "objects p' = objects p1" "holders p' = (holders p1)(hid := (holders p1 hid)\<lparr>handle_in_progress := 0\<rparr>)"
    "epoll_log p' = epoll_log p @ [Epoll_Mod (vfd ?cls (objects p1 d)) hid
      (armed_events (handle_read (holders p1 hid)) (handle_write (holders p1 hid)))]"
    "cleaner_inv (poller_cleaner p')"
    "length (release_array (poller_cleaner p')) = length (release_array (poller_cleaner p))"
    using handle_single_round [OF r(1,4,5) p1(1) opened assms(4) r(6) assms(2,3)] by blast
  have "descriptor_handler (holders p1 hid) = Some d" "handling_finished (holders p1 hid) = 0"
    using round_parts_touches [of hid d ?p0 ?cls] p1(1) r by (simp_all add: touches_def)
  then have "stop_ready hid d p'"
    using h p1 p'(2,3,5) by (simp add: stop_ready_def)
  then show ?thesis using p' p1 by auto
qed


definition stopped_poller :: "(stop_pipe + nat) poller" where
  "stopped_poller = snd (poller_deactivate 3 (snd (poller_new (with_stop_pipe counting_class)
     (\<lambda>_ _. True) 2 (\<lambda>_. Inl \<lparr>read_fd = 8, write_fd = 9, stopped_flag = False, read_answers = [],
        write_answers = [], stop_messages = 0\<rparr>) 3)))"

lemma stopped_poller_ready:
  "stop_ready 0 3 stopped_poller" "length (release_array (poller_cleaner stopped_poller)) = 2"
proof -
  have "poller_cleaner stopped_poller = cleaner_new 2"
    by (simp add: stopped_poller_def poller_deactivate_def stop_pipe_stop_def stop_write_def
      poller_new_def poller_add_def link_new_holder_def epoll_ctl_def set_holder_def Let_def)
  then show "stop_ready 0 3 stopped_poller" "length (release_array (poller_cleaner stopped_poller)) = 2"
    using cleaner_new_inv_2
    by (simp_all add: stop_ready_def stopped_poller_def poller_deactivate_def stop_pipe_stop_def
      stop_write_def poller_new_def poller_add_def link_new_holder_def epoll_ctl_def set_holder_def
      holder_new_def Let_def) (simp add: cleaner_new_def)
qed


end
