(* ===== verification/Owners.thy ===== *)
theory Owners
  imports StopPipe
begin

section \<open>\<open>DescriptorHandlerOwner\<close>: pollers, pools, proxies, the acceptor and \<open>Context\<close>\<close>

text \<open>
  The interface \<open>DescriptorHandlerOwner\<close> of litemq/DescriptorHandlerPoller.hpp as a locale: one
  operation, \<open>add\<close>, and what its clients expect of it. The poller, the pool and the proxies
  provide it; the acceptor (litemq/AcceptorDescriptorHandler.cpp) and \<open>Context\<close>
  (litemq/Context.cpp) use it. An owner that is not \<open>ready\<close> (a proxy after \<open>detach_\<close>, a pool
  with no poller) promises nothing but to keep what it has.
\<close>

subsection \<open>\<open>AcceptorDescriptorHandler\<close>\<close>

text \<open>
  The constructor opens a listening socket: the answers of \<open>socket\<close>, \<open>fcntl\<close>, \<open>bind\<close> and
  \<open>listen\<close> are arguments, and every failure throws.
\<close>

record acceptor =
  acceptor_fd :: int

definition acceptor_new :: "int \<Rightarrow> bool \<Rightarrow> bool \<Rightarrow> bool \<Rightarrow> acceptor call" where
  "acceptor_new socket_res non_blocking_ok bind_ok listen_ok =
     (if socket_res < 0 then Throw
      else if \<not> non_blocking_ok then Throw
      else if \<not> bind_ok then Throw
      else if \<not> listen_ok then Throw
      else Return \<lparr>acceptor_fd = socket_res\<rparr>)"

text \<open>
  \<open>accept_\<close>: the answers of \<open>accept\<close> in order. \<open>create\<close> is the virtual \<open>create_descriptor_handler\<close>,
  the address of the handler it makes for an accepted descriptor, if it makes one. The result is
  \<open>None\<close> when the answers end before \<open>accept\<close> reports that nobody waits: the loop is still there.
\<close>

datatype accept_answer = Accepted int | Accept_Again | Accept_Failed

fun accept_loop ::
  "(nat \<Rightarrow> 's \<Rightarrow> bool call \<times> 's) \<Rightarrow> (int \<Rightarrow> nat option) \<Rightarrow> accept_answer list \<Rightarrow> 's \<Rightarrow>
    unit call option \<times> 's" where
  "accept_loop add create [] s = (None, s)"
| "accept_loop add create (Accept_Again # as) s = (Some (Return ()), s)"
| "accept_loop add create (Accept_Failed # as) s = (Some Throw, s)"
| "accept_loop add create (Accepted fd # as) s =
     (case create fd of
        None \<Rightarrow> accept_loop add create as s
      | Some d \<Rightarrow>
          (case add d s of
             (Return _, s1) \<Rightarrow> accept_loop add create as s1
           | (Throw, s1) \<Rightarrow> (Some Throw, s1)
           | (Fault x, s1) \<Rightarrow> (Some (Fault x), s1)))"

text \<open>\<open>read\<close> and \<open>write\<close> are the same function.\<close>

definition acceptor_read ::
  "(nat \<Rightarrow> 's \<Rightarrow> bool call \<times> 's) \<Rightarrow> (int \<Rightarrow> nat option) \<Rightarrow> accept_answer list \<Rightarrow> 's \<Rightarrow>
    64 word call option \<times> 's" where
  "acceptor_read add create as s =
     (case accept_loop add create as s of
        (None, s1) \<Rightarrow> (None, s1)
      | (Some (Return _), s1) \<Rightarrow> (Some (Return CONTINUE_HANDLE), s1)
      | (Some Throw, s1) \<Rightarrow> (Some Throw, s1)
      | (Some (Fault x), s1) \<Rightarrow> (Some (Fault x), s1))"

definition acceptor_write ::
  "(nat \<Rightarrow> 's \<Rightarrow> bool call \<times> 's) \<Rightarrow> (int \<Rightarrow> nat option) \<Rightarrow> accept_answer list \<Rightarrow> 's \<Rightarrow>
    64 word call option \<times> 's" where
  "acceptor_write add create as s = acceptor_read add create as s"

text \<open>The handlers made for the descriptors accepted before \<open>accept\<close> reports that nobody waits.\<close>

fun created :: "(int \<Rightarrow> nat option) \<Rightarrow> accept_answer list \<Rightarrow> nat set" where
  "created create (Accepted fd # as) = set_option (create fd) \<union> created create as"
| "created create as = {}"

subsection \<open>The interface\<close>

locale descriptor_handler_owner =
  fixes add :: "nat \<Rightarrow> 's \<Rightarrow> bool call \<times> 's"
    and owned :: "'s \<Rightarrow> nat set"
    and ready :: "'s \<Rightarrow> bool"
  assumes add_true: "ready s \<Longrightarrow> add d s = (Return b, s') \<Longrightarrow> b \<and> owned s' = insert d (owned s)"
    and add_keeps: "owned s \<subseteq> owned (snd (add d s))"
    and ready_kept: "ready s \<Longrightarrow> ready (snd (add d s))"
begin

lemma accept_loop_keeps: "owned s \<subseteq> owned (snd (accept_loop add create as s))"
proof (induction "as" arbitrary: s)
  case (Cons a "as")
  show ?case
  proof (cases a)
    case (Accepted fd)
    show ?thesis
    proof (cases "create fd")
      case (Some d)
      then show ?thesis
        using Accepted Cons [of "snd (add d s)"] add_keeps [of s d]
        by (cases "add d s") (auto split: call.splits)
    qed (use Accepted Cons in simp)
  qed simp_all
qed simp

lemma accept_loop_owned:
  assumes "ready s" and "accept_loop add create as s = (Some (Return ()), s')"
  shows "owned s' = owned s \<union> created create as \<and> ready s'"
  using assms
proof (induction "as" arbitrary: s)
  case (Cons a "as")
  show ?case
  proof (cases a)
    case (Accepted fd)
    show ?thesis
    proof (cases "create fd")
      case None
      then show ?thesis using Cons Accepted by simp
    next
      case (Some d)
      then obtain b s1 where s1: "add d s = (Return b, s1)"
        "accept_loop add create as s1 = (Some (Return ()), s')"
        using Cons.prems(2) Accepted by (auto split: prod.splits call.splits)
      have "owned s1 = insert d (owned s)" "ready s1"
        using add_true [OF Cons.prems(1) s1(1)] ready_kept [OF Cons.prems(1), of d] s1(1) by auto
      then show ?thesis using Cons.IH [OF _ s1(2)] Accepted Some by auto
    qed
  qed (use Cons.prems in simp_all)
qed simp

end

text \<open>
  An owner whose own \<open>add\<close> never answers \<open>false\<close>: this is why a proxy may drop the answer.
\<close>

locale direct_owner = descriptor_handler_owner +
  assumes add_answers_true: "add d s = (Return b, s') \<Longrightarrow> b"

lemma proxy_add_keeps_proxy: "fst (snd (proxy_add add d s)) = fst s"
  by (cases s; cases "add d (snd s)"; cases "fst (add d (snd s))")
    (auto simp: proxy_add_def split: option.splits)

sublocale direct_owner < proxied: descriptor_handler_owner "proxy_add add" "\<lambda>s. owned (snd s)"
  "\<lambda>s. lock_owner (fst s) \<noteq> None \<and> ready (snd s)"
proof
  fix d b and s s' :: "proxy \<times> 'a"
  assume r: "lock_owner (fst s) \<noteq> None \<and> ready (snd s)" and a: "proxy_add add d s = (Return b, s')"
  then obtain b' t where "add d (snd s) = (Return b', t)" "b" "s' = (fst s, t)"
    by (auto simp: proxy_add_def split: prod.splits call.splits)
  then show "b \<and> owned (snd s') = insert d (owned (snd s))"
    using add_true r by auto
next
  fix d and s :: "proxy \<times> 'a"
  show "owned (snd s) \<subseteq> owned (snd (snd (proxy_add add d s)))"
    using add_keeps [of "snd s" d]
    by (cases "add d (snd s)"; cases "fst (add d (snd s))")
      (auto simp: proxy_add_def split: option.splits)
next
  fix d and s :: "proxy \<times> 'a"
  assume "lock_owner (fst s) \<noteq> None \<and> ready (snd s)"
  then show "lock_owner (fst (snd (proxy_add add d s))) \<noteq> None \<and> ready (snd (snd (proxy_add add d s)))"
    using ready_kept [of "snd s" d]
    by (cases "add d (snd s)"; cases "fst (add d (snd s))") (auto simp: proxy_add_def)
qed

subsection \<open>The poller and the pool provide it\<close>

lemma reset_keeps_handlers [simp]: "handlers (reset_descriptor_handler hid p) = handlers p"
  by (simp add: reset_descriptor_handler_def set_holder_def split: option.splits)

lemma poller_add_handlers:
  "dom (handlers (snd (poller_add cls ctl_ok d p))) = insert d (dom (handlers p))"
  by (auto simp: poller_add_def link_new_holder_def set_holder_def epoll_ctl_def Let_def)

lemma poller_add_true: "fst (poller_add cls ctl_ok d p) = Return b \<Longrightarrow> b"
  by (auto simp: poller_add_def link_new_holder_def epoll_ctl_def Let_def split: if_splits)

interpretation po: direct_owner "poller_add cls ctl_ok" "\<lambda>p. dom (handlers p)" "\<lambda>_. True"
  for cls :: "'h handler_class" and ctl_ok
proof
  fix d b and p p' :: "'h poller"
  assume "poller_add cls ctl_ok d p = (Return b, p')"
  then have r: "fst (poller_add cls ctl_ok d p) = Return b" "snd (poller_add cls ctl_ok d p) = p'"
    by simp_all
  from r(1) show "b" by (rule poller_add_true)
  with r(2) show "b \<and> dom (handlers p') = insert d (dom (handlers p))"
    using poller_add_handlers [of cls ctl_ok d p] by simp
qed (auto simp: poller_add_handlers)

definition pool_owned :: "'h pool \<Rightarrow> nat set" where
  "pool_owned q = (\<Union>p \<in> set (pollers q). dom (handlers p))"

definition pool_ready :: "'h pool \<Rightarrow> bool" where
  "pool_ready q \<longleftrightarrow> poller_it q < length (pollers q)"

lemma pool_add_owned:
  "pool_ready q \<Longrightarrow> pool_owned (snd (pool_add cls ctl_ok d q)) = insert d (pool_owned q)"
proof -
  let ?i = "poller_it q"
  assume r: "pool_ready q"
  let ?p = "snd (poller_add cls ctl_ok d (pollers q ! ?i))"
  have "pollers (snd (pool_add cls ctl_ok d q)) = (pollers q)[?i := ?p]"
    using r by (simp add: pool_add_def pool_ready_def Let_def split: prod.splits)
  moreover have "(\<Union>p \<in> set ((pollers q)[?i := ?p]). dom (handlers p)) =
      insert d (\<Union>p \<in> set (pollers q). dom (handlers p))"
  proof -
    have i: "?i < length (pollers q)" using r by (simp add: pool_ready_def)
    have "pollers q = take ?i (pollers q) @ pollers q ! ?i # drop (Suc ?i) (pollers q)"
      by (rule id_take_nth_drop [OF i])
    then have "set (pollers q) =
        set (take ?i (pollers q)) \<union> insert (pollers q ! ?i) (set (drop (Suc ?i) (pollers q)))"
      by (metis set_append list.simps(15))
    then show ?thesis
      by (simp add: upd_conv_take_nth_drop [OF i] poller_add_handlers Un_assoc Un_left_commute)
  qed
  ultimately show ?thesis by (simp add: pool_owned_def)
qed

lemma pool_add_true: "fst (pool_add cls ctl_ok d q) = Return b \<Longrightarrow> b"
  using poller_add_true [of cls ctl_ok d "pollers q ! poller_it q" b]
  by (auto simp: pool_add_def Let_def split: if_splits prod.splits)

lemma pool_add_ready:
  "pool_ready q \<Longrightarrow> pool_ready (snd (pool_add cls ctl_ok d q))"
  by (auto simp: pool_add_def pool_ready_def Let_def split: prod.splits)

lemma pool_add_unready: "\<not> pool_ready q \<Longrightarrow> pool_add cls ctl_ok d q = (Fault Invalid_Iterator, q)"
  by (simp add: pool_add_def pool_ready_def)

interpretation pl: direct_owner "pool_add cls ctl_ok" pool_owned pool_ready
  for cls :: "'h handler_class" and ctl_ok
proof
  fix d b and q q' :: "'h pool"
  assume "pool_add cls ctl_ok d q = (Return b, q')"
  then show "b" using pool_add_true [of cls ctl_ok d q b] by simp
  assume "pool_ready q"
  with \<open>pool_add cls ctl_ok d q = (Return b, q')\<close> \<open>b\<close>
  show "b \<and> pool_owned q' = insert d (pool_owned q)"
    using pool_add_owned [of q cls ctl_ok d] by simp
next
  fix d and q :: "'h pool"
  show "pool_owned q \<subseteq> pool_owned (snd (pool_add cls ctl_ok d q))"
    by (cases "pool_ready q") (auto simp: pool_add_owned pool_add_unready)
qed (rule pool_add_ready)

subsection \<open>\<open>Context\<close>\<close>

text \<open>
  A context owns one pool. \<open>add_handler\<close> passes the handler to it, and turns an exception of the
  pool into one of its own.
\<close>

record 'h context_state =
  descriptor_handler_poller_pool :: "'h pool"

definition context_new :: "'h poller list \<Rightarrow> 'h context_state" where
  "context_new ps = \<lparr>descriptor_handler_poller_pool = pool_new ps\<rparr>"

definition context_add_handler ::
  "'h handler_class \<Rightarrow> epoll_answer \<Rightarrow> nat \<Rightarrow> 'h context_state \<Rightarrow> bool call \<times> 'h context_state" where
  "context_add_handler cls ctl_ok d x =
     (case pool_add cls ctl_ok d (descriptor_handler_poller_pool x) of
        (Return b, q) \<Rightarrow> (Return b, x\<lparr>descriptor_handler_poller_pool := q\<rparr>)
      | (Throw, q) \<Rightarrow> (Throw, x\<lparr>descriptor_handler_poller_pool := q\<rparr>)
      | (Fault f, q) \<Rightarrow> (Fault f, x\<lparr>descriptor_handler_poller_pool := q\<rparr>))"

lemma context_add_handler_pool:
  "descriptor_handler_poller_pool (snd (context_add_handler cls ctl_ok d x)) =
    snd (pool_add cls ctl_ok d (descriptor_handler_poller_pool x))"
  "fst (context_add_handler cls ctl_ok d x) =
    fst (pool_add cls ctl_ok d (descriptor_handler_poller_pool x))"
  by (auto simp: context_add_handler_def split: prod.splits call.splits)

interpretation cx: direct_owner "context_add_handler cls ctl_ok"
  "\<lambda>x. pool_owned (descriptor_handler_poller_pool x)" "\<lambda>x. pool_ready (descriptor_handler_poller_pool x)"
  for cls :: "'h handler_class" and ctl_ok
proof
  fix d b and x x' :: "'h context_state"
  assume "context_add_handler cls ctl_ok d x = (Return b, x')"
  then have r: "pool_add cls ctl_ok d (descriptor_handler_poller_pool x) =
      (Return b, descriptor_handler_poller_pool x')"
    using context_add_handler_pool [of cls ctl_ok d x] by (metis fst_conv snd_conv prod.collapse)
  then show "b" by (rule pl.add_answers_true)
  assume "pool_ready (descriptor_handler_poller_pool x)"
  then show "b \<and> pool_owned (descriptor_handler_poller_pool x') =
      insert d (pool_owned (descriptor_handler_poller_pool x))"
    using r by (rule pl.add_true)
qed (simp_all add: context_add_handler_pool pl.add_keeps pl.ready_kept)

subsection \<open>Which poller gets a handler\<close>

fun pool_add_all ::
  "'h handler_class \<Rightarrow> epoll_answer \<Rightarrow> nat list \<Rightarrow> 'h pool \<Rightarrow> 'h pool" where
  "pool_add_all cls ctl_ok [] q = q"
| "pool_add_all cls ctl_ok (d # ds) q = pool_add_all cls ctl_ok ds (snd (pool_add cls ctl_ok d q))"

lemma pool_add_state:
  assumes "pool_ready q"
  shows "poller_it (snd (pool_add cls ctl_ok d q)) = Suc (poller_it q) mod length (pollers q)"
    and "length (pollers (snd (pool_add cls ctl_ok d q))) = length (pollers q)"
    and "j < length (pollers q) \<Longrightarrow> dom (handlers (pollers (snd (pool_add cls ctl_ok d q)) ! j)) =
      dom (handlers (pollers q ! j)) \<union> (if j = poller_it q then {d} else {})"
proof -
  obtain r p where p: "poller_add cls ctl_ok d (pollers q ! poller_it q) = (r, p)"
    by fastforce
  then have "dom (handlers p) = insert d (dom (handlers (pollers q ! poller_it q)))"
    using poller_add_handlers [of cls ctl_ok d "pollers q ! poller_it q"] by simp
  moreover have "snd (pool_add cls ctl_ok d q) = q\<lparr>poller_it := (if Suc (poller_it q) = length (pollers q)
      then 0 else Suc (poller_it q)), pollers := (pollers q)[poller_it q := p]\<rparr>"
    using assms p by (simp add: pool_add_def pool_ready_def Let_def)
  ultimately show "poller_it (snd (pool_add cls ctl_ok d q)) = Suc (poller_it q) mod length (pollers q)"
    and "length (pollers (snd (pool_add cls ctl_ok d q))) = length (pollers q)"
    and "j < length (pollers q) \<Longrightarrow> dom (handlers (pollers (snd (pool_add cls ctl_ok d q)) ! j)) =
      dom (handlers (pollers q ! j)) \<union> (if j = poller_it q then {d} else {})"
    using assms by (simp_all add: pool_ready_def nth_list_update)
qed

lemma pool_add_all_state:
  assumes "pool_ready q" and "j < length (pollers q)"
  shows "dom (handlers (pollers (pool_add_all cls ctl_ok ds q) ! j)) =
    dom (handlers (pollers q ! j)) \<union>
      {ds ! i | i. i < length ds \<and> (poller_it q + i) mod length (pollers q) = j}"
  using assms
proof (induction ds arbitrary: q)
  case (Cons d ds)
  let ?q = "snd (pool_add cls ctl_ok d q)"
  let ?k = "length (pollers q)"
  note st = pool_add_state [OF Cons.prems(1), where cls = cls and ctl_ok = ctl_ok and d = d]
  have it: "poller_it q < ?k" using Cons.prems(1) by (simp add: pool_ready_def)
  have IH: "dom (handlers (pollers (pool_add_all cls ctl_ok ds ?q) ! j)) =
      dom (handlers (pollers ?q ! j)) \<union>
        {ds ! i | i. i < length ds \<and> (poller_it ?q + i) mod length (pollers ?q) = j}"
    using pool_add_ready [OF Cons.prems(1)] Cons.prems(2) st(2) by (intro Cons.IH) simp_all
  have shift: "(poller_it ?q + i) mod ?k = (poller_it q + Suc i) mod ?k" for i
    by (simp add: st(1) mod_add_left_eq)
  have "{(d # ds) ! i | i. i < length (d # ds) \<and> (poller_it q + i) mod ?k = j} =
      (if j = poller_it q then {d} else {}) \<union>
      {ds ! i | i. i < length ds \<and> (poller_it q + Suc i) mod ?k = j}"
    (is "?A = ?B")
  proof (intro set_eqI iffI)
    fix x assume "x \<in> ?A"
    then obtain i where "x = (d # ds) ! i" "i < length (d # ds)" "(poller_it q + i) mod ?k = j" by blast
    then show "x \<in> ?B" using it by (cases i) auto
  next
    fix x assume "x \<in> ?B"
    then consider "j = poller_it q" "x = d"
      | i where "x = ds ! i" "i < length ds" "(poller_it q + Suc i) mod ?k = j"
      by (auto split: if_splits)
    then show "x \<in> ?A"
    proof cases
      case 1
      then show ?thesis using it by (intro CollectI exI [of _ 0]) simp
    next
      case 2
      then show ?thesis by (intro CollectI exI [of _ "Suc i"]) simp
    qed
  qed
  with IH show ?case
    using Cons.prems(2) st(2,3) shift by (simp add: Un_assoc)
qed simp

subsection \<open>Properties\<close>

text \<open>The pool deals its handlers out in turn: of handlers added one after another, the one at
  place \<open>i\<close> goes to the poller \<open>i\<close> places after the iterator, around the list, whatever the
  answers of \<open>epoll_ctl\<close>; no poller gets another one.\<close>

theorem pool_round_robin:
  assumes "poller_it q < length (pollers q)" and "j < length (pollers q)"
  shows "dom (handlers (pollers (pool_add_all cls ctl_ok ds q) ! j)) =
    dom (handlers (pollers q ! j)) \<union>
      {ds ! i | i. i < length ds \<and> (poller_it q + i) mod length (pollers q) = j}"
  using pool_add_all_state [of q j cls ctl_ok ds] assms by (simp add: pool_ready_def)

definition counting_pool :: "nat pool" where
  "counting_pool = pool_new [counting_poller, counting_poller]"

lemma counting_pool_ready: "pool_ready counting_pool" "length (pollers counting_pool) = 2"
  by (simp_all add: counting_pool_def pool_new_def pool_ready_def)

theorem pool_round_robin_witness:
  "11 \<in> dom (handlers (pollers (pool_add_all counting_class (\<lambda>_ _. True) [10, 11, 12] counting_pool) ! 1))"
proof -
  have "poller_it counting_pool < length (pollers counting_pool)"
    using counting_pool_ready(1) by (simp add: pool_ready_def)
  moreover have "poller_it counting_pool = 0" by (simp add: counting_pool_def pool_new_def)
  ultimately show ?thesis
    using pool_round_robin [of counting_pool 1 counting_class "\<lambda>_ _. True" "[10, 11, 12]"]
      counting_pool_ready(2)
    by (auto intro: exI [of _ 1])
qed



text \<open>After \<open>detach_\<close>, which the destructor of the poller calls, a proxy refuses every handler
  and touches nothing; before it, the proxy answers \<open>true\<close> whenever the owner's \<open>add\<close> returns.\<close>

theorem proxy_detached_refuses:
  "proxy_add add d (proxy_detach x, s) = (Return False, (proxy_detach x, s)) \<and>
   (fst (proxy_add add d (proxy_new n, s)) = Return True \<longleftrightarrow> (\<exists>b. fst (add d s) = Return b))"
  by (cases "add d s"; cases "fst (add d s)")
    (auto simp: proxy_add_def proxy_detach_def proxy_new_def lock_owner_def)

end
