(* ===== verification/Connections.thy ===== *)
theory Connections
  imports SendHandler
begin

section \<open>\<open>LiteMQ::Connection\<close> (litemq/Connection.hpp, litemq/Connection.cpp)\<close>

text \<open>
  A connection accepts messages into a queue and keeps a number of sockets, each with its
  handler, that send from the queue. A handler with nothing to send waits in
  \<open>waiting_handlers_\<close>; \<open>send\<close> wakes the first, and, when nobody waits and the eldest message is
  old, may open another socket.

  \<open>state_\<close> is a shared pointer that no constructor sets. The clock (\<open>push_now\<close> inside \<open>add\<close>, \<open>now\<close>
  in the delay test) and what opening a socket does are arguments. \<open>woken\<close> records the
  handlers rearmed by \<open>wakeup\<close>. \<open>MAX_DELAY_IN_POOL_\<close> is default-constructed, which is zero.
  The response callbacks and \<open>send_request\<close> are declared and not defined.

  The theorems: what the limit on the sockets lets through, that a message refused by a full
  queue is reported as sent, and that \<open>send\<close> dereferences the null state.
\<close>

datatype open_result = Open_Throws | Handler_Refused | Opened nat

record connection =
  max_out_size :: nat
  max_out_sockets :: nat
  MAX_DELAY_IN_POOL :: timeval
  connection_state :: "message_queue option"
  waiting_handlers :: "nat list"
  opened_connections :: int
  woken :: "nat list"

text \<open>
  The first constructor sets \<open>opened_connections_\<close> to 0; the second, with callbacks, leaves it unset.
\<close>

definition connection_new :: "nat \<Rightarrow> nat \<Rightarrow> connection" where
  "connection_new out_size out_sockets =
     \<lparr>max_out_size = out_size, max_out_sockets = out_sockets, MAX_DELAY_IN_POOL = time_zero,
      connection_state = None, waiting_handlers = [], opened_connections = 0, woken = []\<rparr>"

definition connection_new_callbacks :: "int \<Rightarrow> nat \<Rightarrow> nat \<Rightarrow> connection" where
  "connection_new_callbacks garbage out_size out_sockets =
     (connection_new out_size out_sockets)\<lparr>opened_connections := s32 garbage\<rparr>"

definition wakeup_waiting_connection :: "connection \<Rightarrow> bool \<times> connection" where
  "wakeup_waiting_connection c =
     (case waiting_handlers c of
        [] \<Rightarrow> (False, c)
      | h # hs \<Rightarrow> (True, c\<lparr>waiting_handlers := hs, woken := woken c @ [h]\<rparr>))"

definition extend_connections_available :: "connection \<Rightarrow> bool" where
  "extend_connections_available c \<longleftrightarrow> opened_connections c \<le> s32 (int (max_out_sockets c))"

text \<open>
  \<open>try_extend_connections_\<close>: an exception from the constructor of the handler (no socket) or
  from \<open>add_handler\<close> leaves the count increased.
\<close>

definition try_extend_connections :: "open_result \<Rightarrow> connection \<Rightarrow> unit call \<times> connection" where
  "try_extend_connections r c =
     (let c1 = c\<lparr>opened_connections := s32 (opened_connections c + 1)\<rparr>
      in if opened_connections c1 < s32 (int (max_out_sockets c1)) then
           (case r of
              Open_Throws \<Rightarrow> (Throw, c1)
            | Handler_Refused \<Rightarrow> (Throw, c1)
            | Opened h \<Rightarrow> (Return (), c1\<lparr>waiting_handlers := waiting_handlers c1 @ [h]\<rparr>))
         else (Return (), c1\<lparr>opened_connections := s32 (opened_connections c1 - 1)\<rparr>))"

definition connection_send ::
  "timeval \<Rightarrow> timeval \<Rightarrow> open_result \<Rightarrow> message_buffer \<Rightarrow> connection \<Rightarrow> bool call \<times> connection" where
  "connection_send push_now now r msg c =
     (case connection_state c of
        None \<Rightarrow> (Fault Null_Dereference, c)
      | Some q \<Rightarrow>
          let c1 = c\<lparr>connection_state := Some (snd (add_message push_now msg q))\<rparr>
          in case wakeup_waiting_connection c1 of
               (woke, c2) \<Rightarrow>
                 if \<not> woke \<and> extend_connections_available c2 then
                   let queue_eldest_push_time = eldest_time (snd (add_message push_now msg q));
                       try_extend = (if time_ne queue_eldest_push_time time_zero
                         then time_gt (time_sub now queue_eldest_push_time) (MAX_DELAY_IN_POOL c2)
                         else False)
                   in if try_extend then
                        (case try_extend_connections r c2 of
                           (Return _, c3) \<Rightarrow> (Return True, c3)
                         | (Throw, c3) \<Rightarrow> (Throw, c3)
                         | (Fault x, c3) \<Rightarrow> (Fault x, c3))
                      else (Return True, c2)
                 else (Return True, c2))"

subsection \<open>Properties\<close>

text \<open>A run of sends, over a connection whose state has been set.\<close>

type_synonym send_input = "timeval \<times> timeval \<times> open_result \<times> message_buffer"

fun send_all :: "send_input list \<Rightarrow> connection \<Rightarrow> connection" where
  "send_all [] c = c"
| "send_all ((push_now, now, r, msg) # sends) c =
     send_all sends (snd (connection_send push_now now r msg c))"

lemma connection_send_opened:
  assumes "connection_send push_now now r msg c = (res, c')" and "int (max_out_sockets c) < 2 ^ 31"
    and "0 \<le> opened_connections c" and "opened_connections c < int (max_out_sockets c)"
  shows "0 \<le> opened_connections c' \<and> opened_connections c' < int (max_out_sockets c') \<and>
    opened_connections c \<le> opened_connections c' \<and>
    opened_connections c' \<le> opened_connections c + 1 \<and> max_out_sockets c' = max_out_sockets c"
proof -
  have w: "opened_connections (snd (wakeup_waiting_connection d)) = opened_connections d \<and>
      max_out_sockets (snd (wakeup_waiting_connection d)) = max_out_sockets d" for d
    by (simp add: wakeup_waiting_connection_def split: list.splits)
  have s: "s32 (opened_connections c + 1) = opened_connections c + 1"
    "s32 (opened_connections c) = opened_connections c"
    "s32 (int (max_out_sockets c)) = int (max_out_sockets c)"
    using assms(2-4) by (simp_all add: s32_id)
  have t: "0 \<le> opened_connections (snd (try_extend_connections r d)) \<and>
      opened_connections (snd (try_extend_connections r d)) < int (max_out_sockets c) \<and>
      opened_connections c \<le> opened_connections (snd (try_extend_connections r d)) \<and>
      opened_connections (snd (try_extend_connections r d)) \<le> opened_connections c + 1 \<and>
      max_out_sockets (snd (try_extend_connections r d)) = max_out_sockets c"
    if "opened_connections d = opened_connections c" "max_out_sockets d = max_out_sockets c" for d
    using that s assms(3,4) by (auto simp: try_extend_connections_def Let_def split: open_result.splits)
  show ?thesis
  proof (cases "connection_state c")
    case None
    then show ?thesis using assms by (simp add: connection_send_def)
  next
    case (Some q)
    let ?c1 = "c\<lparr>connection_state := Some (snd (add_message push_now msg q))\<rparr>"
    obtain woke c2 where c2: "wakeup_waiting_connection ?c1 = (woke, c2)" by fastforce
    then have o: "opened_connections c2 = opened_connections c" "max_out_sockets c2 = max_out_sockets c"
      using w [of ?c1] by simp_all
    obtain r3 c3 where c3: "try_extend_connections r c2 = (r3, c3)" by fastforce
    have "c' = c2 \<or> c' = c3"
      using assms(1) Some c2 c3
      by (auto simp: connection_send_def Let_def split: if_splits call.splits)
    then show ?thesis using o t [OF o] c3 assms(3,4) by auto
  qed
qed

text \<open>The limit on the sockets: from a connection with fewer sockets than \<open>max_out_sockets_\<close> no
  sequence of sends reaches it: the number opened stays strictly below, at most one is opened
  per send, and the test made before each attempt therefore never closes the door (it allows up to the
  limit, the attempt only below it).\<close>

theorem opened_connections_below_limit:
  assumes "0 \<le> opened_connections c" and "opened_connections c < int (max_out_sockets c)"
    and "int (max_out_sockets c) < 2 ^ 31"
  shows "opened_connections (send_all sends c) < int (max_out_sockets c) \<and>
    opened_connections (send_all sends c) \<le> opened_connections c + int (length sends) \<and>
    extend_connections_available (send_all sends c)"
proof -
  have "0 \<le> opened_connections (send_all sends c) \<and>
      opened_connections (send_all sends c) < int (max_out_sockets c) \<and>
      opened_connections (send_all sends c) \<le> opened_connections c + int (length sends) \<and>
      max_out_sockets (send_all sends c) = max_out_sockets c"
    using assms
  proof (induction sends arbitrary: c)
    case (Cons x sends)
    obtain push_now now r msg where x: "x = (push_now, now, r, msg)" by (cases x) auto
    obtain res c1 where c1: "connection_send push_now now r msg c = (res, c1)" by fastforce
    note step = connection_send_opened [OF c1 Cons.prems(3,1,2)]
    with Cons.IH [of c1] Cons.prems(3) c1 x show ?case by auto
  qed simp
  moreover have "s32 (int (max_out_sockets c)) = int (max_out_sockets c)"
    using assms(3) by (simp add: s32_id)
  ultimately show ?thesis by (simp add: extend_connections_available_def)
qed

definition example_connection :: connection where
  "example_connection = (connection_new 100 2)\<lparr>connection_state := Some (mq_new 3 0)\<rparr>"

theorem opened_connections_below_limit_witness:
  "opened_connections (send_all [(Timeval 1 0, Timeval 2 0, Opened 7, example_message),
    (Timeval 1 0, Timeval 2 0, Opened 8, example_message)] example_connection) < 2"
proof -
  have "0 \<le> opened_connections example_connection"
    "opened_connections example_connection < int (max_out_sockets example_connection)"
    "int (max_out_sockets example_connection) < 2 ^ 31"
    by (simp_all add: example_connection_def connection_new_def)
  moreover have "max_out_sockets example_connection = 2"
    by (simp add: example_connection_def connection_new_def)
  ultimately show ?thesis using opened_connections_below_limit [of example_connection]
    by (simp del: send_all.simps)
qed

text \<open>\<open>send\<close> answers \<open>true\<close> to every message that does not make it throw: also to one that the full
  queue has refused, which is then in no queue. The overloads declared beside it promise
  \<open>false\<close> for a full queue.\<close>

theorem send_reports_refused_as_sent:
  assumes "connection_state c = Some q" and "\<not> fst (add_message push_now msg q)"
    and "s32 (message_count q) = message_count q"
  shows "(connection_send push_now now (Opened h) msg c = (Return True, c') \<longrightarrow>
      connection_state c' = Some q) \<and>
    fst (connection_send push_now now (Opened h) msg c) = Return True"
proof -
  have q: "snd (add_message push_now msg q) = q"
    using assms(2,3) s32_add_left [of "message_count q + 1" "- 1"]
    by (auto simp: add_message_def Let_def)
  have w: "connection_state (snd (wakeup_waiting_connection d)) = connection_state d" for d
    by (simp add: wakeup_waiting_connection_def split: list.splits)
  have t: "fst (try_extend_connections (Opened h) d) = Return () \<and>
      connection_state (snd (try_extend_connections (Opened h) d)) = connection_state d" for d
    by (simp add: try_extend_connections_def Let_def)
  obtain woke c2 where c2: "wakeup_waiting_connection (c\<lparr>connection_state := Some q\<rparr>) = (woke, c2)"
    by fastforce
  then have "connection_state c2 = Some q"
    using w [of "c\<lparr>connection_state := Some q\<rparr>"] by simp
  moreover obtain c3 where c3: "try_extend_connections (Opened h) c2 = (Return (), c3)"
    using t [of c2] by (metis prod.collapse)
  ultimately have "connection_state c3 = Some q" using t [of c2] by simp
  with \<open>connection_state c2 = Some q\<close> show ?thesis
    using assms(1) by (auto simp: connection_send_def q c2 c3 Let_def)
qed

theorem send_reports_refused_as_sent_witness:
  "fst (connection_send (Timeval 1 0) (Timeval 1 0) (Opened 7) example_message
    (example_connection\<lparr>connection_state := Some (mq_new 1 0)\<rparr>)) = Return True \<and>
   \<not> fst (add_message (Timeval 1 0) example_message (mq_new 1 0))"
proof -
  have "\<not> fst (add_message (Timeval 1 0) example_message (mq_new 1 0))"
    by (simp add: add_message_def mq_new_def s32_def Let_def)
  moreover have "s32 (message_count (mq_new 1 0)) = message_count (mq_new 1 0)"
    by (simp add: mq_new_def)
  ultimately show ?thesis
    using send_reports_refused_as_sent [of "example_connection\<lparr>connection_state := Some (mq_new 1 0)\<rparr>"
        "mq_new 1 0" "Timeval 1 0" example_message "Timeval 1 0" 7] by simp
qed

text \<open>No connection that a constructor makes can send: \<open>state_\<close> is never set, so \<open>send\<close>
  dereferences a null pointer, at once and after any number of sends.\<close>

theorem send_without_state_faults:
  "fst (connection_send push_now now r msg (send_all sends (connection_new m n))) = Fault Null_Dereference \<and>
   fst (connection_send push_now now r msg (send_all sends (connection_new_callbacks g m n))) =
     Fault Null_Dereference"
proof -
  have keep: "connection_state c = None \<Longrightarrow> send_all sends c = c" for c
    by (induction sends) (auto simp: connection_send_def)
  show ?thesis
    by (simp add: keep connection_send_def connection_new_def connection_new_callbacks_def)
qed

end
