(* ===== verification/GearsThreads.thy ===== *)
theory GearsThreads
  imports Prelude
begin

section \<open>Semaphores and thread runners (gears/Semaphore.hpp, gears/ThreadRunner.hpp, .cpp)\<close>

text \<open>
  A semaphore is its count; an operation that blocks its caller has no result (\<open>None\<close>) and is
  tried again when the count has changed, which is what \<open>Condition::Guard::wait\<close> in a loop does.

  A \<open>ThreadRunner\<close> creates its threads one by one and holds them back on a semaphore until all
  of them exist. Its threads and the caller of \<open>start\<close> and \<open>wait_for_completion\<close> are interleaved by
  a step relation; a runner is used by one caller at a time, as its header asks. A thread goes
  through \<open>acquire\<close> and \<open>release\<close> of the semaphore in two steps, then reads \<open>number_running_\<close>. The
  failures of \<open>pthread_create\<close> are choices of the relation; \<open>pthread_join\<close> succeeds, and so do the
  mutexes. \<open>start_one\<close> is defined and left out of the runs: nothing in the repository calls it. A
  \<open>start\<close> of a running runner throws before it changes anything.

  The theorems: between calls the semaphore is 0 while no thread exists and lets threads through
  while they do; a failed \<open>start\<close> runs no job; \<open>wait_for_completion\<close> always has a thread to wait
  for or can finish. All this holds as long as no \<open>start\<close> has failed on its first thread: such a
  failure leaves a permit in the semaphore, and a later failed \<open>start\<close> may then have run jobs.
\<close>

subsection \<open>\<open>Semaphore\<close>\<close>

type_synonym semaphore = int

definition semaphore_new :: "int \<Rightarrow> semaphore" where
  "semaphore_new count = count"

definition semaphore_acquire :: "semaphore \<Rightarrow> semaphore option" where
  "semaphore_acquire s = (if s \<le> 0 then None else Some (s - 1))"

definition semaphore_try_acquire :: "semaphore \<Rightarrow> bool \<times> semaphore" where
  "semaphore_try_acquire s = (if s > 0 then (True, s - 1) else (False, s))"

definition semaphore_release :: "semaphore \<Rightarrow> semaphore" where
  "semaphore_release s = s32 (s + 1)"

definition semaphore_value :: "semaphore \<Rightarrow> int" where
  "semaphore_value s = s"

text \<open>\<open>timed_acquire\<close> with a time: the list holds the counts the caller finds when it wakes up
  before the time is over; after the last of them it times out.\<close>

fun semaphore_timed_acquire :: "semaphore list \<Rightarrow> semaphore \<Rightarrow> bool \<times> semaphore" where
  "semaphore_timed_acquire [] s = (if s \<le> 0 then (False, s) else (True, s - 1))"
| "semaphore_timed_acquire (w # ws) s =
     (if s \<le> 0 then semaphore_timed_acquire ws w else (True, s - 1))"

subsection \<open>\<open>ThreadRunner\<close>\<close>

text \<open>The stages of \<open>thread_func_\<close>: before \<open>acquire\<close>, between \<open>acquire\<close> and \<open>release\<close>, before the
  test of \<open>number_running_\<close>, in \<open>job.work()\<close>, and at the end, having run the job or not.\<close>

datatype thread = Blocked | Holding | Released | Working | Finished bool

text \<open>Where the caller is: in no call, in \<open>start\<close>'s loop, in \<open>start\<close>'s error path, which waits for
  the threads, and in \<open>wait_for_completion\<close>.\<close>

datatype runner_phase = Idle | Starting nat | Failing | Joining

record runner =
  start_semaphore :: semaphore
  number_running :: int
  number_of_jobs :: nat
  runner_threads :: "thread list"
  phase :: runner_phase

definition runner_new :: "nat \<Rightarrow> runner" where
  "runner_new jobs =
     \<lparr>start_semaphore = semaphore_new 0, number_running = 0, number_of_jobs = jobs,
      runner_threads = [], phase = Idle\<rparr>"

definition start_target :: "nat \<Rightarrow> runner \<Rightarrow> nat" where
  "start_target to_start r =
     (if to_start = 0 \<or> to_start > number_of_jobs r then number_of_jobs r else to_start)"

text \<open>\<open>start_one_thread_\<close>: a result of \<open>None\<close> is the exception. The index into \<open>jobs_\<close> is checked.\<close>

definition start_one_thread :: "bool \<Rightarrow> runner \<Rightarrow> runner option outcome" where
  "start_one_thread created r =
     (if number_running r < 0 \<or> number_running r \<ge> int (number_of_jobs r) then Inl Out_Of_Bounds
      else if created then
        Inr (Some (r\<lparr>number_running := number_running r + 1,
          runner_threads := runner_threads r @ [Blocked]\<rparr>))
      else Inr None)"

text \<open>\<open>start_one\<close>: all threads started already is an exception too.\<close>

definition start_one :: "bool \<Rightarrow> runner \<Rightarrow> runner option outcome" where
  "start_one created r =
     (if number_running r = int (number_of_jobs r) then Inr None else start_one_thread created r)"

text \<open>One step of \<open>thread_func_\<close>, for a thread at a given stage.\<close>

definition thread_func :: "nat \<Rightarrow> runner \<Rightarrow> runner option" where
  "thread_func i r =
     (if i < length (runner_threads r) then
        (case runner_threads r ! i of
           Blocked \<Rightarrow> map_option (\<lambda>s. r\<lparr>start_semaphore := s, runner_threads := (runner_threads r)[i := Holding]\<rparr>)
             (semaphore_acquire (start_semaphore r))
         | Holding \<Rightarrow> Some (r\<lparr>start_semaphore := semaphore_release (start_semaphore r),
             runner_threads := (runner_threads r)[i := Released]\<rparr>)
         | Released \<Rightarrow> Some (r\<lparr>runner_threads := (runner_threads r)
             [i := if number_running r > 0 then Working else Finished False]\<rparr>)
         | Working \<Rightarrow> Some (r\<lparr>runner_threads := (runner_threads r)[i := Finished True]\<rparr>)
         | Finished _ \<Rightarrow> None)
      else None)"

definition finished_thread :: "thread \<Rightarrow> bool" where
  "finished_thread t \<longleftrightarrow> t = Finished True \<or> t = Finished False"

text \<open>\<open>wait_for_completion\<close> after its first test: the joins are over when the threads are, then the
  semaphore is taken back.\<close>

definition complete_wait :: "runner \<Rightarrow> runner option" where
  "complete_wait r =
     (if list_all finished_thread (take (nat \<bar>number_running r\<bar>) (runner_threads r)) then
        map_option (\<lambda>s. r\<lparr>start_semaphore := s, number_running := 0, runner_threads := [], phase := Idle\<rparr>)
          (semaphore_acquire (start_semaphore r))
      else None)"

text \<open>\<open>start\<close>'s \<open>catch\<close>: the count is negated, the semaphore released, and the threads are waited
  for, unless there are none.\<close>

definition start_failed :: "runner \<Rightarrow> runner" where
  "start_failed r =
     r\<lparr>number_running := - number_running r, start_semaphore := semaphore_release (start_semaphore r),
       phase := if number_running r = 0 then Idle else Failing\<rparr>"

inductive runner_step :: "runner \<Rightarrow> runner \<Rightarrow> bool" where
  start_called: "phase r = Idle \<Longrightarrow> number_running r = 0 \<Longrightarrow>
    runner_step r (r\<lparr>phase := Starting (start_target to_start r)\<rparr>)"
| thread_created: "phase r = Starting target \<Longrightarrow> number_running r < int target \<Longrightarrow>
    start_one_thread True r = Inr (Some r') \<Longrightarrow> runner_step r r'"
| creation_failed: "phase r = Starting target \<Longrightarrow> number_running r < int target \<Longrightarrow>
    start_one_thread False r = Inr None \<Longrightarrow> runner_step r (start_failed r)"
| all_created: "phase r = Starting target \<Longrightarrow> \<not> number_running r < int target \<Longrightarrow>
    runner_step r (r\<lparr>start_semaphore := semaphore_release (start_semaphore r), phase := Idle\<rparr>)"
| wait_called: "phase r = Idle \<Longrightarrow> number_running r \<noteq> 0 \<Longrightarrow> runner_step r (r\<lparr>phase := Joining\<rparr>)"
| wait_finished: "phase r = Joining \<or> phase r = Failing \<Longrightarrow> complete_wait r = Some r' \<Longrightarrow> runner_step r r'"
| thread_runs: "thread_func i r = Some r' \<Longrightarrow> runner_step r r'"

text \<open>The runs of a runner of that many jobs in which no \<open>start\<close> fails on its first thread.\<close>

definition first_thread_failed :: "runner \<Rightarrow> runner \<Rightarrow> bool" where
  "first_thread_failed r r' \<longleftrightarrow> phase r \<noteq> Idle \<and> phase r' = Idle \<and> number_running r = 0"

inductive runner_reachable :: "nat \<Rightarrow> runner \<Rightarrow> bool" for jobs where
  reach_new: "runner_reachable jobs (runner_new jobs)"
| reach_step: "runner_reachable jobs r \<Longrightarrow> runner_step r r' \<Longrightarrow> \<not> first_thread_failed r r' \<Longrightarrow>
    runner_reachable jobs r'"

subsection \<open>The invariant\<close>

definition holding :: "thread list \<Rightarrow> int" where
  "holding ts = int (length (filter (\<lambda>t. t = Holding) ts))"

text \<open>One permit is in the semaphore or with one thread.\<close>

definition one_permit :: "runner \<Rightarrow> bool" where
  "one_permit r \<longleftrightarrow> 0 \<le> start_semaphore r \<and> start_semaphore r + holding (runner_threads r) = 1"

definition no_job_run :: "thread list \<Rightarrow> bool" where
  "no_job_run ts \<longleftrightarrow> Working \<notin> set ts \<and> Finished True \<notin> set ts"

definition runner_inv :: "nat \<Rightarrow> runner \<Rightarrow> bool" where
  "runner_inv jobs r \<longleftrightarrow>
     number_of_jobs r = jobs \<and> int (length (runner_threads r)) = \<bar>number_running r\<bar> \<and>
     (case phase r of
        Idle \<Rightarrow> 0 \<le> number_running r \<and>
          (if number_running r = 0 then start_semaphore r = 0 else one_permit r)
      | Starting target \<Rightarrow> 0 < target \<and> target \<le> jobs \<and> 0 \<le> number_running r \<and>
          number_running r \<le> int target \<and> start_semaphore r = 0 \<and>
          set (runner_threads r) \<subseteq> {Blocked}
      | Failing \<Rightarrow> number_running r < 0 \<and> one_permit r \<and> no_job_run (runner_threads r)
      | Joining \<Rightarrow> 0 < number_running r \<and> one_permit r)"

lemma holding_Blocked: "set ts \<subseteq> {Blocked} \<Longrightarrow> holding ts = 0"
  by (auto simp: holding_def filter_empty_conv)

lemma holding_simps:
  "holding [] = 0" "holding (a # ts) = (if a = Holding then 1 else 0) + holding ts"
  by (simp_all add: holding_def)

lemma holding_update:
  "i < length ts \<Longrightarrow> holding (ts[i := t]) =
    holding ts - (if ts ! i = Holding then 1 else 0) + (if t = Holding then 1 else 0)"
proof (induction ts arbitrary: i)
  case (Cons a ts)
  then show ?case by (cases i) (auto simp: holding_simps)
qed simp

lemma holding_nonneg [simp]: "0 \<le> holding ts"
  by (simp add: holding_def)

lemma holding_member: "i < length ts \<Longrightarrow> ts ! i = Holding \<Longrightarrow> 1 \<le> holding ts"
  using holding_update [of i ts Blocked] holding_nonneg [of "ts[i := Blocked]"] by simp

lemma holding_finished: "list_all finished_thread ts \<Longrightarrow> holding ts = 0"
  by (auto simp: holding_def list_all_iff finished_thread_def filter_empty_conv)

lemma no_job_run_update:
  "no_job_run ts \<Longrightarrow> t \<noteq> Working \<Longrightarrow> t \<noteq> Finished True \<Longrightarrow> no_job_run (ts[i := t])"
  using set_update_subset_insert [of ts i t] by (auto simp: no_job_run_def)

lemma thread_func_frame:
  assumes "thread_func i r = Some r'"
  shows "number_running r' = number_running r" and "number_of_jobs r' = number_of_jobs r"
    and "phase r' = phase r" and "length (runner_threads r') = length (runner_threads r)"
  using assms by (auto simp: thread_func_def split: if_splits thread.splits)

lemma thread_func_permit:
  assumes "thread_func i r = Some r'" and "one_permit r"
  shows "one_permit r'"
proof -
  have i: "i < length (runner_threads r)" using assms(1) by (auto simp: thread_func_def split: if_splits)
  show ?thesis
    using assms i holding_member [OF i] holding_nonneg [of "runner_threads r"]
    by (cases "runner_threads r ! i")
      (auto simp: thread_func_def one_permit_def holding_update semaphore_acquire_def
        semaphore_release_def machine_int split: if_splits)
qed

lemma thread_func_no_job:
  assumes "thread_func i r = Some r'" and "number_running r < 0" and "no_job_run (runner_threads r)"
  shows "no_job_run (runner_threads r')"
proof -
  have i: "i < length (runner_threads r)" using assms(1) by (auto simp: thread_func_def split: if_splits)
  then have "runner_threads r ! i \<noteq> Working" using assms(3) by (metis no_job_run_def nth_mem)
  then show ?thesis
    using assms i
    by (cases "runner_threads r ! i") (auto simp: thread_func_def intro: no_job_run_update)
qed

lemma thread_func_blocked:
  assumes "set (runner_threads r) \<subseteq> {Blocked}" and "start_semaphore r = 0"
  shows "thread_func i r = None"
proof (cases "i < length (runner_threads r)")
  case True
  then have "runner_threads r ! i = Blocked" using assms(1) nth_mem by blast
  then show ?thesis using assms(2) by (simp add: thread_func_def semaphore_acquire_def)
qed (simp add: thread_func_def)

lemma complete_wait_inv:
  assumes "complete_wait r = Some r'" and "runner_inv jobs r" and "one_permit r"
  shows "runner_inv jobs r'"
proof -
  have "nat \<bar>number_running r\<bar> = length (runner_threads r)"
    using assms(2) by (auto simp: runner_inv_def)
  then have "holding (runner_threads r) = 0"
    using assms(1) holding_finished by (auto simp: complete_wait_def split: if_splits)
  then show ?thesis
    using assms by (auto simp: complete_wait_def runner_inv_def one_permit_def semaphore_acquire_def
        split: if_splits)
qed

lemma runner_step_inv:
  assumes "runner_step r r'" and "\<not> first_thread_failed r r'" and "runner_inv jobs r" and "0 < jobs"
  shows "runner_inv jobs r'"
  using assms(1)
proof (cases rule: runner_step.cases)
  case (start_called to_start)
  then show ?thesis
    using assms(3,4) by (auto simp: runner_inv_def start_target_def)
next
  case (thread_created target)
  then show ?thesis
    using assms(3) by (auto simp: runner_inv_def start_one_thread_def split: if_splits)
next
  case (creation_failed target)
  then show ?thesis
    using assms(2,3) by (auto simp: runner_inv_def start_failed_def first_thread_failed_def one_permit_def
        holding_Blocked semaphore_release_def no_job_run_def machine_int)
next
  case (all_created target)
  then show ?thesis
    using assms(3) by (auto simp: runner_inv_def one_permit_def holding_Blocked semaphore_release_def machine_int)
next
  case wait_called
  then show ?thesis using assms(3) by (auto simp: runner_inv_def one_permit_def)
next
  case wait_finished
  then have "one_permit r" using assms(3) by (auto simp: runner_inv_def)
  then show ?thesis using wait_finished assms(3) complete_wait_inv by blast
next
  case (thread_runs i)
  note fr = thread_func_frame [OF thread_runs]
  show ?thesis
  proof (cases "phase r")
    case (Starting t)
    then show ?thesis
      using thread_runs assms(3) thread_func_blocked [of r i] by (auto simp: runner_inv_def)
  next
    case Failing
    then show ?thesis
      using assms(3) fr thread_func_permit [OF thread_runs] thread_func_no_job [OF thread_runs]
      by (auto simp: runner_inv_def)
  next
    case Idle
    then show ?thesis
      using assms(3) fr thread_func_permit [OF thread_runs] thread_runs
      by (auto simp: runner_inv_def thread_func_def split: if_splits)
  next
    case Joining
    then show ?thesis
      using assms(3) fr thread_func_permit [OF thread_runs] by (auto simp: runner_inv_def)
  qed
qed

lemma runner_new_inv: "runner_inv jobs (runner_new jobs)"
  by (simp add: runner_inv_def runner_new_def semaphore_new_def)

lemma runner_reachable_inv:
  assumes "runner_reachable jobs r" and "0 < jobs"
  shows "runner_inv jobs r"
  using assms
  by (induction rule: runner_reachable.induct)
    (auto simp: runner_new_inv intro: runner_step_inv)



lemma reach_start_two:
  "runner_reachable 2 (runner_new 2)"
  "runner_reachable 2 ((runner_new 2)\<lparr>phase := Starting 2\<rparr>)"
  "runner_reachable 2 ((runner_new 2)\<lparr>phase := Starting 2, number_running := 1, runner_threads := [Blocked]\<rparr>)"
proof -
  show 0: "runner_reachable 2 (runner_new 2)" by (rule reach_new)
  have "runner_step (runner_new 2) ((runner_new 2)\<lparr>phase := Starting (start_target 0 (runner_new 2))\<rparr>)"
    by (rule start_called) (simp_all add: runner_new_def)
  then have "runner_step (runner_new 2) ((runner_new 2)\<lparr>phase := Starting 2\<rparr>)"
    by (simp add: start_target_def runner_new_def)
  then show 1: "runner_reachable 2 ((runner_new 2)\<lparr>phase := Starting 2\<rparr>)"
    by (rule reach_step [OF 0]) (simp add: first_thread_failed_def)
  have "runner_step ((runner_new 2)\<lparr>phase := Starting 2\<rparr>)
      ((runner_new 2)\<lparr>phase := Starting 2, number_running := 1, runner_threads := [Blocked]\<rparr>)"
    by (rule thread_created [of _ 2]) (simp_all add: start_one_thread_def runner_new_def)
  then show "runner_reachable 2 ((runner_new 2)\<lparr>phase := Starting 2, number_running := 1,
      runner_threads := [Blocked]\<rparr>)"
    by (rule reach_step [OF 1]) (simp add: first_thread_failed_def)
qed

lemma reach_failing_two:
  "runner_reachable 2 (start_failed ((runner_new 2)\<lparr>phase := Starting 2, number_running := 1,
      runner_threads := [Blocked]\<rparr>))"
proof (rule reach_step [OF reach_start_two(3)])
  show "runner_step ((runner_new 2)\<lparr>phase := Starting 2, number_running := 1, runner_threads := [Blocked]\<rparr>)
      (start_failed ((runner_new 2)\<lparr>phase := Starting 2, number_running := 1, runner_threads := [Blocked]\<rparr>))"
    by (rule creation_failed [of _ 2]) (simp_all add: start_one_thread_def runner_new_def)
qed (simp add: first_thread_failed_def start_failed_def)


subsection \<open>Waiting ends\<close>

fun stages_left :: "thread \<Rightarrow> nat" where
  "stages_left Blocked = 4"
| "stages_left Holding = 3"
| "stages_left Released = 2"
| "stages_left Working = 1"
| "stages_left (Finished _) = 0"

definition work_left :: "thread list \<Rightarrow> nat" where
  "work_left ts = sum_list (map stages_left ts)"

lemma work_left_update:
  "i < length ts \<Longrightarrow> stages_left t < stages_left (ts ! i) \<Longrightarrow> work_left (ts[i := t]) < work_left ts"
proof (induction ts arbitrary: i)
  case (Cons a ts)
  then show ?case by (cases i) (auto simp: work_left_def)
qed simp

lemma thread_func_work_left:
  assumes "thread_func i r = Some r'"
  shows "work_left (runner_threads r') < work_left (runner_threads r)"
proof -
  have i: "i < length (runner_threads r)" using assms by (auto simp: thread_func_def split: if_splits)
  show ?thesis
    using assms i
    by (cases "runner_threads r ! i") (auto simp: thread_func_def intro!: work_left_update)
qed

lemma thread_can_run:
  assumes "one_permit r" and "\<not> list_all finished_thread (runner_threads r)"
  shows "\<exists>i r'. thread_func i r = Some r'"
proof (cases "\<exists>t \<in> set (runner_threads r). t \<noteq> Blocked \<and> \<not> finished_thread t")
  case True
  then obtain i where i: "i < length (runner_threads r)" "runner_threads r ! i \<noteq> Blocked"
    "\<not> finished_thread (runner_threads r ! i)"
    by (metis in_set_conv_nth)
  then have "\<exists>r'. thread_func i r = Some r'"
    by (cases "runner_threads r ! i") (auto simp: thread_func_def finished_thread_def)
  then show ?thesis by blast
next
  case False
  then have "holding (runner_threads r) = 0"
    by (auto simp: holding_def filter_empty_conv finished_thread_def)
  then have s: "start_semaphore r = 1" using assms(1) by (simp add: one_permit_def)
  obtain i where i: "i < length (runner_threads r)" "\<not> finished_thread (runner_threads r ! i)"
    using assms(2) by (auto simp: list_all_length)
  then have "runner_threads r ! i = Blocked" using False nth_mem by blast
  then show ?thesis using s i(1) by (intro exI [of _ i]) (simp add: thread_func_def semaphore_acquire_def)
qed

lemma waiting_completes:
  assumes "runner_inv jobs r" and "phase r = Joining \<or> phase r = Failing"
  shows "\<exists>r'. runner_step\<^sup>*\<^sup>* r r' \<and> phase r' = Idle \<and> number_running r' = 0 \<and> start_semaphore r' = 0 \<and>
    runner_threads r' = [] \<and> number_of_jobs r' = jobs"
  using assms
proof (induction "work_left (runner_threads r)" arbitrary: r rule: less_induct)
  case less
  have p: "one_permit r" using less.prems by (auto simp: runner_inv_def)
  show ?case
  proof (cases "list_all finished_thread (runner_threads r)")
    case True
    have "nat \<bar>number_running r\<bar> = length (runner_threads r)" "number_of_jobs r = jobs"
      using less.prems(1) by (auto simp: runner_inv_def)
    moreover have "start_semaphore r = 1" using p holding_finished [OF True] by (simp add: one_permit_def)
    ultimately have "complete_wait r = Some (r\<lparr>start_semaphore := 0, number_running := 0,
        runner_threads := [], phase := Idle\<rparr>)"
      using True by (simp add: complete_wait_def semaphore_acquire_def)
    from r_into_rtranclp [of runner_step, OF wait_finished [OF less.prems(2) this]] show ?thesis
      using \<open>number_of_jobs r = jobs\<close> by fastforce
  next
    case False
    then obtain i r1 where r1: "thread_func i r = Some r1" using thread_can_run [OF p] by blast
    note fr = thread_func_frame [OF r1]
    have inv1: "runner_inv jobs r1"
      using less.prems fr thread_func_permit [OF r1 p] thread_func_no_job [OF r1]
      by (auto simp: runner_inv_def)
    obtain r' where "runner_step\<^sup>*\<^sup>* r1 r' \<and> phase r' = Idle \<and> number_running r' = 0 \<and>
        start_semaphore r' = 0 \<and> runner_threads r' = [] \<and> number_of_jobs r' = jobs"
      using less.hyps [OF thread_func_work_left [OF r1] inv1] less.prems(2) fr(3) by auto
    then show ?thesis
      using converse_rtranclp_into_rtranclp [of runner_step, OF thread_runs [OF r1]] by blast
  qed
qed



text \<open>\<open>start\<close> whose first thread cannot be created leaves a permit in the semaphore, which nobody
  takes back: the threads of the next \<open>start\<close> are not held back, and when that one fails on its
  second thread its first job has already run.\<close>

theorem first_thread_failure_breaks_group_start:
  "\<exists>r. runner_step\<^sup>*\<^sup>* (runner_new 2) r \<and> phase r = Failing \<and> Finished True \<in> set (runner_threads r)"
proof -
  let ?r = "\<lambda>s n ts ph. \<lparr>start_semaphore = s, number_running = n, number_of_jobs = 2,
    runner_threads = ts, phase = ph\<rparr>"
  note defs = start_target_def start_one_thread_def start_failed_def thread_func_def
    semaphore_acquire_def semaphore_release_def machine_int
  have "runner_step (?r s 0 ts Idle) (?r s 0 ts (Starting 2))" for s ts
    using start_called [of "?r s 0 ts Idle" 0] by (simp add: defs)
  moreover have "runner_step (?r 0 0 [] (Starting 2)) (?r 1 0 [] Idle)"
    using creation_failed [of "?r 0 0 [] (Starting 2)" 2] by (simp add: defs)
  moreover have "runner_step (?r 1 0 [] (Starting 2)) (?r 1 1 [Blocked] (Starting 2))"
    using thread_created [of "?r 1 0 [] (Starting 2)" 2] by (simp add: defs)
  moreover have "runner_step (?r 1 1 [Blocked] (Starting 2)) (?r 0 1 [Holding] (Starting 2))"
    "runner_step (?r 0 1 [Holding] (Starting 2)) (?r 1 1 [Released] (Starting 2))"
    "runner_step (?r 1 1 [Released] (Starting 2)) (?r 1 1 [Working] (Starting 2))"
    "runner_step (?r 1 1 [Working] (Starting 2)) (?r 1 1 [Finished True] (Starting 2))"
    by (rule thread_runs [of 0]; simp add: defs)+
  moreover have "runner_step (?r 1 1 [Finished True] (Starting 2)) (?r 2 (- 1) [Finished True] Failing)"
    using creation_failed [of "?r 1 1 [Finished True] (Starting 2)" 2] by (simp add: defs)
  ultimately have "runner_step\<^sup>*\<^sup>* (?r 0 0 [] Idle) (?r 2 (- 1) [Finished True] Failing)"
    by (meson converse_rtranclp_into_rtranclp rtranclp.rtrancl_refl)
  then show ?thesis
    by (intro exI [of _ "?r 2 (- 1) [Finished True] Failing"]) (simp add: runner_new_def semaphore_new_def)
qed

end
