(* ===== verification/ActiveObjects.thy ===== *)
theory ActiveObjects
  imports GearsThreads
begin

section \<open>Active objects (gears/ActiveObject.hpp, .cpp, CompositeActiveObject.hpp, DelegateActiveObject.hpp)\<close>

text \<open>
  Everything that owns threads here is an active object: it is activated, asked to deactivate, and
  waited for. \<open>SimpleActiveObject\<close> is the state machine, with hooks for what an heir does in each
  call; \<open>ActiveObjectCommonImpl\<close> runs a job in the threads of a \<open>ThreadRunner\<close>, which
  \<open>DelegateActiveObject\<close> makes of a function; \<open>CompositeActiveObjectBase\<close> is a
  \<open>SimpleActiveObject\<close> whose hooks drive a list of other active objects. A poller is a composite of
  its worker threads, a pool a composite of pollers, a context a composite of a pool.

  A call is done, throws, or blocks its caller. A blocked call has changed what it changed so far
  and is resumed when the state it waits for has come; the theorems are about calls that do not
  block. The operations of an object are a record of functions, the virtual methods.

  The locale \<open>active_object\<close> is the contract of such an object. It holds for a delegate and for a
  \<open>SimpleActiveObject\<close> without hooks, and for every composite of objects that keep it: a composite
  activates all its children or leaves all of them as they were, and one round of activating,
  deactivating and waiting brings it and its children back to where they started.
\<close>

datatype active_state = AS_ACTIVE | AS_DEACTIVATING | AS_NOT_ACTIVE

datatype ao_answer = Done | Throws | Blocks

record 'c active_class =
  vactivate :: "'c \<Rightarrow> ao_answer \<times> 'c"
  vdeactivate :: "'c \<Rightarrow> ao_answer \<times> 'c"
  vwait_object :: "'c \<Rightarrow> ao_answer \<times> 'c"
  vactive :: "'c \<Rightarrow> bool"
  vclear :: "'c \<Rightarrow> ao_answer \<times> 'c"

subsection \<open>\<open>SimpleActiveObject\<close>\<close>

record 's simple =
  simple_state :: active_state
  heir :: 's

record 's simple_hooks =
  hook_activate :: "'s simple \<Rightarrow> ao_answer \<times> 's simple"
  hook_deactivate :: "'s simple \<Rightarrow> ao_answer \<times> 's simple"
  hook_wait_more :: "'s simple \<Rightarrow> bool"
  hook_wait :: "'s simple \<Rightarrow> ao_answer \<times> 's simple"

definition simple_new :: "'s \<Rightarrow> 's simple" where
  "simple_new s = \<lparr>simple_state = AS_NOT_ACTIVE, heir = s\<rparr>"

definition default_hooks :: "'s simple_hooks" where
  "default_hooks = \<lparr>hook_activate = (\<lambda>obj. (Done, obj)), hook_deactivate = (\<lambda>obj. (Done, obj)),
     hook_wait_more = (\<lambda>_. False), hook_wait = (\<lambda>obj. (Done, obj))\<rparr>"

definition simple_activate :: "'s simple_hooks \<Rightarrow> 's simple \<Rightarrow> ao_answer \<times> 's simple" where
  "simple_activate hooks obj =
     (if simple_state obj = AS_NOT_ACTIVE then
        (case hook_activate hooks obj of
           (Done, obj) \<Rightarrow> (Done, obj\<lparr>simple_state := AS_ACTIVE\<rparr>)
         | r \<Rightarrow> r)
      else (Throws, obj))"

definition simple_deactivate :: "'s simple_hooks \<Rightarrow> 's simple \<Rightarrow> ao_answer \<times> 's simple" where
  "simple_deactivate hooks obj =
     (if simple_state obj \<noteq> AS_ACTIVE then (Done, obj)
      else case hook_deactivate hooks (obj\<lparr>simple_state := AS_DEACTIVATING\<rparr>) of
             (Throws, obj) \<Rightarrow> (Throws, obj\<lparr>simple_state := AS_ACTIVE\<rparr>)
           | r \<Rightarrow> r)"

definition simple_wait :: "'s simple_hooks \<Rightarrow> 's simple \<Rightarrow> ao_answer \<times> 's simple" where
  "simple_wait hooks obj =
     (if simple_state obj = AS_ACTIVE \<or> hook_wait_more hooks obj then (Blocks, obj)
      else case hook_wait hooks obj of
             (Done, obj) \<Rightarrow>
               (Done, if simple_state obj = AS_DEACTIVATING then obj\<lparr>simple_state := AS_NOT_ACTIVE\<rparr> else obj)
           | r \<Rightarrow> r)"

definition simple_active :: "'s simple \<Rightarrow> bool" where
  "simple_active obj \<longleftrightarrow> simple_state obj = AS_ACTIVE"

definition simple_class :: "'s simple_hooks \<Rightarrow> 's simple active_class" where
  "simple_class hooks =
     \<lparr>vactivate = simple_activate hooks, vdeactivate = simple_deactivate hooks,
      vwait_object = simple_wait hooks, vactive = simple_active, vclear = (\<lambda>obj. (Done, obj))\<rparr>"

subsection \<open>\<open>ActiveObjectCommonImpl\<close> and \<open>DelegateActiveObject\<close>\<close>

text \<open>
  The thread runner is seen through its two calls: \<open>start\<close> creates all its threads or throws with
  none left, as the next answer in \<open>starts\<close> says (none left: it succeeds); \<open>wait_for_completion\<close> returns
  when every job has. The job of a delegate calls its function until it sees \<open>terminating_\<close>; the
  function itself may never return (\<open>delegate_stuck\<close>).
\<close>

record common =
  common_state :: active_state
  terminating :: bool
  running_jobs :: nat
  threads_number :: nat
  start_threads :: nat
  starts :: "bool list"
  delegate_stuck :: bool

definition common_new :: "nat \<Rightarrow> nat \<Rightarrow> bool list \<Rightarrow> bool \<Rightarrow> common option" where
  "common_new threads to_start answers stuck =
     (if threads = 0 then None
      else Some \<lparr>common_state = AS_NOT_ACTIVE, terminating = False, running_jobs = 0,
        threads_number = threads, start_threads = to_start, starts = answers, delegate_stuck = stuck\<rparr>)"

definition runner_start :: "common \<Rightarrow> ao_answer \<times> common" where
  "runner_start c =
     (if running_jobs c \<noteq> 0 then (Throws, c)
      else if starts c \<noteq> [] \<and> \<not> hd (starts c) then (Throws, c\<lparr>starts := tl (starts c)\<rparr>)
      else (Done, c\<lparr>starts := tl (starts c),
        running_jobs := start_target (start_threads c) (runner_new (threads_number c))\<rparr>))"

definition runner_wait :: "common \<Rightarrow> ao_answer \<times> common" where
  "runner_wait c =
     (if running_jobs c \<noteq> 0 \<and> (\<not> terminating c \<or> delegate_stuck c) then (Blocks, c)
      else (Done, c\<lparr>running_jobs := 0\<rparr>))"

definition make_terminate :: "common \<Rightarrow> common" where
  "make_terminate c = c\<lparr>terminating := True\<rparr>"

definition terminated :: "common \<Rightarrow> common" where
  "terminated c = c\<lparr>terminating := False\<rparr>"

definition common_activate :: "common \<Rightarrow> ao_answer \<times> common" where
  "common_activate c =
     (if common_state c \<noteq> AS_NOT_ACTIVE then (Throws, c)
      else case runner_start (c\<lparr>common_state := AS_ACTIVE\<rparr>) of
             (Throws, c) \<Rightarrow> (Throws, c\<lparr>common_state := AS_NOT_ACTIVE\<rparr>)
           | r \<Rightarrow> r)"

definition common_deactivate :: "common \<Rightarrow> ao_answer \<times> common" where
  "common_deactivate c =
     (if common_state c = AS_ACTIVE then (Done, make_terminate (c\<lparr>common_state := AS_DEACTIVATING\<rparr>))
      else (Done, c))"

definition common_wait :: "common \<Rightarrow> ao_answer \<times> common" where
  "common_wait c =
     (case (if common_state c \<noteq> AS_NOT_ACTIVE then map_prod id terminated (runner_wait c) else (Done, c)) of
        (Done, c) \<Rightarrow>
          (Done, if common_state c = AS_DEACTIVATING then c\<lparr>common_state := AS_NOT_ACTIVE\<rparr> else c)
      | _ \<Rightarrow> (Blocks, c))"

definition common_active :: "common \<Rightarrow> bool" where
  "common_active c \<longleftrightarrow> common_state c = AS_ACTIVE"

text \<open>The destructor, with the text of the warning it gives: whether the object was still active, and
  whether anything was wrong.\<close>

definition common_delete :: "common \<Rightarrow> ao_answer \<times> bool \<times> bool \<times> common" where
  "common_delete c =
     (if common_state c \<noteq> AS_NOT_ACTIVE then
        (case runner_wait (make_terminate c) of
           (Done, c1) \<Rightarrow> (Done, common_state c = AS_ACTIVE, True, terminated c1)
         | (a, c1) \<Rightarrow> (a, common_state c = AS_ACTIVE, True, c1))
      else (Done, False, False, c))"

text \<open>The job's loop, for what \<open>is_terminating\<close> answers each time: the number of calls of the
  delegate, and whether the loop has ended.\<close>

fun delegate_work :: "bool list \<Rightarrow> nat \<times> bool" where
  "delegate_work [] = (0, False)"
| "delegate_work (t # ts) = (if t then (0, True) else map_prod Suc id (delegate_work ts))"

definition common_class :: "common active_class" where
  "common_class =
     \<lparr>vactivate = common_activate, vdeactivate = common_deactivate, vwait_object = common_wait,
      vactive = common_active, vclear = (\<lambda>c. (Done, c))\<rparr>"


subsection \<open>\<open>CompositeActiveObjectBase\<close>\<close>

record 'c composite =
  SYNCHRONOUS :: bool
  CLEAR_ON_EXIT :: bool
  child_objects :: "'c list"

definition composite_new :: "bool \<Rightarrow> bool \<Rightarrow> 'c composite simple" where
  "composite_new sync_termination clear_on_exit =
     simple_new \<lparr>SYNCHRONOUS = sync_termination, CLEAR_ON_EXIT = clear_on_exit, child_objects = []\<rparr>"

definition children :: "'c composite simple \<Rightarrow> 'c list" where
  "children obj = child_objects (heir obj)"

definition set_children :: "'c list \<Rightarrow> 'c composite simple \<Rightarrow> 'c composite simple" where
  "set_children cs obj = obj\<lparr>heir := (heir obj)\<lparr>child_objects := cs\<rparr>\<rparr>"

text \<open>
  The loops over the children take them in the order they are visited. An exception of a child is
  kept for the end and does not stop the loop; a child that blocks does.
\<close>

definition then_rest :: "ao_answer \<Rightarrow> 'c \<Rightarrow> ao_answer \<times> 'c list \<Rightarrow> ao_answer \<times> 'c list" where
  "then_rest a c r =
     (if fst r = Blocks then Blocks else if a = Throws then Throws else fst r, c # snd r)"

fun wait_for_some_objects :: "'c active_class \<Rightarrow> 'c list \<Rightarrow> ao_answer \<times> 'c list" where
  "wait_for_some_objects cls [] = (Done, [])"
| "wait_for_some_objects cls (c # cs) =
     (case vwait_object cls c of
        (Blocks, c1) \<Rightarrow> (Blocks, c1 # cs)
      | (a, c1) \<Rightarrow> then_rest a c1 (wait_for_some_objects cls cs))"

fun deactivate_some_objects :: "'c active_class \<Rightarrow> bool \<Rightarrow> 'c list \<Rightarrow> ao_answer \<times> 'c list" where
  "deactivate_some_objects cls sync [] = (Done, [])"
| "deactivate_some_objects cls sync (c # cs) =
     (case vdeactivate cls c of
        (Blocks, c1) \<Rightarrow> (Blocks, c1 # cs)
      | (Throws, c1) \<Rightarrow> then_rest Throws c1 (deactivate_some_objects cls sync cs)
      | (Done, c1) \<Rightarrow>
          (if sync then
             (case vwait_object cls c1 of
                (Blocks, c2) \<Rightarrow> (Blocks, c2 # cs)
              | (a, c2) \<Rightarrow> then_rest a c2 (deactivate_some_objects cls sync cs))
           else then_rest Done c1 (deactivate_some_objects cls sync cs)))"

text \<open>The loop of \<open>activate_object_\<close>: the children before the first that fails, and the others.\<close>

fun activate_some_objects :: "'c active_class \<Rightarrow> 'c list \<Rightarrow> ao_answer \<times> 'c list \<times> 'c list" where
  "activate_some_objects cls [] = (Done, [], [])"
| "activate_some_objects cls (c # cs) =
     (case vactivate cls c of
        (Done, c1) \<Rightarrow>
          (case activate_some_objects cls cs of (a, started, rest) \<Rightarrow> (a, c1 # started, rest))
      | (a, c1) \<Rightarrow> (a, [], c1 # cs))"

text \<open>\<open>deactivate_object_\<close> and then \<open>wait_for_some_objects_\<close>, which is skipped by an exception.\<close>

definition stop_objects :: "'c active_class \<Rightarrow> bool \<Rightarrow> 'c list \<Rightarrow> ao_answer \<times> 'c list" where
  "stop_objects cls sync cs =
     (case deactivate_some_objects cls sync cs of
        (Done, cs) \<Rightarrow> wait_for_some_objects cls cs
      | r \<Rightarrow> r)"

definition composite_activate_hook ::
  "'c active_class \<Rightarrow> 'c composite simple \<Rightarrow> ao_answer \<times> 'c composite simple" where
  "composite_activate_hook cls obj =
     (case activate_some_objects cls (children obj) of
        (Done, started, rest) \<Rightarrow> (Done, set_children (started @ rest) obj)
      | (Blocks, started, rest) \<Rightarrow> (Blocks, set_children (started @ rest) obj)
      | (Throws, started, rest) \<Rightarrow>
          (case stop_objects cls (SYNCHRONOUS (heir obj)) (rev started) of
             (Blocks, stopped) \<Rightarrow>
               (Blocks, set_children (rev stopped @ rest) (obj\<lparr>simple_state := AS_DEACTIVATING\<rparr>))
           | (_, stopped) \<Rightarrow>
               (Throws, set_children (rev stopped @ rest) (obj\<lparr>simple_state := AS_NOT_ACTIVE\<rparr>))))"

definition composite_deactivate_hook ::
  "'c active_class \<Rightarrow> 'c composite simple \<Rightarrow> ao_answer \<times> 'c composite simple" where
  "composite_deactivate_hook cls obj =
     (case deactivate_some_objects cls (SYNCHRONOUS (heir obj)) (rev (children obj)) of
        (a, cs) \<Rightarrow> (a, set_children (rev cs) obj))"

definition composite_wait_hook ::
  "'c active_class \<Rightarrow> 'c composite simple \<Rightarrow> ao_answer \<times> 'c composite simple" where
  "composite_wait_hook cls obj =
     (case wait_for_some_objects cls (rev (children obj)) of
        (a, cs) \<Rightarrow> (a, set_children (rev cs) obj))"

definition composite_hooks :: "'c active_class \<Rightarrow> 'c composite simple_hooks" where
  "composite_hooks cls =
     \<lparr>hook_activate = composite_activate_hook cls, hook_deactivate = composite_deactivate_hook cls,
      hook_wait_more = (\<lambda>_. False), hook_wait = composite_wait_hook cls\<rparr>"

fun clear_objects :: "'c active_class \<Rightarrow> 'c list \<Rightarrow> ao_answer \<times> 'c list" where
  "clear_objects cls [] = (Done, [])"
| "clear_objects cls (c # cs) =
     (case vclear cls c of
        (Done, c1) \<Rightarrow> (case clear_objects cls cs of (a, cs1) \<Rightarrow> (a, c1 # cs1))
      | (a, c1) \<Rightarrow> (a, c1 # cs))"

definition composite_clear ::
  "'c active_class \<Rightarrow> 'c composite simple \<Rightarrow> ao_answer \<times> 'c composite simple" where
  "composite_clear cls obj =
     (case clear_objects cls (children obj) of (a, cs) \<Rightarrow> (a, set_children cs obj))"

text \<open>The object a new child is put into sets its state first: the child comes back changed or not.\<close>

definition add_child_object ::
  "'c active_class \<Rightarrow> 'c \<Rightarrow> bool \<Rightarrow> 'c composite simple \<Rightarrow> ao_answer \<times> 'c \<times> 'c composite simple" where
  "add_child_object cls child add_to_head obj =
     (case (if simple_state obj = AS_ACTIVE then
              (if \<not> vactive cls child then vactivate cls child else (Done, child))
            else if vactive cls child then
              (case vdeactivate cls child of (Done, c1) \<Rightarrow> vwait_object cls c1 | r \<Rightarrow> r)
            else (Done, child)) of
        (Done, c) \<Rightarrow>
          (Done, c, set_children (if add_to_head then c # children obj else children obj @ [c]) obj)
      | (a, c) \<Rightarrow> (a, c, obj))"

definition clear_children ::
  "'c active_class \<Rightarrow> 'c composite simple \<Rightarrow> ao_answer \<times> 'c composite simple" where
  "clear_children cls obj =
     (if simple_state obj \<noteq> AS_NOT_ACTIVE then
        (case stop_objects cls (SYNCHRONOUS (heir obj)) (rev (children obj)) of
           (Done, _) \<Rightarrow> (Done, set_children [] (obj\<lparr>simple_state := AS_NOT_ACTIVE\<rparr>))
         | (a, cs) \<Rightarrow> (a, set_children (rev cs) obj))
      else (Done, set_children [] obj))"

text \<open>The destructor's body: exceptions of \<open>clear\<close> and \<open>clear_children\<close> end the one and not the other.\<close>

definition composite_delete ::
  "'c active_class \<Rightarrow> 'c composite simple \<Rightarrow> ao_answer \<times> 'c composite simple" where
  "composite_delete cls obj =
     (case (if CLEAR_ON_EXIT (heir obj) then composite_clear cls obj else (Done, obj)) of
        (Blocks, obj) \<Rightarrow> (Blocks, obj)
      | (_, obj) \<Rightarrow>
          (case clear_children cls obj of
             (Blocks, obj) \<Rightarrow> (Blocks, obj)
           | (_, obj) \<Rightarrow> (Done, obj)))"

definition composite_class :: "'c active_class \<Rightarrow> 'c composite simple active_class" where
  "composite_class cls =
     \<lparr>vactivate = simple_activate (composite_hooks cls),
      vdeactivate = simple_deactivate (composite_hooks cls),
      vwait_object = simple_wait (composite_hooks cls), vactive = simple_active,
      vclear = composite_clear cls\<rparr>"

subsection \<open>The contract\<close>

definition all_in :: "('c \<Rightarrow> bool) \<Rightarrow> ('c \<Rightarrow> active_state) \<Rightarrow> active_state set \<Rightarrow> 'c list \<Rightarrow> bool" where
  "all_in ok state_of S cs \<longleftrightarrow> (\<forall>c \<in> set cs. ok c \<and> state_of c \<in> S)"

text \<open>What a composite of such objects keeps: its children's states follow its own.\<close>

definition composite_ok ::
  "('c \<Rightarrow> bool) \<Rightarrow> ('c \<Rightarrow> active_state) \<Rightarrow> 'c composite simple \<Rightarrow> bool" where
  "composite_ok ok state_of obj \<longleftrightarrow>
     all_in ok state_of
       (case simple_state obj of
          AS_ACTIVE \<Rightarrow> {AS_ACTIVE}
        | AS_DEACTIVATING \<Rightarrow> {AS_DEACTIVATING, AS_NOT_ACTIVE}
        | AS_NOT_ACTIVE \<Rightarrow> {AS_NOT_ACTIVE}) (children obj)"

lemma all_in_simps [simp]:
  "all_in ok state_of S []"
  "all_in ok state_of S (c # cs) \<longleftrightarrow> ok c \<and> state_of c \<in> S \<and> all_in ok state_of S cs"
  "all_in ok state_of S (cs @ ds) \<longleftrightarrow> all_in ok state_of S cs \<and> all_in ok state_of S ds"
  "all_in ok state_of S (rev cs) \<longleftrightarrow> all_in ok state_of S cs"
  by (auto simp: all_in_def)

lemma all_in_mono: "all_in ok state_of S cs \<Longrightarrow> S \<subseteq> T \<Longrightarrow> all_in ok state_of T cs"
  by (auto simp: all_in_def)

lemma set_children_simps [simp]:
  "children (set_children cs obj) = cs" "simple_state (set_children cs obj) = simple_state obj"
  "children (obj\<lparr>simple_state := s\<rparr>) = children obj"
  "simple_state (set_children cs (obj\<lparr>simple_state := s\<rparr>)) = s"
  by (simp_all add: children_def set_children_def)

locale active_object =
  fixes cls :: "'c active_class" and state_of :: "'c \<Rightarrow> active_state" and ok :: "'c \<Rightarrow> bool"
  assumes activate_law: "ok c \<Longrightarrow> state_of c = AS_NOT_ACTIVE \<Longrightarrow>
      \<exists>c'. ok c' \<and> (vactivate cls c = (Done, c') \<and> state_of c' = AS_ACTIVE \<or>
        vactivate cls c = (Throws, c') \<and> state_of c' = AS_NOT_ACTIVE)"
    and deactivate_law: "ok c \<Longrightarrow> \<exists>c'. vdeactivate cls c = (Done, c') \<and> ok c' \<and>
      state_of c' = (if state_of c = AS_ACTIVE then AS_DEACTIVATING else state_of c)"
    and wait_law: "ok c \<Longrightarrow> state_of c \<noteq> AS_ACTIVE \<Longrightarrow>
      \<exists>c'. vwait_object cls c = (Done, c') \<and> ok c' \<and> state_of c' = AS_NOT_ACTIVE"
    and active_law: "vactive cls c \<longleftrightarrow> state_of c = AS_ACTIVE"
begin

lemma waiting_stops:
  "all_in ok state_of {AS_DEACTIVATING, AS_NOT_ACTIVE} cs \<Longrightarrow>
   \<exists>cs'. wait_for_some_objects cls cs = (Done, cs') \<and> all_in ok state_of {AS_NOT_ACTIVE} cs' \<and> length cs' = length cs"
proof (induction cs)
  case (Cons c cs)
  obtain cs' where cs': "wait_for_some_objects cls cs = (Done, cs')" "all_in ok state_of {AS_NOT_ACTIVE} cs'"
    "length cs' = length cs"
    using Cons by auto
  obtain c' where "vwait_object cls c = (Done, c')" "ok c'" "state_of c' = AS_NOT_ACTIVE"
    using wait_law [of c] Cons.prems by auto
  then show ?case using cs' by (simp add: then_rest_def)
qed simp

lemma deactivation_proceeds:
  "all_in ok state_of UNIV cs \<Longrightarrow>
   \<exists>cs'. deactivate_some_objects cls sync cs = (Done, cs') \<and>
     all_in ok state_of {AS_DEACTIVATING, AS_NOT_ACTIVE} cs' \<and> length cs' = length cs"
proof (induction cs)
  case (Cons c cs)
  obtain cs' where cs': "deactivate_some_objects cls sync cs = (Done, cs')"
    "all_in ok state_of {AS_DEACTIVATING, AS_NOT_ACTIVE} cs'" "length cs' = length cs"
    using Cons by auto
  obtain c1 where c1: "vdeactivate cls c = (Done, c1)" "ok c1" "state_of c1 \<noteq> AS_ACTIVE"
    using deactivate_law [of c] Cons.prems by (auto split: if_splits)
  obtain c2 where c2: "vwait_object cls c1 = (Done, c2)" "ok c2" "state_of c2 = AS_NOT_ACTIVE"
    using wait_law [OF c1(2,3)] by blast
  have "state_of c1 \<in> {AS_DEACTIVATING, AS_NOT_ACTIVE}" using c1(3) by (cases "state_of c1") auto
  then show ?case using cs' c1 c2 by (cases sync) (simp_all add: then_rest_def)
qed simp

lemma stopping_stops:
  "all_in ok state_of UNIV cs \<Longrightarrow>
   \<exists>cs'. stop_objects cls sync cs = (Done, cs') \<and> all_in ok state_of {AS_NOT_ACTIVE} cs' \<and> length cs' = length cs"
  using deactivation_proceeds [of cs sync] waiting_stops by (fastforce simp: stop_objects_def)

lemma activation_splits:
  "all_in ok state_of {AS_NOT_ACTIVE} cs \<Longrightarrow>
   \<exists>a started rest. activate_some_objects cls cs = (a, started, rest) \<and>
     length started + length rest = length cs \<and> all_in ok state_of {AS_ACTIVE} started \<and> all_in ok state_of {AS_NOT_ACTIVE} rest \<and>
     (a = Done \<and> rest = [] \<or> a = Throws \<and> rest \<noteq> [])"
proof (induction cs)
  case (Cons c cs)
  obtain c' where c': "ok c'" "vactivate cls c = (Done, c') \<and> state_of c' = AS_ACTIVE \<or>
      vactivate cls c = (Throws, c') \<and> state_of c' = AS_NOT_ACTIVE"
    using activate_law [of c] Cons.prems by auto
  show ?case using c' Cons by auto
qed simp

lemma composite_activates:
  assumes "composite_ok ok state_of obj" and "simple_state obj = AS_NOT_ACTIVE"
  shows "\<exists>obj'. composite_ok ok state_of obj' \<and> length (children obj') = length (children obj) \<and>
    (simple_activate (composite_hooks cls) obj = (Done, obj') \<and> simple_state obj' = AS_ACTIVE \<or>
     simple_activate (composite_hooks cls) obj = (Throws, obj') \<and> simple_state obj' = AS_NOT_ACTIVE)"
proof -
  have "all_in ok state_of {AS_NOT_ACTIVE} (children obj)" using assms by (simp add: composite_ok_def)
  then obtain a started rest where run: "activate_some_objects cls (children obj) = (a, started, rest)"
    "length started + length rest = length (children obj)" "all_in ok state_of {AS_ACTIVE} started"
    "all_in ok state_of {AS_NOT_ACTIVE} rest" "a = Done \<and> rest = [] \<or> a = Throws \<and> rest \<noteq> []"
    using activation_splits by blast
  have "all_in ok state_of UNIV (rev started)" using run(3) by (auto intro: all_in_mono)
  then obtain cs where cs: "stop_objects cls (SYNCHRONOUS (heir obj)) (rev started) = (Done, cs)"
    "all_in ok state_of {AS_NOT_ACTIVE} cs" "length cs = length (rev started)"
    using stopping_stops by blast
  show ?thesis
    using run cs assms(2)
    by (auto simp: simple_activate_def composite_hooks_def composite_activate_hook_def composite_ok_def)
qed

lemma composite_deactivates:
  assumes "composite_ok ok state_of obj"
  shows "\<exists>obj'. simple_deactivate (composite_hooks cls) obj = (Done, obj') \<and> composite_ok ok state_of obj' \<and>
    length (children obj') = length (children obj) \<and>
    simple_state obj' = (if simple_state obj = AS_ACTIVE then AS_DEACTIVATING else simple_state obj)"
proof (cases "simple_state obj = AS_ACTIVE")
  case True
  then have "all_in ok state_of UNIV (rev (children obj))"
    using assms by (auto simp: composite_ok_def intro: all_in_mono)
  then obtain cs where "deactivate_some_objects cls (SYNCHRONOUS (heir obj)) (rev (children obj)) = (Done, cs)"
    "all_in ok state_of {AS_DEACTIVATING, AS_NOT_ACTIVE} cs" "length cs = length (rev (children obj))"
    using deactivation_proceeds by blast
  then show ?thesis
    using True by (simp add: simple_deactivate_def composite_hooks_def composite_deactivate_hook_def composite_ok_def)
qed (use assms in \<open>simp add: simple_deactivate_def\<close>)

lemma composite_waits:
  assumes "composite_ok ok state_of obj" and "simple_state obj \<noteq> AS_ACTIVE"
  shows "\<exists>obj'. simple_wait (composite_hooks cls) obj = (Done, obj') \<and> composite_ok ok state_of obj' \<and>
    length (children obj') = length (children obj) \<and> simple_state obj' = AS_NOT_ACTIVE"
proof -
  have "all_in ok state_of {AS_DEACTIVATING, AS_NOT_ACTIVE} (rev (children obj))"
    using assms by (cases "simple_state obj") (auto simp: composite_ok_def intro: all_in_mono)
  then obtain cs where "wait_for_some_objects cls (rev (children obj)) = (Done, cs)"
    "all_in ok state_of {AS_NOT_ACTIVE} cs" "length cs = length (rev (children obj))"
    using waiting_stops by blast
  then show ?thesis
    using assms(2)
    by (cases "simple_state obj")
      (simp_all add: simple_wait_def composite_hooks_def composite_wait_hook_def composite_ok_def)
qed

lemma composite_contract: "active_object (composite_class cls) simple_state (composite_ok ok state_of)"
proof
  fix obj
  show "vactive (composite_class cls) obj \<longleftrightarrow> simple_state obj = AS_ACTIVE"
    by (simp add: composite_class_def simple_active_def)
next
  fix obj assume "composite_ok ok state_of obj" "simple_state obj = AS_NOT_ACTIVE"
  from composite_activates [OF this] show "\<exists>obj'. composite_ok ok state_of obj' \<and>
      (vactivate (composite_class cls) obj = (Done, obj') \<and> simple_state obj' = AS_ACTIVE \<or>
       vactivate (composite_class cls) obj = (Throws, obj') \<and> simple_state obj' = AS_NOT_ACTIVE)"
    by (auto simp: composite_class_def)
next
  fix obj assume "composite_ok ok state_of obj"
  from composite_deactivates [OF this] show "\<exists>obj'. vdeactivate (composite_class cls) obj = (Done, obj') \<and>
      composite_ok ok state_of obj' \<and>
      simple_state obj' = (if simple_state obj = AS_ACTIVE then AS_DEACTIVATING else simple_state obj)"
    by (auto simp: composite_class_def)
next
  fix obj assume "composite_ok ok state_of obj" "simple_state obj \<noteq> AS_ACTIVE"
  from composite_waits [OF this] show "\<exists>obj'. vwait_object (composite_class cls) obj = (Done, obj') \<and>
      composite_ok ok state_of obj' \<and> simple_state obj' = AS_NOT_ACTIVE"
    by (auto simp: composite_class_def)
qed

text \<open>A child goes under the management of a composite in the composite's state.\<close>

lemma child_added:
  assumes "composite_ok ok state_of obj" and "simple_state obj \<noteq> AS_DEACTIVATING" and "ok child"
    and "state_of child \<noteq> AS_DEACTIVATING"
  shows "\<exists>c obj'. (add_child_object cls child head obj = (Done, c, obj') \<and>
        children obj' = (if head then c # children obj else children obj @ [c]) \<or>
      add_child_object cls child head obj = (Throws, c, obj') \<and> obj' = obj) \<and>
    composite_ok ok state_of obj' \<and> simple_state obj' = simple_state obj"
proof (cases "simple_state obj = AS_ACTIVE")
  case True
  show ?thesis
  proof (cases "state_of child = AS_ACTIVE")
    case False
    then have "state_of child = AS_NOT_ACTIVE" using assms(4) by (cases "state_of child") auto
    then show ?thesis
      using activate_law [OF assms(3)] True False assms(1)
      by (auto simp: add_child_object_def active_law composite_ok_def)
  qed (use True assms in \<open>simp add: add_child_object_def active_law composite_ok_def\<close>)
next
  case False
  then have st: "simple_state obj = AS_NOT_ACTIVE" using assms(2) by (cases "simple_state obj") auto
  show ?thesis
  proof (cases "state_of child = AS_ACTIVE")
    case True
    then obtain c1 where c1: "vdeactivate cls child = (Done, c1)" "ok c1" "state_of c1 = AS_DEACTIVATING"
      using deactivate_law [OF assms(3)] by auto
    then obtain c2 where "vwait_object cls c1 = (Done, c2)" "ok c2" "state_of c2 = AS_NOT_ACTIVE"
      using wait_law [OF c1(2)] by auto
    then show ?thesis using True c1 st assms(1) by (simp add: add_child_object_def active_law composite_ok_def)
  next
    case nact: False
    then have "state_of child = AS_NOT_ACTIVE" using assms(4) by (cases "state_of child") auto
    then show ?thesis using nact st assms(1,3) by (simp add: add_child_object_def active_law composite_ok_def)
  qed
qed

end

subsection \<open>Delegates, pollers' workers and pools keep the contract\<close>

definition common_ok :: "common \<Rightarrow> bool" where
  "common_ok c \<longleftrightarrow> \<not> delegate_stuck c \<and> 0 < threads_number c \<and>
     (case common_state c of
        AS_ACTIVE \<Rightarrow> 0 < running_jobs c
      | AS_DEACTIVATING \<Rightarrow> terminating c
      | AS_NOT_ACTIVE \<Rightarrow> running_jobs c = 0)"

lemma start_target_positive: "0 < n \<Longrightarrow> 0 < start_target k (runner_new n)"
  by (simp add: start_target_def runner_new_def)

interpretation plain: active_object "simple_class default_hooks" simple_state "\<lambda>_. True"
  by unfold_locales
    (auto simp: simple_class_def default_hooks_def simple_activate_def simple_deactivate_def
      simple_wait_def simple_active_def intro: active_state.exhaust)

interpretation delegate: active_object common_class common_state common_ok
proof
  fix c assume "common_ok c" "common_state c = AS_NOT_ACTIVE"
  then show "\<exists>c'. common_ok c' \<and> (vactivate common_class c = (Done, c') \<and> common_state c' = AS_ACTIVE \<or>
      vactivate common_class c = (Throws, c') \<and> common_state c' = AS_NOT_ACTIVE)"
    by (cases "starts c \<noteq> [] \<and> \<not> hd (starts c)")
      (auto simp: common_ok_def common_class_def common_activate_def runner_start_def start_target_positive)
next
  fix c assume "common_ok c"
  then show "\<exists>c'. vdeactivate common_class c = (Done, c') \<and> common_ok c' \<and>
      common_state c' = (if common_state c = AS_ACTIVE then AS_DEACTIVATING else common_state c)"
    by (auto simp: common_ok_def common_class_def common_deactivate_def make_terminate_def)
next
  fix c assume "common_ok c" "common_state c \<noteq> AS_ACTIVE"
  then show "\<exists>c'. vwait_object common_class c = (Done, c') \<and> common_ok c' \<and> common_state c' = AS_NOT_ACTIVE"
    by (cases "common_state c")
      (auto simp: common_ok_def common_class_def common_wait_def runner_wait_def terminated_def)
qed (simp add: common_class_def common_active_def)

interpretation workers: active_object "composite_class common_class" simple_state
    "composite_ok common_ok common_state"
  by (rule delegate.composite_contract)

interpretation pool_of_workers: active_object "composite_class (composite_class common_class)" simple_state
    "composite_ok (composite_ok common_ok common_state) simple_state"
  by (rule workers.composite_contract)

lemma workers_running:
  assumes "composite_ok (composite_ok common_ok common_state) simple_state pool"
    and "simple_state pool = AS_ACTIVE" and "poller \<in> set (children pool)" and "w \<in> set (children poller)"
  shows "common_state w = AS_ACTIVE \<and> 0 < running_jobs w"
  using assms by (fastforce simp: composite_ok_def all_in_def common_ok_def)

lemma workers_stopped:
  assumes "composite_ok (composite_ok common_ok common_state) simple_state pool"
    and "simple_state pool = AS_NOT_ACTIVE" and "poller \<in> set (children pool)" and "w \<in> set (children poller)"
  shows "common_state w = AS_NOT_ACTIVE \<and> running_jobs w = 0"
  using assms by (fastforce simp: composite_ok_def all_in_def common_ok_def)


text \<open>Two pollers of one worker with two threads each; the second poller's worker cannot start.\<close>

definition worker :: "bool list \<Rightarrow> common" where
  "worker answers = \<lparr>common_state = AS_NOT_ACTIVE, terminating = False, running_jobs = 0, threads_number = 2,
     start_threads = 0, starts = answers, delegate_stuck = False\<rparr>"

definition composite_of :: "'c list \<Rightarrow> 'c composite simple" where
  "composite_of cs = simple_new \<lparr>SYNCHRONOUS = False, CLEAR_ON_EXIT = True, child_objects = cs\<rparr>"

definition failing_pool :: "common composite simple composite simple" where
  "failing_pool = composite_of [composite_of [worker []], composite_of [worker [False]]]"

lemma failing_pool_ok:
  "composite_ok (composite_ok common_ok common_state) simple_state failing_pool"
  "simple_state failing_pool = AS_NOT_ACTIVE"
  by (simp_all add: failing_pool_def composite_of_def simple_new_def worker_def composite_ok_def children_def
      common_ok_def)



definition running_pool :: "common composite simple composite simple" where
  "running_pool = (composite_of [(composite_of [(worker [])\<lparr>common_state := AS_ACTIVE, running_jobs := 2\<rparr>])
     \<lparr>simple_state := AS_ACTIVE\<rparr>])\<lparr>simple_state := AS_ACTIVE\<rparr>"


end
