(* ===== verification/Programs.thy ===== *)
theory Programs
  imports Owners Connections ActiveObjects
begin

section \<open>The two programs (src/Server/main.cpp, src/Client/main.cpp)\<close>

text \<open>
  What \<open>main\<close> of the server and of the test client do, with the constructors they run: the loop that makes
  the pollers of a pool, each with its stop pipe, and the workers that each poller gets. A poller is seen
  twice, as the owner of its handlers (\<open>poller\<close>) and as the composite of its threads (\<open>composite\<close>). The
  answers of \<open>pipe\<close>, \<open>epoll_ctl\<close>, \<open>socket\<close>, \<open>bind\<close>, \<open>listen\<close> and \<open>pthread_create\<close> are arguments. No exception is
  caught in \<open>main\<close>.

  The theorems: the server, once its calls have succeeded, runs its 64 threads and never leaves \<open>main\<close>, and
  which poller serves the acceptor and each connection; the client always ends before it has sent anything.
\<close>

subsection \<open>Making a pool\<close>

text \<open>\<open>i\<close> counts the pollers; \<open>stop i\<close> is the address of the stop handler of the poller \<open>i\<close>.\<close>

fun create_pollers ::
  "'g handler_class \<Rightarrow> (nat \<Rightarrow> epoll_answer) \<Rightarrow> nat \<Rightarrow> (nat \<Rightarrow> (int \<times> int) option) \<Rightarrow> (nat \<Rightarrow> 'g) \<Rightarrow>
    (nat \<Rightarrow> nat) \<Rightarrow> nat \<Rightarrow> nat \<Rightarrow> (stop_pipe + 'g) poller list call" where
  "create_pollers cls ctl threads pipes objs stop i 0 = Return []"
| "create_pollers cls ctl threads pipes objs stop i (Suc n) =
     (case stop_pipe_new (pipes i) [] [] of
        Throw \<Rightarrow> Throw
      | Fault x \<Rightarrow> Fault x
      | Return h \<Rightarrow>
          (case poller_new (with_stop_pipe cls) (ctl i) threads ((\<lambda>d. Inr (objs d))(stop i := Inl h)) (stop i) of
             (Throw, _) \<Rightarrow> Throw
           | (Fault x, _) \<Rightarrow> Fault x
           | (Return _, p) \<Rightarrow>
               (case create_pollers cls ctl threads pipes objs stop (Suc i) n of
                  Throw \<Rightarrow> Throw
                | Fault x \<Rightarrow> Fault x
                | Return ps \<Rightarrow> Return (p # ps))))"

text \<open>The workers: \<open>make_delegate_active_object\<close> with one thread each, added as children.\<close>

fun add_workers ::
  "(nat \<Rightarrow> bool list) \<Rightarrow> nat \<Rightarrow> nat \<Rightarrow> common composite simple \<Rightarrow> ao_answer \<times> common composite simple" where
  "add_workers answers thread_i 0 obj = (Done, obj)"
| "add_workers answers thread_i (Suc n) obj =
     (case common_new 1 0 (answers thread_i) False of
        None \<Rightarrow> (Throws, obj)
      | Some w \<Rightarrow>
          (case add_child_object common_class w False obj of
             (Done, _, obj1) \<Rightarrow> add_workers answers (Suc thread_i) n obj1
           | (a, _, obj1) \<Rightarrow> (a, obj1)))"

definition poller_object :: "(nat \<Rightarrow> bool list) \<Rightarrow> nat \<Rightarrow> ao_answer \<times> common composite simple" where
  "poller_object answers threads = add_workers answers 0 threads (composite_new False True)"

fun add_pollers ::
  "(nat \<Rightarrow> nat \<Rightarrow> bool list) \<Rightarrow> nat \<Rightarrow> nat \<Rightarrow> nat \<Rightarrow> common composite simple composite simple \<Rightarrow>
    ao_answer \<times> common composite simple composite simple" where
  "add_pollers answers threads i 0 obj = (Done, obj)"
| "add_pollers answers threads i (Suc n) obj =
     (case poller_object (answers i) threads of
        (Done, poller) \<Rightarrow>
          (case add_child_object (composite_class common_class) poller False obj of
             (Done, _, obj1) \<Rightarrow> add_pollers answers threads (Suc i) n obj1
           | (a, _, obj1) \<Rightarrow> (a, obj1))
      | (a, _) \<Rightarrow> (a, obj))"

definition pool_object ::
  "(nat \<Rightarrow> nat \<Rightarrow> bool list) \<Rightarrow> nat \<Rightarrow> nat \<Rightarrow> ao_answer \<times> common composite simple composite simple" where
  "pool_object answers threads n = add_pollers answers threads 0 n (composite_new False True)"

subsection \<open>The server\<close>

text \<open>How a program ends: by an exception nobody catches, in undefined behaviour, never, or by \<open>return 0\<close>.\<close>

datatype main_end = Uncaught | Undefined fault | Waits | Returns_Zero

definition hash_create_descriptor_handler :: "(int \<Rightarrow> nat) \<Rightarrow> int \<Rightarrow> nat option" where
  "hash_create_descriptor_handler new_handler fd = Some (new_handler fd)"

text \<open>Activating a composite and waiting for it.\<close>

definition run_object :: "'c active_class \<Rightarrow> 'c composite simple \<Rightarrow> main_end \<times> 'c composite simple" where
  "run_object cls obj =
     (case vactivate (composite_class cls) obj of
        (Throws, obj) \<Rightarrow> (Uncaught, obj)
      | (Blocks, obj) \<Rightarrow> (Waits, obj)
      | (Done, obj) \<Rightarrow>
          (case vwait_object (composite_class cls) obj of
             (Throws, obj) \<Rightarrow> (Uncaught, obj)
           | (Blocks, obj) \<Rightarrow> (Waits, obj)
           | (Done, obj) \<Rightarrow> (Returns_Zero, obj)))"

definition server_pool ::
  "'g handler_class \<Rightarrow> (nat \<Rightarrow> epoll_answer) \<Rightarrow> (nat \<Rightarrow> (int \<times> int) option) \<Rightarrow> (nat \<Rightarrow> 'g) \<Rightarrow> (nat \<Rightarrow> nat) \<Rightarrow>
    nat \<Rightarrow> int \<Rightarrow> bool \<Rightarrow> bool \<Rightarrow> bool \<Rightarrow> (stop_pipe + 'g) pool call" where
  "server_pool cls ctl pipes objs stop acceptor socket_res non_blocking_ok bind_ok listen_ok =
     (case create_pollers cls ctl 4 pipes objs stop 0 16 of
        Throw \<Rightarrow> Throw
      | Fault x \<Rightarrow> Fault x
      | Return ps \<Rightarrow>
          (case acceptor_new socket_res non_blocking_ok bind_ok listen_ok of
             Throw \<Rightarrow> Throw
           | Fault x \<Rightarrow> Fault x
           | Return _ \<Rightarrow>
               (case pool_add (with_stop_pipe cls) (ctl 0) acceptor (pool_new ps) of
                  (Throw, _) \<Rightarrow> Throw
                | (Fault x, _) \<Rightarrow> Fault x
                | (Return _, q) \<Rightarrow> Return q)))"

definition server_main ::
  "(stop_pipe + 'g) pool call \<Rightarrow> (nat \<Rightarrow> nat \<Rightarrow> bool list) \<Rightarrow>
    main_end \<times> ((stop_pipe + 'g) pool \<times> common composite simple composite simple) option" where
  "server_main made answers =
     (case made of
        Throw \<Rightarrow> (Uncaught, None)
      | Fault x \<Rightarrow> (Undefined x, None)
      | Return q \<Rightarrow>
          (case pool_object answers 4 16 of
             (Done, obj) \<Rightarrow>
               (case run_object (composite_class common_class) obj of (e, obj1) \<Rightarrow> (e, Some (q, obj1)))
           | (_, _) \<Rightarrow> (Uncaught, None)))"

subsection \<open>The client\<close>

text \<open>
  \<open>Context\<close> is the composite of its pool. \<open>garbage\<close> is what \<open>opened_connections_\<close> happens to hold; the two times and
  \<open>opened\<close> are what \<open>send\<close> would meet if it got there; the pool of the context would be used only to open a socket. Waiting for the context comes after \<open>send\<close>.
\<close>

definition client_main ::
  "'g handler_class \<Rightarrow> (nat \<Rightarrow> epoll_answer) \<Rightarrow> (nat \<Rightarrow> (int \<times> int) option) \<Rightarrow> (nat \<Rightarrow> 'g) \<Rightarrow> (nat \<Rightarrow> nat) \<Rightarrow>
    (nat \<Rightarrow> nat \<Rightarrow> bool list) \<Rightarrow> int \<Rightarrow> timeval \<Rightarrow> timeval \<Rightarrow> open_result \<Rightarrow> main_end" where
  "client_main cls ctl pipes objs stop answers garbage push_now now opened =
     (case create_pollers cls ctl 4 pipes objs stop 0 12 of
        Throw \<Rightarrow> Uncaught
      | Fault x \<Rightarrow> Undefined x
      | Return _ \<Rightarrow>
          (case pool_object answers 4 12 of
             (Done, obj) \<Rightarrow>
               let connection = connection_new_callbacks garbage 10000 10
               in (case add_child_object (composite_class (composite_class common_class)) obj False
                          (composite_new False True) of
                     (Done, _, running_context) \<Rightarrow>
                       (case vactivate (composite_class (composite_class (composite_class common_class)))
                               running_context of
                          (Throws, _) \<Rightarrow> Uncaught
                        | (Blocks, _) \<Rightarrow> Waits
                        | (Done, running_context) \<Rightarrow>
                            (case connection_send push_now now opened
                                    (fst (buffer_move (buffer_of_vector (replicate 100 97)))) connection of
                               (Throw, _) \<Rightarrow> Uncaught
                             | (Fault x, _) \<Rightarrow> Undefined x
                             | (Return _, _) \<Rightarrow>
                                 (case vwait_object (composite_class (composite_class (composite_class common_class)))
                                         running_context of
                                    (Throws, _) \<Rightarrow> Uncaught
                                  | (Blocks, _) \<Rightarrow> Waits
                                  | (Done, _) \<Rightarrow> Returns_Zero)))
                   | (_, _, _) \<Rightarrow> Uncaught)
           | (_, _) \<Rightarrow> Uncaught))"

subsection \<open>The pollers of a new pool\<close>

lemma poller_new_returns:
  "fst (poller_new cls ctl threads objs d) = (if ctl [] (Epoll_Add (vfd cls (objs d)) 0 (EPOLL_FLAGS OR EPOLLIN OR EPOLLOUT))
     then Return True else Throw)"
  "dom (handlers (snd (poller_new cls ctl threads objs d))) = {d}"
  by (simp_all add: poller_new_def poller_add_handlers)
    (simp add: poller_add_def link_new_holder_def set_holder_def epoll_ctl_def Let_def)

lemma poller_add_returns: "\<forall>log request. ctl log request \<Longrightarrow> fst (poller_add cls ctl d p) = Return True"
  by (simp add: poller_add_def epoll_ctl_def Let_def split: prod.splits)

lemma create_pollers_handlers:
  assumes "create_pollers cls ctl threads pipes objs stop i n = Return ps"
  shows "length ps = n \<and> (\<forall>j < n. dom (handlers (ps ! j)) = {stop (i + j)})"
  using assms
proof (induction n arbitrary: i ps)
  case (Suc n)
  then obtain h p qs where h: "stop_pipe_new (pipes i) [] [] = Return h"
    "snd (poller_new (with_stop_pipe cls) (ctl i) threads ((\<lambda>d. Inr (objs d))(stop i := Inl h)) (stop i)) = p"
    "create_pollers cls ctl threads pipes objs stop (Suc i) n = Return qs" "ps = p # qs"
    by (auto split: call.splits prod.splits)
  have "dom (handlers p) = {stop i}" using h(2) poller_new_returns(2) by metis
  then show ?case using Suc.IH [OF h(3)] h(4) by (auto simp: nth_Cons split: nat.splits)
qed simp

lemma create_pollers_no_fault: "create_pollers cls ctl threads pipes objs stop i n \<noteq> Fault x"
proof (induction n arbitrary: i)
  case (Suc n)
  have "stop_pipe_new (pipes i) [] [] \<noteq> Fault x" by (simp add: stop_pipe_new_def split: option.splits)
  moreover have "poller_new (with_stop_pipe cls) (ctl i) threads os (stop i) \<noteq> (Fault x, p)" for os p
    using poller_new_returns(1) [of "with_stop_pipe cls" "ctl i" threads os "stop i"] by (auto split: if_splits)
  ultimately show ?case using Suc [of "Suc i"]
    by (auto split: call.splits prod.splits)
qed simp

lemma create_pollers_succeeds:
  assumes "\<forall>i. pipes i \<noteq> None" and "\<forall>i log request. ctl i log request"
  shows "\<exists>ps. create_pollers cls ctl threads pipes objs stop i n = Return ps"
proof (induction n arbitrary: i)
  case (Suc n)
  obtain h where h: "stop_pipe_new (pipes i) [] [] = Return h"
    using spec [OF assms(1), of i] by (auto simp: stop_pipe_new_def)
  obtain b p where "poller_new (with_stop_pipe cls) (ctl i) threads ((\<lambda>d. Inr (objs d))(stop i := Inl h)) (stop i) =
      (Return b, p)"
    using poller_new_returns(1) [of "with_stop_pipe cls" "ctl i" threads "(\<lambda>d. Inr (objs d))(stop i := Inl h)" "stop i"]
      assms(2) by (metis prod.collapse)
  then show ?case using h Suc [of "Suc i"] by auto
qed simp

subsection \<open>The threads of a new pool\<close>

definition new_worker :: "bool list \<Rightarrow> common" where
  "new_worker a = the (common_new 1 0 a False)"

lemma new_worker_simps [simp]:
  "common_new 1 0 a False = Some (new_worker a)" "common_new (Suc 0) 0 a False = Some (new_worker a)"
  "common_state (new_worker a) = AS_NOT_ACTIVE" "common_ok (new_worker a)"
  "running_jobs (new_worker a) = 0" "starts (new_worker a) = a"
  by (simp_all add: new_worker_def common_new_def common_ok_def)

lemma add_inactive_child:
  "simple_state obj = AS_NOT_ACTIVE \<Longrightarrow> \<not> vactive cls c \<Longrightarrow>
    add_child_object cls c False obj = (Done, c, set_children (children obj @ [c]) obj)"
  by (simp add: add_child_object_def)

definition threads_of :: "(nat \<Rightarrow> bool list) \<Rightarrow> nat \<Rightarrow> common composite simple" where
  "threads_of answers n = composite_of (map (\<lambda>i. new_worker (answers i)) [0..<n])"

lemma set_children_twice [simp]: "set_children bs (set_children as obj) = set_children bs obj"
  by (simp add: set_children_def)

lemma add_workers_children:
  "simple_state obj = AS_NOT_ACTIVE \<Longrightarrow> add_workers answers i n obj =
    (Done, set_children (children obj @ map (\<lambda>i. new_worker (answers i)) [i..<i + n]) obj)"
proof (induction n arbitrary: i obj)
  case 0
  then show ?case by (simp add: set_children_def children_def)
next
  case (Suc n)
  have "\<not> vactive common_class (new_worker (answers i))"
    by (simp add: common_class_def common_active_def)
  then show ?case
    using Suc.IH [of "set_children (children obj @ [new_worker (answers i)]) obj" "Suc i"] Suc.prems
    by (simp add: add_inactive_child upt_rec [of i])
qed

lemma composite_new_of: "set_children cs (composite_new False True) = composite_of cs"
  by (simp add: composite_new_def composite_of_def set_children_def simple_new_def)

lemma poller_object_threads: "poller_object answers n = (Done, threads_of answers n)"
  unfolding poller_object_def threads_of_def
  by (subst add_workers_children)
    (simp_all add: composite_new_of children_def, simp_all add: composite_new_def simple_new_def)

lemma composite_of_inactive [simp]: "simple_state (composite_of cs) = AS_NOT_ACTIVE" "children (composite_of cs) = cs"
  by (simp_all add: composite_of_def simple_new_def children_def)

lemma composite_of_ok [simp]:
  "composite_ok ok state_of (composite_of cs) \<longleftrightarrow> all_in ok state_of {AS_NOT_ACTIVE} cs"
  by (simp add: composite_ok_def)

lemma add_pollers_children:
  "simple_state obj = AS_NOT_ACTIVE \<Longrightarrow> add_pollers answers threads i n obj =
    (Done, set_children (children obj @ map (\<lambda>i. threads_of (answers i) threads) [i..<i + n]) obj)"
proof (induction n arbitrary: i obj)
  case 0
  then show ?case by (simp add: set_children_def children_def)
next
  case (Suc n)
  have "\<not> vactive (composite_class common_class) (threads_of (answers i) threads)"
    by (simp add: composite_class_def simple_active_def threads_of_def)
  then show ?case
    using Suc.IH [of "set_children (children obj @ [threads_of (answers i) threads]) obj" "Suc i"] Suc.prems
    by (simp add: add_inactive_child poller_object_threads upt_rec [of i])
qed

definition pool_threads :: "(nat \<Rightarrow> nat \<Rightarrow> bool list) \<Rightarrow> nat \<Rightarrow> nat \<Rightarrow> common composite simple composite simple" where
  "pool_threads answers threads n = composite_of (map (\<lambda>i. threads_of (answers i) threads) [0..<n])"

lemma pool_object_threads: "pool_object answers threads n = (Done, pool_threads answers threads n)"
  unfolding pool_object_def pool_threads_def
  by (subst add_pollers_children)
    (simp_all add: composite_new_of children_def, simp_all add: composite_new_def simple_new_def)

lemma pool_threads_ok:
  "composite_ok (composite_ok common_ok common_state) simple_state (pool_threads answers threads n)"
  by (auto simp: pool_threads_def threads_of_def composite_ok_def all_in_def)

text \<open>If no \<open>pthread_create\<close> fails, activation succeeds.\<close>

lemma activates_all:
  "\<forall>c \<in> set cs. fst (vactivate cls c) = Done \<Longrightarrow> activate_some_objects cls cs = (Done, map (snd \<circ> vactivate cls) cs, [])"
proof (induction cs)
  case (Cons c cs)
  then show ?case by (cases "vactivate cls c") auto
qed simp

lemma composite_activates_all:
  "simple_state obj = AS_NOT_ACTIVE \<Longrightarrow> \<forall>c \<in> set (children obj). fst (vactivate cls c) = Done \<Longrightarrow>
    vactivate (composite_class cls) obj =
      (Done, (set_children (map (snd \<circ> vactivate cls) (children obj)) obj)\<lparr>simple_state := AS_ACTIVE\<rparr>)"
  by (simp add: composite_class_def simple_activate_def composite_hooks_def composite_activate_hook_def activates_all)

definition running_worker :: common where
  "running_worker = (new_worker [])\<lparr>common_state := AS_ACTIVE, running_jobs := 1\<rparr>"

lemma new_worker_starts: "vactivate common_class (new_worker []) = (Done, running_worker)"
  by (simp add: common_class_def common_activate_def runner_start_def new_worker_def common_new_def
    running_worker_def start_target_def runner_new_def)

lemma pool_activates:
  assumes "obj = pool_threads (\<lambda>_ _. []) threads n"
  obtains obj' where "vactivate (composite_class (composite_class common_class)) obj = (Done, obj')"
    and "simple_state obj' = AS_ACTIVE" and "length (children obj') = n"
    and "\<forall>poller \<in> set (children obj'). children poller = replicate threads running_worker"
proof -
  let ?poller = "threads_of (\<lambda>_. []) threads"
  let ?started = "(set_children (replicate threads running_worker) ?poller)\<lparr>simple_state := AS_ACTIVE\<rparr>"
  have "children ?poller = replicate threads (new_worker [])"
    by (simp add: threads_of_def map_replicate_const)
  then have p: "vactivate (composite_class common_class) ?poller = (Done, ?started)"
    by (subst composite_activates_all)
      (simp_all add: threads_of_def [of "\<lambda>_. []"] new_worker_starts)
  have "children obj = replicate n ?poller"
    by (simp add: assms pool_threads_def map_replicate_const)
  then have "vactivate (composite_class (composite_class common_class)) obj =
      (Done, (set_children (replicate n ?started) obj)\<lparr>simple_state := AS_ACTIVE\<rparr>)"
    by (subst composite_activates_all) (simp_all add: p assms pool_threads_def [of _ _ n])
  then show thesis by (rule that) simp_all
qed

lemma wait_of_active: "simple_state obj = AS_ACTIVE \<Longrightarrow> vwait_object (composite_class cls) obj = (Blocks, obj)"
  by (simp add: composite_class_def simple_wait_def)

subsection \<open>Properties\<close>

text \<open>C34: The server once it has started: when its system calls succeed, \<open>main\<close> makes 16 pollers, starts four
  threads for each and then waits for ever, as nothing deactivates the pool. The acceptor is served by the
  first poller; the connections it takes go to the second, the third and so on, around the pool.\<close>

theorem server_starts_and_stays:
  assumes "\<forall>i. pipes i \<noteq> None" and "\<forall>i log request. ctl i log request" and "0 \<le> socket_res"
  shows "\<exists>q obj. server_main (server_pool cls ctl pipes objs stop acceptor socket_res True True True)
      (\<lambda>_ _. []) = (Waits, Some (q, obj)) \<and>
    length (children obj) = 16 \<and>
    (\<forall>poller \<in> set (children obj). children poller = replicate 4 running_worker) \<and>
    length (pollers q) = 16 \<and>
    (\<forall>j < 16. \<forall>ds. dom (handlers (pollers (pool_add_all (with_stop_pipe cls) (ctl 0) ds q) ! j)) =
      {stop j} \<union> (if j = 0 then {acceptor} else {}) \<union> {ds ! i | i. i < length ds \<and> Suc i mod 16 = j})"
proof -
  obtain ps where ps: "create_pollers cls ctl 4 pipes objs stop 0 16 = Return ps"
    using create_pollers_succeeds [OF assms(1,2)] by blast
  have new: "length ps = 16" "\<And>j. j < 16 \<Longrightarrow> dom (handlers (ps ! j)) = {stop j}"
    using create_pollers_handlers [OF ps] by simp_all
  let ?q0 = "pool_new ps"
  have ready: "pool_ready ?q0" by (simp add: pool_ready_def pool_new_def new(1))
  note st = pool_add_state [OF ready, where cls = "with_stop_pipe cls" and ctl_ok = "ctl 0" and d = acceptor]
  have "fst (poller_add (with_stop_pipe cls) (ctl 0) acceptor (ps ! 0)) = Return True"
    by (rule poller_add_returns) (simp add: assms(2))
  then obtain q where q: "pool_add (with_stop_pipe cls) (ctl 0) acceptor ?q0 = (Return True, q)"
    by (cases "poller_add (with_stop_pipe cls) (ctl 0) acceptor (ps ! 0)")
      (auto simp: pool_add_def pool_new_def new(1) Let_def)
  have made: "server_pool cls ctl pipes objs stop acceptor socket_res True True True = Return q"
    using assms(3) by (simp add: server_pool_def ps acceptor_new_def q)
  have q1: "poller_it q = 1" "length (pollers q) = 16"
    "\<And>j. j < 16 \<Longrightarrow> dom (handlers (pollers q ! j)) = {stop j} \<union> (if j = 0 then {acceptor} else {})"
    using st q new by (simp_all add: pool_new_def)
  have "pool_ready q" by (simp add: pool_ready_def q1)
  from pool_add_all_state [OF this] have
    "dom (handlers (pollers (pool_add_all (with_stop_pipe cls) (ctl 0) ds q) ! j)) =
      {stop j} \<union> (if j = 0 then {acceptor} else {}) \<union> {ds ! i | i. i < length ds \<and> Suc i mod 16 = j}"
    if "j < 16" for j ds
    using that q1 by simp
  moreover obtain obj where obj:
    "vactivate (composite_class (composite_class common_class)) (pool_threads (\<lambda>_ _. []) 4 16) = (Done, obj)"
    "simple_state obj = AS_ACTIVE" "length (children obj) = 16"
    "\<forall>poller \<in> set (children obj). children poller = replicate 4 running_worker"
    by (rule pool_activates [OF refl])
  have "server_main (server_pool cls ctl pipes objs stop acceptor socket_res True True True) (\<lambda>_ _. []) =
      (Waits, Some (q, obj))"
    by (simp add: server_main_def made pool_object_threads run_object_def obj(1) wait_of_active [OF obj(2)])
  ultimately show ?thesis using obj(3,4) q1(2) by blast
qed

theorem server_starts_and_stays_witness:
  "fst (server_main (server_pool counting_class (\<lambda>_ _ _. True) (\<lambda>_. Some (8, 9)) (\<lambda>_. 0) (\<lambda>i. i) 100 5 True True True)
    (\<lambda>_ _. [])) = Waits"
  using server_starts_and_stays [of "\<lambda>_. Some (8, 9)" "\<lambda>_ _ _. True" 5 counting_class "\<lambda>_. 0" "\<lambda>i. i" 100] by force

text \<open>The test client never sends its message: whatever the answers of the system calls, \<open>main\<close> ends in an
  exception of its set-up or dereferences the null \<open>state_\<close> of the connection in \<open>send\<close>.\<close>

theorem client_never_sends:
  "client_main cls ctl pipes objs stop answers garbage push_now now opened \<in> {Uncaught, Undefined Null_Dereference}"
proof -
  let ?obj = "pool_threads answers 4 12"
  let ?ctx = "composite_of [?obj]"
  have inactive: "\<not> vactive (composite_class (composite_class common_class)) ?obj"
    by (simp add: composite_class_def simple_active_def pool_threads_def)
  have "add_child_object (composite_class (composite_class common_class)) ?obj False (composite_new False True) =
      (Done, ?obj, ?ctx)"
    using add_inactive_child [OF _ inactive, of "composite_new False True"]
    by (simp add: composite_new_of) (simp add: composite_new_def simple_new_def children_def composite_of_def set_children_def)
  moreover have "composite_ok (composite_ok (composite_ok common_ok common_state) simple_state) simple_state ?ctx"
    using pool_threads_ok [of answers 4 12] by (simp add: pool_threads_def)
  then have "fst (vactivate (composite_class (composite_class (composite_class common_class))) ?ctx) \<noteq> Blocks"
    using pool_of_workers.composite_activates [of ?ctx]
    by (auto simp: composite_class_def [of "composite_class (composite_class common_class)"])
  moreover have "connection_send push_now now opened m (connection_new_callbacks garbage 10000 10) =
      (Fault Null_Dereference, connection_new_callbacks garbage 10000 10)" for m
    by (simp add: connection_send_def connection_new_callbacks_def connection_new_def)
  ultimately show ?thesis
    using create_pollers_no_fault [of cls ctl 4 pipes objs stop 0 12]
    by (auto simp: client_main_def pool_object_threads Let_def split: call.splits ao_answer.splits prod.splits)
qed

end
