(* ===== verification/Spec2Isabelle.thy ===== *)
theory Spec2Isabelle
  imports GearsCalendar TimeText Locks GearsConcat GearsAscii SubStrings ThreadBuffers Logging GearsCrc SystemCalls
    PollSet OneShot EventBatches ProxyLifetime HandlerLifetime WakeUps ServerClients Programs
begin

text \<open>
  LiteMQ: a model of the message queue, its epoll poller and the library they are built on.

  The program. \<open>gears/\<close> is a utility library: times and calendars, atomic counters, semaphores,
  threads, active objects, strings, logging. \<open>litemq/\<close> is a small message transport on top of it. A
  \<open>Context\<close> owns a \<open>DescriptorHandlerPollerPool\<close>, which deals descriptor handlers out to its
  pollers; a \<open>DescriptorHandlerPoller\<close> runs \<open>epoll_wait\<close> in several threads, calls \<open>read\<close> and \<open>write\<close> of
  the handler an event belongs to, lets the returned flags change what the descriptor is armed for,
  and frees a closed handler's holder when no thread can still see it. A \<open>Connection\<close> puts messages into
  a \<open>MessageQueue\<close> with timeouts and wakes or opens a \<open>SendDescriptorHandler\<close>, which pops messages and
  sends them with their lengths. \<open>src/Server/main.cpp\<close> is a server on the same pollers that answers
  each line it reads.

  How the code is modelled. A struct or class is a record of its data members, a method a function
  from the object and its arguments to a result and the new object. Integers are mathematical ones
  where the code cannot overflow or is bounded by a hypothesis, and reduced to 32 or 64 bits where
  it wraps (\<open>s32\<close>, \<open>u64\<close>, words for flags). An exception, undefined behaviour (a null pointer, an
  iterator past the end, a read outside an array, a failed assertion) and a blocked call are values.
  What the kernel answers (\<open>epoll_wait\<close>, \<open>epoll_ctl\<close>, \<open>sendmsg\<close>, \<open>read\<close>, \<open>accept\<close>, \<open>pthread_create\<close>) is
  an argument of the models: the theorems hold for every answer unless they say otherwise. Methods
  of one object run under a mutex are atomic; where threads meet without one (the counter of
  \<open>handle_\<close>, the group start of \<open>ThreadRunner\<close>) the model is a step relation over interleavings.

  The theories, in the order of the code:
  \<^item> \<open>Prelude\<close>: bytes, faults, fixed-width integers, results that may be errors.
  \<^item> \<open>GearsTime\<close>, \<open>GearsCalendar\<close> (gears/Time.hpp, Time.cpp): \<open>timeval\<close> arithmetic refines
    arithmetic on microseconds; \<open>gm_to_time\<close> and \<open>time_to_gm\<close> are inverse, agree with the
    Gregorian calendar until 2100 and not after. \<open>TimeText\<close>: times written by a format and read back, the
    names of months and days, the stream operators.
  \<^item> \<open>GearsAtomic\<close> (gears/AtomicCounter.hpp): the counter of the cleaner.
  \<^item> \<open>GearsThreads\<close> (gears/Semaphore.hpp, ThreadRunner.hpp, .cpp): a failed start runs no job and
    waiting ends, in all interleavings in which the first thread can be created.
  \<^item> \<open>ActiveObjects\<close> (gears/ActiveObject.hpp, .cpp, CompositeActiveObject.hpp,
    DelegateActiveObject.hpp): the locale \<open>active_object\<close> is the contract of activating, deactivating
    and waiting. It is interpreted for \<open>SimpleActiveObject\<close>, for delegates, for a poller's composite of
    workers and for a pool of pollers.
  \<^item> \<open>MsgQueue\<close> (litemq/Message.hpp, MessageQueue.hpp): the queue, its timeout map and its counter. The
    locale \<open>batch_queue\<close> is what the handlers rely on when they pop and push back; the step relation
    \<open>mq_step\<close> is the queue with its handlers.
  \<^item> \<open>DescHandlers\<close> (DescriptorHandlerPoller.hpp, .cpp): flags, holders, \<open>apply_state_modify_\<close>.
  \<^item> \<open>Cleaner\<close> (DescriptorHandlerCleaner): a holder is freed once, and only after every thread has
    released since it was pushed.
  \<^item> \<open>Poller\<close> (DescriptorHandlerPoller, its Proxy, the pool): \<open>handle_\<close> step by step, \<open>process_\<close>, \<open>add\<close>, the
    destructor. The fuel of \<open>handle_loop\<close> counts rounds; one more than the events that arrive meanwhile
    is enough, and \<open>handle_serves_and_rearms\<close> proves it.
  \<^item> \<open>PollerLinks\<close>: the handler map, the holders' pointers and the handlers' links agree in every
    reachable state. \<open>PollerThreads\<close>: the lock made of \<open>handle_in_progress\<close>. \<open>StopPipe\<close>: how the threads
    of a poller are stopped.
  \<^item> \<open>PollSet\<close>: what the kernel has registered after the requests a poller made, which are the holders in use.
    \<open>OneShot\<close>: the delivery of events and the rearming around the lock of \<open>PollerThreads\<close>, which it refines: without wake-ups
    \<open>EPOLLONESHOT\<close> lets one thread at a time at a holder. \<open>EventBatches\<close>: the events a thread still has to serve against the
    cleaner. \<open>ProxyLifetime\<close>: the threads inside a proxy against the destructor
    of its owner. \<open>HandlerLifetime\<close>: who owns a handler, when its descriptor is closed, and what becomes of descriptors and addresses
    that are given out again; one thread alone does what \<open>Poller\<close> has.
  \<^item> \<open>Owners\<close> (AcceptorDescriptorHandler.cpp, Context.cpp): the locales \<open>descriptor_handler_owner\<close>,
    \<open>direct_owner\<close> and \<open>proxied\<close> are what the acceptor relies on; poller, pool and context provide them.
  \<^item> \<open>SendHandler\<close>, \<open>Connections\<close> (Connection.cpp, Connection.hpp): filling \<open>sendmsg\<close>'s vector, booking what
    was sent, opening sockets. \<open>WakeUps\<close> puts the sending handler on a poller and wakes it.
  \<^item> \<open>EchoServer\<close>, \<open>EchoWrites\<close> (src/Server/main.cpp): the lines read and the answers sent. \<open>ServerLoop\<close> composes the
    connection of the server with the poller: what the thread of \<open>process_\<close> makes of any number of events. \<open>ServerClients\<close>: any
    number of connections, whose events come in any order and to any thread. \<open>Programs\<close>: \<open>main\<close>
    of the server and of the client, with the pools and threads they make.
  \<^item> \<open>GearsCrc\<close>, \<open>GearsHex\<close>, \<open>GearsNumbers\<close>, \<open>GearsConcat\<close> (gears/StringManip.hpp, .cpp): the checksum by table is
    the bitwise division, hexadecimal text decodes to what was encoded, numbers are read exactly when they
    fit and written so that they read back, and the C string functions stay inside their buffers.
  \<^item> \<open>GearsAscii\<close> (gears/AsciiStringManip.hpp, .cpp): case tables, character categories and their searches,
    \<open>flatten\<close>, \<open>trim\<close>, comparison without case.
  \<^item> \<open>SubStrings\<close> (gears/SubString.hpp, .tpp): references into a memory; each operation on a valid reference
    is the operation on its text.
  \<^item> \<open>MemoryStreams\<close> (gears/Allocator, OutputMemoryStream, InputMemoryStream), \<open>ThreadBuffers\<close>
    (gears/ThreadBuffer.hpp): the stream buffers and the buffers of the threads, which are never shared.
  \<^item> \<open>GearsExceptions\<close> (gears/Exception.hpp, Optional.hpp), \<open>LogFormat\<close>, \<open>Logging\<close> (gears/SimpleLogger,
    Logger, StreamLogger, ActiveObjectCallback): the text of an exception, the line a record is formatted to,
    the loggers. The locale \<open>leveled_logger\<close> is what a holder relies on; its interpretation on the model's
    loggers makes a holder transparent.
  \<^item> \<open>GearsErrno\<close> (gears/Errno.hpp), \<open>Conditions\<close> (gears/Lock.hpp, Condition.hpp, .cpp): what the exception of a
    failed call says; the calls that guards and conditions make to pthread, which keep its rules. \<open>Locks\<close>: what the guards of many threads guarantee.
    \<open>SystemCalls\<close> (ThreadRunner.cpp, ThreadKey.hpp): the wrappers that call the system and throw.

  What the theorems found. Several state that the code does something else than it means to: the
  sending side never sends (\<open>need_to_send\<close> is inverted, \<open>state_\<close> is never set, \<open>remove_sent_messages_\<close>
  compares the wrong way and does not count headers), the queue is not bounded by its capacity and a
  short \<open>pop\<close> runs past its end, a close in a later round of \<open>handle_\<close> goes through a null pointer, an
  exception wedges a holder, an answer sent in three parts is sent wrongly, a connection whose peer
  closes first stays open, a sending handler that has stopped writing is woken to no effect, a wake-up can let one thread close
  the handler another is about to arm or free a holder whose event another is about to serve, a new connection at the address of a handler just closed is dropped, a number appended to a text loses its last digit, a reference is ordered
  before its own prefix, an input stream cannot be sought. Each is a theorem about the definitions as the code has them.

  What is not modelled: what pthread does with the calls of conditions, memory layout, the trace output of the poller, the addresses and ports of
  sockets, what runs when a program is killed, and the weak memory order behind the atomics, which are taken to be sequentially
  consistent. Class declarations, methods that only return a member and constructors that only store their arguments have no definition of their
  own (the selectors and records are theirs); \<open>Uncopyable\<close> deletes operations and does nothing, and the self-delegating form of
  \<open>DelegateActiveObject\<close> and the template constructors of \<open>ThreadRunner\<close> are used by nothing here.
\<close>

end
